(* ===== verification/Daisy_Prelude.thy ===== *)
theory Daisy_Prelude
  imports Main "HOL-Library.Multiset" "HOL-Library.Product_Lexorder"
    "HOL-Library.List_Lexorder" "HOL-Library.Char_ord" "HOL-Library.Word"
begin

text \<open>
  Shared material of the development: the result type of fallible code, the facts on lists
  and sorted containers that several components use, and the two interfaces that recur in the
  code: a transition system with an invariant, and the contract of \<^verbatim>\<open>std::sort\<close>.

  Conventions used everywhere.  A throwing C++ function returns a value of
  \<open>error + 'a\<close> (\<open>Inl\<close> is the exception).  A C++ operation that would be undefined
  behaviour (\<^verbatim>\<open>front()\<close> of an empty deque, a division by zero, a loop that never reaches its
  bound) returns \<open>None\<close> of an option type, so that a theorem of the form
  \<open>f x = Some y\<close> also says that the behaviour is defined.  \<^verbatim>\<open>assert\<close> has no effect in the
  release build and is not executed by the model; where an assertion is worth having it is
  proved as a lemma about reachable states.
\<close>

section \<open>Results\<close>

type_synonym ('e, 'a) result = "'e + 'a"

definition bind_result :: "('e, 'a) result \<Rightarrow> ('a \<Rightarrow> ('e, 'b) result) \<Rightarrow> ('e, 'b) result" where
  "bind_result r f = (case r of Inl e \<Rightarrow> Inl e | Inr a \<Rightarrow> f a)"

lemma bind_result_simps [simp]:
  "bind_result (Inl e) f = Inl e"
  "bind_result (Inr a) f = f a"
  by (simp_all add: bind_result_def)

lemma bind_result_Inr:
  "bind_result r f = Inr b \<longleftrightarrow> (\<exists>a. r = Inr a \<and> f a = Inr b)"
  by (cases r) simp_all

section \<open>Reachable states\<close>

text \<open>
  A component with state is a set of initial states and a step relation; a safety property is
  an invariant.  The lifting from one step to every run is done once.
\<close>

locale step_system =
  fixes init :: "'s \<Rightarrow> bool"
    and step :: "'s \<Rightarrow> 's \<Rightarrow> bool"
    and inv :: "'s \<Rightarrow> bool"
  assumes init_establishes: "init s \<Longrightarrow> inv s"
    and step_preserves: "inv s \<Longrightarrow> step s t \<Longrightarrow> inv t"
begin

lemma run_preserves: "step\<^sup>*\<^sup>* s t \<Longrightarrow> inv s \<Longrightarrow> inv t"
  by (induction rule: rtranclp_induct) (auto intro: step_preserves)

lemma reachable_inv: "init s \<Longrightarrow> step\<^sup>*\<^sup>* s t \<Longrightarrow> inv t"
  by (blast intro: run_preserves init_establishes)

lemma run_relates:
  assumes "step\<^sup>*\<^sup>* s t" and "inv s"
    and refl: "\<And>u. inv u \<Longrightarrow> R u u"
    and one: "\<And>u v w. inv v \<Longrightarrow> R u v \<Longrightarrow> step v w \<Longrightarrow> R u w"
  shows "R s t"
proof -
  from assms(1) have "inv t \<and> R s t"
  proof (induction rule: rtranclp_induct)
    case base
    then show ?case using assms(2) refl by blast
  next
    case (step v w)
    then show ?case by (blast intro: step_preserves one)
  qed
  then show ?thesis ..
qed

end

section \<open>Sorting\<close>

text \<open>
  \<^verbatim>\<open>std::sort\<close> with a comparator promises a permutation of its input that the comparator
  nowhere contradicts; elements the comparator does not distinguish may come out in any
  order.  The comparators of the code compare a key, so the model sorts by that key; when the
  keys of the input are distinct, every result the standard allows is that list.
\<close>

locale std_sort =
  fixes less :: "'a \<Rightarrow> 'a \<Rightarrow> bool"
    and key :: "'a \<Rightarrow> 'k::linorder"
  assumes less_is_key: "less x y \<longleftrightarrow> key x < key y"
begin

lemma sort_perm: "mset (sort_key key xs) = mset xs"
  by simp

lemma sort_ordered: "sorted_wrt (\<lambda>x y. \<not> less y x) (sort_key key xs)"
proof -
  have "sorted_wrt (\<lambda>x y. key x \<le> key y) (sort_key key xs)"
    using sorted_sort_key [of key xs] by (simp add: sorted_wrt_map)
  then show ?thesis by (simp add: less_is_key not_less)
qed

lemma sort_result_unique:
  assumes "mset ys = mset xs" and "sorted_wrt (\<lambda>x y. \<not> less y x) ys"
    and "inj_on key (set xs)"
  shows "ys = sort_key key xs"
proof -
  from assms(2) have "sorted (map key ys)"
    by (simp add: less_is_key not_less sorted_wrt_map)
  with assms(1,3) show ?thesis
    using properties_for_sort_key [of ys xs key] sort_key_inj_key_eq [of xs ys key] by auto
qed

end

section \<open>Lists\<close>

lemma upto_Cons: "(i::int) \<le> j \<Longrightarrow> [i..j] = i # [i + 1..j]"
  by (rule upto_rec1)

lemma sorted_wrt_nthD: "sorted_wrt P xs \<Longrightarrow> i < j \<Longrightarrow> j < length xs \<Longrightarrow> P (xs ! i) (xs ! j)"
  by (simp add: sorted_wrt_iff_nth_less)

lemma take_drop_map_nth:
  "p \<le> q \<Longrightarrow> q \<le> length xs \<Longrightarrow> take (q - p) (drop p xs) = map ((!) xs) [p..<q]"
  by (rule nth_equalityI) auto

lemma set_take_drop:
  "p \<le> q \<Longrightarrow> q \<le> length xs \<Longrightarrow> set (take (q - p) (drop p xs)) = (!) xs ` {p..<q}"
  by (simp add: take_drop_map_nth)

end
