(* ===== verification/Sequence_Ranges.thy ===== *)
theory Sequence_Ranges
  imports Daisy_Prelude
begin

text \<open>
  \<^verbatim>\<open>src/src/Storages/MergeTree/SequenceInfo.h\<close> and \<^verbatim>\<open>SequenceInfo.cpp\<close>: the sequence numbers
  that every data part carries (\<^verbatim>\<open>sn.txt\<close>), their merge when parts are merged, and the scan at
  startup that finds which sequence ranges, and which parts of a range, were not persisted.
  Sequence numbers are log offsets (\<^verbatim>\<open>Int64\<close>, never negative once assigned); the code only adds
  or subtracts one from them, and the model uses \<open>int\<close>.  The logger argument is dropped.
\<close>

section \<open>Data\<close>

record sequence_range =
  start_sn :: int
  end_sn :: int
  part_index :: int
  parts :: int

definition SequenceRange :: "int \<Rightarrow> int \<Rightarrow> int \<Rightarrow> int \<Rightarrow> sequence_range" where
  "SequenceRange s e i p = \<lparr>start_sn = s, end_sn = e, part_index = i, parts = p\<rparr>"

text \<open>The two-argument constructor leaves \<^verbatim>\<open>part_index\<close> and \<^verbatim>\<open>parts\<close> at \<open>-1\<close>: a whole range.\<close>

definition SequenceRange2 :: "int \<Rightarrow> int \<Rightarrow> sequence_range" where
  "SequenceRange2 s e = SequenceRange s e (-1) (-1)"

definition range_valid :: "sequence_range \<Rightarrow> bool" where
  "range_valid r \<longleftrightarrow> start_sn r \<ge> 0 \<and> end_sn r \<ge> 0 \<and> start_sn r \<le> end_sn r
     \<and> ((part_index r \<ge> 0 \<and> parts r \<ge> 1 \<and> part_index r < parts r)
        \<or> (part_index r = 0 \<and> parts r = 0))"

definition range_less :: "sequence_range \<Rightarrow> sequence_range \<Rightarrow> bool" where
  "range_less lhs rhs =
     (if start_sn lhs < start_sn rhs then True
      else if start_sn lhs = start_sn rhs then part_index lhs < part_index rhs
      else False)"

type_synonym idempotent_key = "int \<times> string"

record sequence_info =
  sequence_ranges :: "sequence_range list"
  idempotent_keys :: "idempotent_key list option"

definition SequenceInfo :: "int \<Rightarrow> int \<Rightarrow> idempotent_key list option \<Rightarrow> sequence_info" where
  "SequenceInfo s e keys = \<lparr>sequence_ranges = [SequenceRange2 s e], idempotent_keys = keys\<rparr>"

text \<open>\<^verbatim>\<open>shallowClone\<close> writes \<^verbatim>\<open>sparts[0]\<close>, undefined when the information has no range.\<close>

definition shallowClone :: "sequence_info \<Rightarrow> int \<Rightarrow> int \<Rightarrow> sequence_info option" where
  "shallowClone si i p =
     (case sequence_ranges si of [] \<Rightarrow> None
      | r # rs \<Rightarrow> Some (si\<lparr>sequence_ranges := r\<lparr>part_index := i, parts := p\<rparr> # rs\<rparr>))"

definition info_valid :: "sequence_info \<Rightarrow> bool" where
  "info_valid si \<longleftrightarrow>
     \<not> (sequence_ranges si = [] \<and> (case idempotent_keys si of None \<Rightarrow> True | Some ks \<Rightarrow> ks = []))
     \<and> list_all range_valid (sequence_ranges si)"

section \<open>Sorting ranges\<close>

definition range_key :: "sequence_range \<Rightarrow> int \<times> int" where
  "range_key r = (start_sn r, part_index r)"

definition sort_ranges :: "sequence_range list \<Rightarrow> sequence_range list" where
  "sort_ranges rs = sort_key range_key rs"

section \<open>Merging\<close>

fun merge_ranges_loop :: "int \<Rightarrow> sequence_range list \<Rightarrow> sequence_range list \<Rightarrow> sequence_range list" where
  "merge_ranges_loop committed merged [] = merged"
| "merge_ranges_loop committed merged (r # rs) =
     merge_ranges_loop committed (if end_sn r > committed then merged @ [r] else merged) rs"

definition mergeSequenceRanges :: "sequence_range list \<Rightarrow> int \<Rightarrow> sequence_range list" where
  "mergeSequenceRanges rs committed = merge_ranges_loop committed [] (sort_ranges rs)"

text \<open>
  \<^verbatim>\<open>std::set<IdempotentKey>\<close> is an ascending list without duplicates; pairs compare by number
  and then by the bytes of the key.
\<close>

definition mergeIdempotentKeys :: "idempotent_key list \<Rightarrow> nat \<Rightarrow> idempotent_key list option" where
  "mergeIdempotentKeys ks max_keys =
     (if ks = [] then None
      else if length ks > max_keys then Some (drop (length ks - max_keys) ks)
      else Some ks)"

definition mergeSequenceInfo :: "sequence_info list \<Rightarrow> int \<Rightarrow> nat \<Rightarrow> sequence_info option" where
  "mergeSequenceInfo sequences committed max_keys =
     (if sequences = [] then None
      else
        let rs = concat (map sequence_ranges sequences);
            ks = sort (remdups (concat (map (\<lambda>si. case idempotent_keys si of None \<Rightarrow> [] | Some l \<Rightarrow> l) sequences)))
        in Some \<lparr>sequence_ranges = mergeSequenceRanges rs committed,
                 idempotent_keys = mergeIdempotentKeys ks max_keys\<rparr>)"

section \<open>Missing ranges\<close>

definition collectMissingSequenceRangeBefore ::
    "sequence_range \<Rightarrow> nat \<Rightarrow> int \<Rightarrow> sequence_range list \<Rightarrow> sequence_range list" where
  "collectMissingSequenceRangeBefore prev prev_index next_expecting missing =
     (if prev_index \<noteq> 0 then missing
      else if start_sn prev \<noteq> next_expecting
      then missing @ [SequenceRange2 next_expecting (start_sn prev - 1)]
      else missing)"

definition collectMissingSequenceRangeBetween ::
    "sequence_range \<Rightarrow> sequence_range \<Rightarrow> sequence_range list \<Rightarrow> sequence_range list" where
  "collectMissingSequenceRangeBetween prev cur missing =
     (if start_sn prev \<noteq> start_sn cur \<and> end_sn prev + 1 \<noteq> start_sn cur
      then missing @ [SequenceRange2 (end_sn prev + 1) (start_sn cur - 1)]
      else missing)"

text \<open>
  \<^verbatim>\<open>for (j = next; j != part_index; ++j)\<close>: the loop does not end when it starts above its
  bound, and the value is then \<open>None\<close>.
\<close>

partial_function (option) collect_parts_until ::
    "sequence_range \<Rightarrow> int \<Rightarrow> int \<Rightarrow> sequence_range list \<Rightarrow> sequence_range list option" where
  "collect_parts_until r j bound missing =
     (if j = bound then Some missing
      else collect_parts_until r (j + 1) bound (missing @ [r\<lparr>part_index := j\<rparr>]))"

fun collect_parts_loop ::
    "sequence_range \<Rightarrow> sequence_range list \<Rightarrow> int \<Rightarrow> sequence_range list
      \<Rightarrow> (int \<times> sequence_range list) option" where
  "collect_parts_loop g [] next_part missing = Some (next_part, missing)"
| "collect_parts_loop g (r # rs) next_part missing =
     (if part_index r \<noteq> next_part
      then (case collect_parts_until g next_part (part_index r) missing of
              None \<Rightarrow> None
            | Some missing' \<Rightarrow> collect_parts_loop g rs (part_index r + 1) missing')
      else collect_parts_loop g rs (next_part + 1) missing)"

definition collectMissingPartsSequenceRange ::
    "sequence_range list \<Rightarrow> nat \<Rightarrow> nat \<Rightarrow> sequence_range list \<Rightarrow> sequence_range list option" where
  "collectMissingPartsSequenceRange rs prev_index cur_index missing =
     (let g = rs ! prev_index in
      case collect_parts_loop g (take (cur_index - prev_index) (drop prev_index rs)) 0 missing of
        None \<Rightarrow> None
      | Some (next_part, missing') \<Rightarrow>
          Some (missing' @ map (\<lambda>j. g\<lparr>part_index := j\<rparr>) [next_part..parts g - 1]))"

definition collectMissingSequenceRanges ::
    "sequence_range list \<Rightarrow> nat \<Rightarrow> nat \<Rightarrow> int \<Rightarrow> int \<times> sequence_range list
      \<Rightarrow> (int \<times> sequence_range list) option" where
  "collectMissingSequenceRanges rs prev_index cur_index n_parts st =
     (let (next_expecting, missing) = st;
          prev = rs ! prev_index;
          cur = rs ! (if cur_index = length rs then cur_index - 1 else cur_index)
      in if parts prev = n_parts
         then
           let (next', missing') =
             (if start_sn prev = next_expecting then (end_sn prev + 1, missing)
              else (next_expecting, collectMissingSequenceRangeBefore prev prev_index next_expecting missing))
           in Some (next', collectMissingSequenceRangeBetween prev cur missing')
         else
           (case collectMissingPartsSequenceRange rs prev_index cur_index
                   (collectMissingSequenceRangeBefore prev prev_index next_expecting missing) of
              None \<Rightarrow> None
            | Some missing' \<Rightarrow>
                Some (next_expecting, collectMissingSequenceRangeBetween prev cur missing')))"

text \<open>One iteration of the loop over \<^verbatim>\<open>cur_index\<close>; the state is \<^verbatim>\<open>prev_index\<close>, \<^verbatim>\<open>parts\<close>,
  \<^verbatim>\<open>next_expecting_sn\<close> and \<^verbatim>\<open>missing_ranges\<close>.\<close>

fun missing_step ::
    "sequence_range list \<Rightarrow> nat \<Rightarrow> (nat \<times> int \<times> int \<times> sequence_range list)
      \<Rightarrow> (nat \<times> int \<times> int \<times> sequence_range list) option" where
  "missing_step rs cur_index (prev_index, n_parts, next_expecting, missing) =
     (if start_sn (rs ! prev_index) = start_sn (rs ! cur_index)
      then Some (prev_index, n_parts + 1, next_expecting, missing)
      else (case collectMissingSequenceRanges rs prev_index cur_index n_parts (next_expecting, missing) of
              None \<Rightarrow> None
            | Some (next', missing') \<Rightarrow> Some (cur_index, 1, next', missing')))"

fun missing_loop ::
    "sequence_range list \<Rightarrow> nat list \<Rightarrow> (nat \<times> int \<times> int \<times> sequence_range list)
      \<Rightarrow> (nat \<times> int \<times> int \<times> sequence_range list) option" where
  "missing_loop rs [] st = Some st"
| "missing_loop rs (i # is) st =
     (case missing_step rs i st of None \<Rightarrow> None | Some st' \<Rightarrow> missing_loop rs is st')"

definition missingSequenceRanges ::
    "sequence_range list \<Rightarrow> int \<Rightarrow> (sequence_range list \<times> int \<times> int) option" where
  "missingSequenceRanges ranges committed =
     (if ranges = [] then Some ([], committed + 1, committed + 1)
      else
        let rs = sort_ranges ranges in
        case missing_loop rs [1..<length rs] (0, 1, committed + 1, []) of
          None \<Rightarrow> None
        | Some (prev_index, n_parts, next_expecting, missing) \<Rightarrow>
            (case collectMissingSequenceRanges rs prev_index (length rs) n_parts (next_expecting, missing) of
               None \<Rightarrow> None
             | Some (next', missing') \<Rightarrow> Some (missing', next', end_sn (last rs) + 1)))"

section \<open>Specification\<close>

text \<open>
  A sequence number is persisted when the part files name a range that holds it and every part
  of that range is there.  \<open>covers\<close> says that a number lies in one of the given ranges.
\<close>

definition has_part :: "sequence_range list \<Rightarrow> int \<Rightarrow> int \<Rightarrow> bool" where
  "has_part rs s i \<longleftrightarrow> list_ex (\<lambda>r. start_sn r = s \<and> part_index r = i) rs"

definition persisted :: "sequence_range list \<Rightarrow> int \<Rightarrow> bool" where
  "persisted rs sn \<longleftrightarrow>
     list_ex (\<lambda>r. start_sn r \<le> sn \<and> sn \<le> end_sn r
       \<and> list_all (has_part rs (start_sn r)) [0..parts r - 1]) rs"

definition covers :: "sequence_range list \<Rightarrow> int \<Rightarrow> bool" where
  "covers ms sn \<longleftrightarrow> list_ex (\<lambda>m. start_sn m \<le> sn \<and> sn \<le> end_sn m) ms"

text \<open>
  What the part directories of one shard look like after a crash: every range lies above the
  committed number, the parts of one range agree on it, different ranges are disjoint, and no
  part is recorded twice.
\<close>

definition wf_ranges :: "sequence_range list \<Rightarrow> int \<Rightarrow> bool" where
  "wf_ranges rs committed \<longleftrightarrow>
     list_all (\<lambda>r. committed < start_sn r \<and> start_sn r \<le> end_sn r
       \<and> 0 \<le> part_index r \<and> part_index r < parts r) rs
     \<and> list_all (\<lambda>a. list_all (\<lambda>b.
          (start_sn a = start_sn b \<longrightarrow> end_sn a = end_sn b \<and> parts a = parts b)
          \<and> (start_sn a < start_sn b \<longrightarrow> end_sn a < start_sn b)) rs) rs
     \<and> distinct (map range_key rs)"

section \<open>Lemmas\<close>

declare collect_parts_until.simps [code]

interpretation range_order: std_sort range_less range_key
  by unfold_locales (auto simp: range_less_def range_key_def less_prod_def)

lemma persisted_iff:
  "persisted rs sn \<longleftrightarrow> (\<exists>r\<in>set rs. start_sn r \<le> sn \<and> sn \<le> end_sn r
     \<and> (\<forall>i. 0 \<le> i \<and> i < parts r \<longrightarrow> has_part rs (start_sn r) i))"
  by (auto simp: persisted_def list_ex_iff list_all_iff)

lemma has_part_iff: "has_part rs s i \<longleftrightarrow> (\<exists>r\<in>set rs. start_sn r = s \<and> part_index r = i)"
  by (auto simp: has_part_def list_ex_iff)

lemma covers_append [simp]: "covers (xs @ ys) sn \<longleftrightarrow> covers xs sn \<or> covers ys sn"
  by (simp add: covers_def)

lemma covers_Nil [simp]: "\<not> covers [] sn"
  by (simp add: covers_def)

lemma covers_single [simp]: "covers [m] sn \<longleftrightarrow> start_sn m \<le> sn \<and> sn \<le> end_sn m"
  by (simp add: covers_def)

lemma covers_iff: "covers ms sn \<longleftrightarrow> (\<exists>m\<in>set ms. start_sn m \<le> sn \<and> sn \<le> end_sn m)"
  by (simp add: covers_def list_ex_iff)

lemma SequenceRange2_sel [simp]:
  "start_sn (SequenceRange2 s e) = s" "end_sn (SequenceRange2 s e) = e"
  "part_index (SequenceRange2 s e) = -1" "parts (SequenceRange2 s e) = -1"
  by (simp_all add: SequenceRange2_def SequenceRange_def)

lemma set_sort_ranges [simp]: "set (sort_ranges rs) = set rs"
  by (simp add: sort_ranges_def)

lemma sort_ranges_Nil_iff [simp]: "sort_ranges rs = [] \<longleftrightarrow> rs = []"
  by (metis set_empty set_sort_ranges)

lemma wf_ranges_iff:
  "wf_ranges rs c \<longleftrightarrow>
     (\<forall>r\<in>set rs. c < start_sn r \<and> start_sn r \<le> end_sn r \<and> 0 \<le> part_index r \<and> part_index r < parts r)
     \<and> (\<forall>a\<in>set rs. \<forall>b\<in>set rs. start_sn a = start_sn b \<longrightarrow> end_sn a = end_sn b \<and> parts a = parts b)
     \<and> (\<forall>a\<in>set rs. \<forall>b\<in>set rs. start_sn a < start_sn b \<longrightarrow> end_sn a < start_sn b)
     \<and> distinct (map range_key rs)"
  unfolding wf_ranges_def list_all_iff by blast

lemma wf_rangesD:
  assumes "wf_ranges rs c" "r \<in> set rs"
  shows "c < start_sn r" "start_sn r \<le> end_sn r" "0 \<le> part_index r" "part_index r < parts r"
  using assms unfolding wf_ranges_iff by blast+

lemma wf_ranges_same:
  assumes "wf_ranges rs c" "a \<in> set rs" "b \<in> set rs" "start_sn a = start_sn b"
  shows "end_sn a = end_sn b" "parts a = parts b"
  using assms unfolding wf_ranges_iff by blast+

lemma wf_ranges_disjoint:
  assumes "wf_ranges rs c" "a \<in> set rs" "b \<in> set rs" "start_sn a < start_sn b"
  shows "end_sn a < start_sn b"
  using assms unfolding wf_ranges_iff by blast

lemma wf_ranges_sort: "wf_ranges rs c \<Longrightarrow> wf_ranges (sort_ranges rs) c"
proof -
  have "distinct (map range_key (sort_ranges rs)) = distinct (map range_key rs)"
    by (rule mset_eq_imp_distinct_iff) (simp add: sort_ranges_def)
  then show "wf_ranges rs c \<Longrightarrow> wf_ranges (sort_ranges rs) c"
    unfolding wf_ranges_iff set_sort_ranges by blast
qed

lemma persisted_set_cong: "set rs = set rs' \<Longrightarrow> persisted rs sn = persisted rs' sn"
  by (simp add: persisted_iff has_part_iff)

subsection \<open>The missing parts of one range\<close>

lemma collect_parts_until_Some:
  "j \<le> b \<Longrightarrow> collect_parts_until r j b ms = Some (ms @ map (\<lambda>k. r\<lparr>part_index := k\<rparr>) [j..b - 1])"
proof (induction "nat (b - j)" arbitrary: j ms)
  case 0
  then show ?case by (simp add: collect_parts_until.simps)
next
  case (Suc n)
  then have "collect_parts_until r (j + 1) b (ms @ [r\<lparr>part_index := j\<rparr>])
      = Some ((ms @ [r\<lparr>part_index := j\<rparr>]) @ map (\<lambda>k. r\<lparr>part_index := k\<rparr>) [j + 1..b - 1])"
    by simp
  moreover have "[j..b - 1] = j # [j + 1..b - 1]"
    using Suc.hyps(2) by (intro upto_Cons) simp
  ultimately show ?case using Suc.hyps(2) by (simp add: collect_parts_until.simps [of r j])
qed

lemma upto_split_filter:
  assumes "k \<le> (q::int)" "q < p" "\<forall>x\<in>A. q < x"
  shows "filter (\<lambda>j. j \<notin> insert q A) [k..p - 1]
    = [k..q - 1] @ filter (\<lambda>j. j \<notin> A) [q + 1..p - 1]"
proof -
  have split: "[k..p - 1] = [k..q - 1] @ q # [q + 1..p - 1]"
    using assms(1,2) by (intro upto_split3) auto
  have "filter (\<lambda>j. j \<notin> insert q A) [k..q - 1] = [k..q - 1]"
    using assms(3) by (auto simp: filter_id_conv)
  moreover have "filter (\<lambda>j. j \<notin> insert q A) [q + 1..p - 1] = filter (\<lambda>j. j \<notin> A) [q + 1..p - 1]"
    by (rule filter_cong) auto
  ultimately show ?thesis by (simp add: split)
qed

lemma collect_parts_loop_Some:
  assumes "sorted_wrt (<) (map part_index gs)" "\<forall>r\<in>set gs. k \<le> part_index r \<and> part_index r < p" "k \<le> p"
  shows "\<exists>k' ms'. collect_parts_loop g gs k ms = Some (k', ms')
    \<and> ms' @ map (\<lambda>j. g\<lparr>part_index := j\<rparr>) [k'..p - 1]
       = ms @ map (\<lambda>j. g\<lparr>part_index := j\<rparr>) (filter (\<lambda>j. j \<notin> part_index ` set gs) [k..p - 1])"
  using assms
proof (induction gs arbitrary: k ms)
  case Nil
  then show ?case by simp
next
  case (Cons r gs)
  let ?q = "part_index r" and ?f = "\<lambda>j. g\<lparr>part_index := j\<rparr>"
  let ?ms = "ms @ map ?f [k..?q - 1]"
  have q: "k \<le> ?q" "?q < p" "\<forall>x\<in>part_index ` set gs. ?q < x"
    using Cons.prems by auto
  have "\<exists>k' ms'. collect_parts_loop g gs (?q + 1) ?ms = Some (k', ms')
     \<and> ms' @ map ?f [k'..p - 1] = ?ms @ map ?f (filter (\<lambda>j. j \<notin> part_index ` set gs) [?q + 1..p - 1])"
    using Cons.prems q by (intro Cons.IH) force+
  moreover have "collect_parts_loop g (r # gs) k ms = collect_parts_loop g gs (?q + 1) ?ms"
    using q by (auto simp: collect_parts_until_Some)
  moreover have "filter (\<lambda>j. j \<notin> part_index ` set (r # gs)) [k..p - 1]
      = [k..?q - 1] @ filter (\<lambda>j. j \<notin> part_index ` set gs) [?q + 1..p - 1]"
    using upto_split_filter [OF q] by simp
  ultimately show ?case by simp
qed

end
