(* ===== verification/Missing_Ranges.thy ===== *)
theory Missing_Ranges
  imports Sequence_Ranges
begin

text \<open>
  Correctness of \<^verbatim>\<open>missingSequenceRanges\<close>: the scan of the sorted ranges is an induction over
  \<^verbatim>\<open>cur_index\<close> whose invariant says that the ranges collected so far cover exactly the numbers
  below the current range that are not persisted.
\<close>

definition missing_hole :: "sequence_range list \<Rightarrow> sequence_range \<Rightarrow> bool" where
  "missing_hole rs m \<longleftrightarrow> part_index m = -1 \<and> parts m = -1 \<and> start_sn m \<le> end_sn m
     \<and> (\<forall>r\<in>set rs. end_sn r < start_sn m \<or> end_sn m < start_sn r)"

definition missing_part :: "sequence_range list \<Rightarrow> sequence_range \<Rightarrow> bool" where
  "missing_part rs m \<longleftrightarrow> (\<exists>r\<in>set rs. \<exists>i. 0 \<le> i \<and> i < parts r
     \<and> \<not> has_part rs (start_sn r) i \<and> m = r\<lparr>part_index := i\<rparr>)"

definition missing_before :: "sequence_range \<Rightarrow> sequence_range \<Rightarrow> bool" where
  "missing_before a b \<longleftrightarrow> end_sn a < start_sn b
     \<or> (start_sn a = start_sn b \<and> end_sn a = end_sn b \<and> parts a = parts b \<and> part_index a < part_index b)"

definition scan_inv :: "sequence_range list \<Rightarrow> int \<Rightarrow> int \<Rightarrow> int \<Rightarrow> sequence_range list \<Rightarrow> bool" where
  "scan_inv rs c b next_sn ms \<longleftrightarrow>
     (\<forall>sn. covers ms sn \<longleftrightarrow> c < sn \<and> sn < b \<and> \<not> persisted rs sn)
     \<and> c < next_sn \<and> next_sn \<le> b
     \<and> (\<forall>sn. c < sn \<and> sn < next_sn \<longrightarrow> persisted rs sn)
     \<and> (next_sn < b \<longrightarrow> \<not> persisted rs next_sn)
     \<and> (\<forall>r\<in>set rs. start_sn r < b \<longrightarrow> (\<forall>i. 0 \<le> i \<and> i < parts r \<longrightarrow>
          (r\<lparr>part_index := i\<rparr> \<in> set ms \<longleftrightarrow> \<not> has_part rs (start_sn r) i)))
     \<and> (\<forall>m\<in>set ms. missing_hole rs m \<or> missing_part rs m)
     \<and> sorted_wrt missing_before ms"

definition scan_ready :: "sequence_range list \<Rightarrow> int \<Rightarrow> nat \<Rightarrow> int \<Rightarrow> sequence_range list \<Rightarrow> bool" where
  "scan_ready rs c prev_index next_sn ms \<longleftrightarrow>
     (if prev_index = 0 then next_sn = c + 1 \<and> ms = []
      else start_sn (rs ! (prev_index - 1)) < start_sn (rs ! prev_index)
        \<and> scan_inv rs c (start_sn (rs ! prev_index)) next_sn ms)"

definition sorted_ranges :: "sequence_range list \<Rightarrow> bool" where
  "sorted_ranges rs \<longleftrightarrow> sorted_wrt (\<lambda>a b. range_key a < range_key b) rs"

text \<open>The elements \<open>p..<q\<close> of the sorted list are all the parts of one range.\<close>

definition run_of :: "sequence_range list \<Rightarrow> nat \<Rightarrow> nat \<Rightarrow> bool" where
  "run_of rs p q \<longleftrightarrow> p < q \<and> q \<le> length rs
     \<and> (\<forall>k. p \<le> k \<and> k < q \<longrightarrow> start_sn (rs ! k) = start_sn (rs ! p))
     \<and> (p > 0 \<longrightarrow> start_sn (rs ! (p - 1)) < start_sn (rs ! p))
     \<and> (q < length rs \<longrightarrow> start_sn (rs ! p) < start_sn (rs ! q))"

definition run_bound :: "sequence_range list \<Rightarrow> nat \<Rightarrow> nat \<Rightarrow> int" where
  "run_bound rs p q = (if q < length rs then start_sn (rs ! q) else end_sn (rs ! p) + 1)"

lemma sort_ranges_sorted: "wf_ranges rs c \<Longrightarrow> sorted_ranges (sort_ranges rs)"
proof -
  assume "wf_ranges rs c"
  then have "distinct (map range_key (sort_ranges rs))"
    using wf_ranges_sort [of rs c] unfolding wf_ranges_def by blast
  moreover have "sorted (map range_key (sort_ranges rs))"
    by (simp add: sort_ranges_def)
  ultimately have "sorted_wrt (<) (map range_key (sort_ranges rs))"
    by (simp add: strict_sorted_iff)
  then show ?thesis by (simp add: sorted_ranges_def sorted_wrt_map)
qed

lemma sorted_ranges_nth:
  assumes "sorted_ranges rs" "i < j" "j < length rs"
  shows "range_key (rs ! i) < range_key (rs ! j)"
  using sorted_wrt_nthD [of "\<lambda>a b. range_key a < range_key b" rs i j] assms
  by (simp add: sorted_ranges_def)

lemma range_key_less:
  "range_key a < range_key b \<longleftrightarrow> start_sn a < start_sn b \<or> start_sn a = start_sn b \<and> part_index a < part_index b"
  by (simp add: range_key_def less_prod_def) linarith

lemma sorted_ranges_start:
  assumes "sorted_ranges rs" "i \<le> j" "j < length rs"
  shows "start_sn (rs ! i) \<le> start_sn (rs ! j)"
proof (cases "i = j")
  case False
  with assms sorted_ranges_nth [of rs i j] show ?thesis by (simp add: range_key_less) linarith
qed simp

subsection \<open>One run of equal starts\<close>

lemma run_ofD:
  assumes "run_of rs p q"
  shows "p < q" "q \<le> length rs"
    and "p > 0 \<Longrightarrow> start_sn (rs ! (p - 1)) < start_sn (rs ! p)"
    and "q < length rs \<Longrightarrow> start_sn (rs ! p) < start_sn (rs ! q)"
    and "p \<le> k \<Longrightarrow> k < q \<Longrightarrow> start_sn (rs ! k) = start_sn (rs ! p)"
  using assms unfolding run_of_def by blast+

lemma run_elems:
  assumes "sorted_ranges rs" "run_of rs p q" "r \<in> set rs"
  shows "start_sn r = start_sn (rs ! p) \<longleftrightarrow> r \<in> set (take (q - p) (drop p rs))"
proof -
  note pq = run_ofD(1,2) [OF assms(2)]
  have mem: "set (take (q - p) (drop p rs)) = (!) rs ` {p..<q}"
    using pq by (intro set_take_drop) auto
  obtain k where k: "k < length rs" "rs ! k = r" using assms(3) by (auto simp: in_set_conv_nth)
  show ?thesis
  proof
    assume eq: "start_sn r = start_sn (rs ! p)"
    have "p \<le> k"
    proof (rule ccontr)
      assume "\<not> p \<le> k"
      then have "k \<le> p - 1" "p > 0" by auto
      then have "start_sn (rs ! k) \<le> start_sn (rs ! (p - 1))"
        using sorted_ranges_start [OF assms(1), of k "p - 1"] pq by simp
      moreover have "start_sn (rs ! (p - 1)) < start_sn (rs ! p)"
        using run_ofD(3) [OF assms(2) \<open>p > 0\<close>] .
      ultimately show False using eq k by simp
    qed
    moreover have "k < q"
    proof (rule ccontr)
      assume "\<not> k < q"
      then have "start_sn (rs ! q) \<le> start_sn (rs ! k)" "q < length rs"
        using sorted_ranges_start [OF assms(1), of q k] k by auto
      moreover have "start_sn (rs ! p) < start_sn (rs ! q)"
        using run_ofD(4) [OF assms(2) \<open>q < length rs\<close>] .
      ultimately show False using eq k by simp
    qed
    ultimately show "r \<in> set (take (q - p) (drop p rs))" using k unfolding mem by force
  next
    assume "r \<in> set (take (q - p) (drop p rs))"
    then obtain j where "r = rs ! j" "p \<le> j" "j < q" unfolding mem by auto
    then show "start_sn r = start_sn (rs ! p)" using run_ofD(5) [OF assms(2), of j] by simp
  qed
qed

lemma run_parts_sorted:
  assumes "sorted_ranges rs" "run_of rs p q"
  shows "sorted_wrt (<) (map part_index (take (q - p) (drop p rs)))"
proof -
  note pq = run_ofD(1,2) [OF assms(2)]
  have "part_index (rs ! i) < part_index (rs ! j)" if "p \<le> i" "i < j" "j < q" for i j
  proof -
    have "range_key (rs ! i) < range_key (rs ! j)"
      using that pq by (intro sorted_ranges_nth [OF assms(1)]) auto
    moreover have "start_sn (rs ! i) = start_sn (rs ! j)"
      using that run_ofD(5) [OF assms(2), of i] run_ofD(5) [OF assms(2), of j] by simp
    ultimately show ?thesis by (simp add: range_key_less)
  qed
  then have "sorted_wrt (\<lambda>i j. part_index (rs ! i) < part_index (rs ! j)) [p..<q]"
    by (auto simp: sorted_wrt_iff_nth_less)
  then show ?thesis using pq by (simp add: take_drop_map_nth sorted_wrt_map)
qed

lemma run_below:
  assumes "sorted_ranges rs" "run_of rs p q" "r \<in> set rs" "start_sn r < run_bound rs p q" "wf_ranges rs c"
  shows "start_sn r \<le> start_sn (rs ! p)"
proof -
  obtain k where k: "k < length rs" "rs ! k = r" using assms(3) by (auto simp: in_set_conv_nth)
  note pq = run_ofD(1,2) [OF assms(2)]
  show ?thesis
  proof (cases "k < q")
    case True
    then show ?thesis
      using sorted_ranges_start [OF assms(1), of k p] run_ofD(5) [OF assms(2), of k] k pq
      by (cases "k \<le> p") auto
  next
    case False
    then have "start_sn (rs ! q) \<le> start_sn r" "q < length rs"
      using sorted_ranges_start [OF assms(1), of q k] k by auto
    then show ?thesis using assms(4) by (simp add: run_bound_def)
  qed
qed

lemma run_first:
  assumes "sorted_ranges rs" "run_of rs 0 q" "r \<in> set rs"
  shows "start_sn (rs ! 0) \<le> start_sn r"
  using assms sorted_ranges_start [OF assms(1), of 0] by (auto simp: in_set_conv_nth)

lemma run_persisted:
  assumes "wf_ranges rs c" "sorted_ranges rs" "run_of rs p q"
    and "start_sn (rs ! p) \<le> sn" "sn \<le> end_sn (rs ! p)"
  shows "persisted rs sn \<longleftrightarrow> (\<forall>i. 0 \<le> i \<and> i < parts (rs ! p) \<longrightarrow> has_part rs (start_sn (rs ! p)) i)"
proof -
  have g: "rs ! p \<in> set rs" using run_ofD(1,2) [OF assms(3)] by simp
  have "start_sn r = start_sn (rs ! p)" if "r \<in> set rs" "start_sn r \<le> sn" "sn \<le> end_sn r" for r
    using that assms(4,5) wf_ranges_disjoint [OF assms(1) that(1) g]
      wf_ranges_disjoint [OF assms(1) g that(1)] by linarith
  then show ?thesis
    unfolding persisted_iff using g assms(4,5) wf_ranges_same(2) [OF assms(1) _ g] by metis
qed

lemma run_gap_not_persisted:
  assumes "wf_ranges rs c" "sorted_ranges rs" "run_of rs p q"
    and "end_sn (rs ! p) < sn" "sn < run_bound rs p q"
  shows "\<not> persisted rs sn"
proof
  assume "persisted rs sn"
  then obtain r where r: "r \<in> set rs" "start_sn r \<le> sn" "sn \<le> end_sn r"
    unfolding persisted_iff by blast
  have g: "rs ! p \<in> set rs" using run_ofD(1,2) [OF assms(3)] by simp
  have "start_sn r \<le> start_sn (rs ! p)"
    using run_below [OF assms(2,3) r(1) _ assms(1)] r(2) assms(5) by simp
  then show False
    using r assms(4) wf_ranges_same(1) [OF assms(1) r(1) g] wf_ranges_disjoint [OF assms(1) r(1) g]
      wf_rangesD(2) [OF assms(1) g] by linarith
qed

lemma first_gap_not_persisted:
  assumes "sorted_ranges rs" "run_of rs 0 q" "sn < start_sn (rs ! 0)"
  shows "\<not> persisted rs sn"
  using assms run_first [OF assms(1,2)] unfolding persisted_iff by force

lemma run_parts_set:
  assumes "sorted_ranges rs" "run_of rs p q"
  shows "part_index ` set (take (q - p) (drop p rs)) = {i. has_part rs (start_sn (rs ! p)) i}"
proof -
  have "set (take (q - p) (drop p rs)) \<subseteq> set rs"
    using set_take_subset set_drop_subset by (metis order_trans)
  then have "set (take (q - p) (drop p rs)) = {r \<in> set rs. start_sn r = start_sn (rs ! p)}"
    using run_elems [OF assms] by auto
  then show ?thesis by (auto simp: has_part_iff)
qed

lemma run_complete:
  assumes "wf_ranges rs c" "sorted_ranges rs" "run_of rs p q"
  shows "parts (rs ! p) = int (q - p)
    \<longleftrightarrow> (\<forall>i. 0 \<le> i \<and> i < parts (rs ! p) \<longrightarrow> has_part rs (start_sn (rs ! p)) i)"
proof -
  let ?g = "rs ! p" and ?A = "{i. has_part rs (start_sn (rs ! p)) i}"
  have g: "?g \<in> set rs" using run_ofD(1,2) [OF assms(3)] by simp
  have pos: "0 < parts ?g" using wf_rangesD(3,4) [OF assms(1) g] by linarith
  have sub: "?A \<subseteq> {0..<parts ?g}"
  proof
    fix i assume "i \<in> ?A"
    then obtain r where r: "r \<in> set rs" "start_sn r = start_sn ?g" "part_index r = i"
      by (auto simp: has_part_iff)
    then show "i \<in> {0..<parts ?g}"
      using wf_rangesD(3,4) [OF assms(1) r(1)] wf_ranges_same(2) [OF assms(1) r(1) g r(2)] by simp
  qed
  have "distinct (map part_index (take (q - p) (drop p rs)))"
    using run_parts_sorted [OF assms(2,3)] strict_sorted_iff by blast
  then have "card ?A = length (take (q - p) (drop p rs))"
    using run_parts_set [OF assms(2,3)] distinct_card by (metis length_map set_map)
  then have card: "card ?A = q - p" using run_ofD(1,2) [OF assms(3)] by simp
  have "(\<forall>i. 0 \<le> i \<and> i < parts ?g \<longrightarrow> has_part rs (start_sn ?g) i) \<longleftrightarrow> ?A = {0..<parts ?g}"
    using sub by auto
  also have "\<dots> \<longleftrightarrow> card ?A = card {0..<parts ?g}"
    by (metis card_subset_eq finite_atLeastLessThan_int sub)
  also have "\<dots> \<longleftrightarrow> parts ?g = int (q - p)" using card pos by simp linarith
  finally show ?thesis by blast
qed

subsection \<open>The three collecting steps\<close>

lemma scan_invD:
  assumes "scan_inv rs c b n ms"
  shows "covers ms sn \<longleftrightarrow> c < sn \<and> sn < b \<and> \<not> persisted rs sn"
    and "c < n" "n \<le> b"
    and "c < sn \<Longrightarrow> sn < n \<Longrightarrow> persisted rs sn"
    and "n < b \<Longrightarrow> \<not> persisted rs n"
    and "r \<in> set rs \<Longrightarrow> start_sn r < b \<Longrightarrow> 0 \<le> i \<Longrightarrow> i < parts r
      \<Longrightarrow> r\<lparr>part_index := i\<rparr> \<in> set ms \<longleftrightarrow> \<not> has_part rs (start_sn r) i"
    and "m \<in> set ms \<Longrightarrow> missing_hole rs m \<or> missing_part rs m"
    and "sorted_wrt missing_before ms"
  using assms unfolding scan_inv_def by blast+

lemma missing_part_le: "wf_ranges rs c \<Longrightarrow> missing_part rs m \<Longrightarrow> start_sn m \<le> end_sn m"
  by (auto simp: missing_part_def dest: wf_rangesD(2))

lemma scan_inv_end:
  assumes "wf_ranges rs c" "scan_inv rs c b n ms" "m \<in> set ms"
  shows "start_sn m \<le> end_sn m" "end_sn m < b"
proof -
  show le: "start_sn m \<le> end_sn m"
    using scan_invD(7) [OF assms(2,3)] missing_part_le [OF assms(1)] by (auto simp: missing_hole_def)
  have "covers ms (end_sn m)" using le assms(3) by (auto simp: covers_iff)
  then show "end_sn m < b" using scan_invD(1) [OF assms(2)] by blast
qed

lemma SequenceRange2_not_part: "0 \<le> i \<Longrightarrow> r\<lparr>part_index := i\<rparr> \<noteq> SequenceRange2 s e"
  by (auto dest: arg_cong [of _ _ part_index])

lemma part_index_update_eq: "r\<lparr>part_index := i\<rparr> = r\<lparr>part_index := j\<rparr> \<longleftrightarrow> i = j"
  by (auto dest: arg_cong [of _ _ part_index])

lemma before_inv:
  assumes "wf_ranges rs c" "sorted_ranges rs" "run_of rs p q" "scan_ready rs c p n ms"
  shows "scan_inv rs c (start_sn (rs ! p)) n (collectMissingSequenceRangeBefore (rs ! p) p n ms)"
proof (cases "p = 0")
  case False
  then show ?thesis
    using assms(4) by (simp add: scan_ready_def collectMissingSequenceRangeBefore_def)
next
  case True
  with assms(4) have n: "n = c + 1" "ms = []" by (simp_all add: scan_ready_def)
  let ?s = "start_sn (rs ! 0)"
  have g: "rs ! 0 \<in> set rs" using run_ofD(1,2) [OF assms(3)] by (intro nth_mem) linarith
  have s: "c < ?s" using wf_rangesD(1) [OF assms(1) g] .
  have below: "\<not> persisted rs sn" if "sn < ?s" for sn
    using first_gap_not_persisted assms(2,3) True that by blast
  have "\<not> start_sn r < ?s" if "r \<in> set rs" for r
    using run_first [OF assms(2) _ that] assms(3) True by force
  moreover have "missing_hole rs (SequenceRange2 (c + 1) (?s - 1))" if "?s \<noteq> c + 1"
    using s that calculation by (force simp: missing_hole_def)
  ultimately show ?thesis
    using n s below True
    by (auto simp: scan_inv_def collectMissingSequenceRangeBefore_def SequenceRange2_not_part)
qed

lemma parts_inv:
  assumes "wf_ranges rs c" "sorted_ranges rs" "run_of rs p q"
    and inv: "scan_inv rs c (start_sn (rs ! p)) n ms"
  defines "gone \<equiv> filter (\<lambda>j. \<not> has_part rs (start_sn (rs ! p)) j) [0..parts (rs ! p) - 1]"
  shows "scan_inv rs c (end_sn (rs ! p) + 1)
     (if gone = [] \<and> start_sn (rs ! p) = n then end_sn (rs ! p) + 1 else n)
     (ms @ map (\<lambda>j. (rs ! p)\<lparr>part_index := j\<rparr>) gone)"
proof -
  let ?g = "rs ! p" and ?ms = "ms @ map (\<lambda>j. (rs ! p)\<lparr>part_index := j\<rparr>) gone"
  let ?n = "if gone = [] \<and> start_sn (rs ! p) = n then end_sn (rs ! p) + 1 else n"
  have g: "?g \<in> set rs" using run_ofD(1,2) [OF assms(3)] by simp
  have se: "start_sn ?g \<le> end_sn ?g" "c < start_sn ?g"
    using wf_rangesD [OF assms(1) g] by auto
  have gone_Nil: "gone = [] \<longleftrightarrow> (\<forall>i. 0 \<le> i \<and> i < parts ?g \<longrightarrow> has_part rs (start_sn ?g) i)"
    by (auto simp: gone_def filter_empty_conv)
  have inside: "persisted rs sn \<longleftrightarrow> gone = []" if "start_sn ?g \<le> sn" "sn \<le> end_sn ?g" for sn
    using run_persisted [OF assms(1-3) that] gone_Nil by simp
  have cov_gone: "covers (map (\<lambda>j. ?g\<lparr>part_index := j\<rparr>) gone) sn
      \<longleftrightarrow> gone \<noteq> [] \<and> start_sn ?g \<le> sn \<and> sn \<le> end_sn ?g" for sn
    by (cases gone) (auto simp: covers_iff)
  have "covers ?ms sn \<longleftrightarrow> c < sn \<and> sn < end_sn ?g + 1 \<and> \<not> persisted rs sn" for sn
    using scan_invD(1) [OF inv, of sn] inside [of sn] se by (auto simp: cov_gone)
  moreover have "c < ?n" "?n \<le> end_sn ?g + 1"
    using scan_invD(2,3) [OF inv] se by auto
  moreover have "persisted rs sn" if "c < sn" "sn < ?n" for sn
    using that scan_invD(4) [OF inv, of sn] inside [of sn]
    by (cases "sn < start_sn ?g") (auto split: if_splits)
  moreover have "\<not> persisted rs ?n" if "?n < end_sn ?g + 1"
    using that scan_invD(3,5) [OF inv] inside [of n]
    by (cases "n < start_sn ?g") (auto split: if_splits)
  moreover have "r\<lparr>part_index := i\<rparr> \<in> set ?ms \<longleftrightarrow> \<not> has_part rs (start_sn r) i"
    if r: "r \<in> set rs" "start_sn r < end_sn ?g + 1" "0 \<le> i" "i < parts r" for r i
  proof (cases "start_sn r = start_sn ?g")
    case True
    then have "r\<lparr>part_index := i\<rparr> = ?g\<lparr>part_index := i\<rparr>"
      using wf_ranges_same [OF assms(1) r(1) g True] by (cases r, cases ?g) simp
    moreover have "r\<lparr>part_index := i\<rparr> \<notin> set ms"
    proof
      assume "r\<lparr>part_index := i\<rparr> \<in> set ms"
      then have "covers ms (start_sn ?g)"
        using True wf_rangesD(2) [OF assms(1) r(1)]
        by (intro covers_iff [THEN iffD2] bexI [of _ "r\<lparr>part_index := i\<rparr>"]) auto
      then show False using scan_invD(1) [OF inv, of "start_sn ?g"] by simp
    qed
    ultimately show ?thesis
      using True r(3,4) wf_ranges_same(2) [OF assms(1) r(1) g True]
      by (auto simp: gone_def part_index_update_eq)
  next
    case False
    have "start_sn r < start_sn ?g"
      using False r(2) wf_ranges_disjoint [OF assms(1) g r(1)] by linarith
    moreover have "r\<lparr>part_index := i\<rparr> \<noteq> ?g\<lparr>part_index := j\<rparr>" for j
      using False by (cases r, cases ?g) auto
    ultimately show ?thesis using scan_invD(6) [OF inv r(1) _ r(3,4)] by auto
  qed
  moreover have "missing_hole rs m \<or> missing_part rs m" if m: "m \<in> set ?ms" for m
  proof (cases "m \<in> set ms")
    case False
    then obtain j where "j \<in> set gone" "m = ?g\<lparr>part_index := j\<rparr>" using m by auto
    then show ?thesis using g unfolding missing_part_def gone_def by auto
  qed (rule scan_invD(7) [OF inv])
  moreover have "sorted_wrt missing_before ?ms"
    using scan_invD(8) [OF inv] scan_inv_end(2) [OF assms(1) inv] se
    by (auto simp: sorted_wrt_append sorted_wrt_map missing_before_def gone_def sorted_wrt_filter sorted_wrt_upto)
  ultimately show ?thesis unfolding scan_inv_def by blast
qed

lemma between_inv:
  assumes "wf_ranges rs c" "sorted_ranges rs" "run_of rs p q"
    and inv: "scan_inv rs c (end_sn (rs ! p) + 1) n ms"
  shows "scan_inv rs c (run_bound rs p q) n (collectMissingSequenceRangeBetween (rs ! p)
     (rs ! (if q = length rs then q - 1 else q)) ms)"
proof (cases "q = length rs")
  case True
  have "start_sn (rs ! (q - 1)) = start_sn (rs ! p)"
    using run_ofD(1) [OF assms(3)] run_ofD(5) [OF assms(3), of "q - 1"] by simp
  then show ?thesis
    using True inv by (simp add: run_bound_def collectMissingSequenceRangeBetween_def)
next
  case False
  then have q: "q < length rs" using run_ofD(2) [OF assms(3)] by simp
  let ?g = "rs ! p" and ?s = "start_sn (rs ! q)"
  have g: "?g \<in> set rs" using run_ofD(1,2) [OF assms(3)] by simp
  have sq: "start_sn ?g < ?s" using run_ofD(4) [OF assms(3) q] .
  have eq: "end_sn ?g < ?s" using wf_ranges_disjoint [OF assms(1) g nth_mem [OF q] sq] .
  have bound: "run_bound rs p q = ?s" using q by (simp add: run_bound_def)
  have gap: "\<not> persisted rs sn" if "end_sn ?g < sn" "sn < ?s" for sn
    using run_gap_not_persisted [OF assms(1-3) that(1)] that(2) bound by simp
  have low: "start_sn r < end_sn ?g + 1" if "r \<in> set rs" "start_sn r < ?s" for r
    using run_below [OF assms(2,3) that(1) _ assms(1)] that(2) bound wf_rangesD(2) [OF assms(1) g]
    by simp
  let ?ms = "collectMissingSequenceRangeBetween ?g (rs ! q) ms"
  have ms: "?ms = (if end_sn ?g + 1 = ?s then ms else ms @ [SequenceRange2 (end_sn ?g + 1) (?s - 1)])"
    using sq by (auto simp: collectMissingSequenceRangeBetween_def)
  have "covers ?ms sn \<longleftrightarrow> c < sn \<and> sn < ?s \<and> \<not> persisted rs sn" for sn
    using scan_invD(1) [OF inv, of sn] gap [of sn] eq wf_rangesD(1,2) [OF assms(1) g]
    by (auto simp: ms)
  moreover have "n \<le> ?s" using scan_invD(3) [OF inv] eq by simp
  moreover have "\<not> persisted rs n" if "n < ?s"
    using that scan_invD(3,5) [OF inv] gap [of n] by linarith
  moreover have "r\<lparr>part_index := i\<rparr> \<in> set ?ms \<longleftrightarrow> \<not> has_part rs (start_sn r) i"
    if "r \<in> set rs" "start_sn r < ?s" "0 \<le> i" "i < parts r" for r i
    using scan_invD(6) [OF inv that(1) low [OF that(1,2)] that(3,4)] that(3)
    by (simp add: ms SequenceRange2_not_part)
  moreover have "missing_hole rs m \<or> missing_part rs m" if m: "m \<in> set ?ms" for m
  proof (cases "m \<in> set ms")
    case False
    then have "m = SequenceRange2 (end_sn ?g + 1) (?s - 1)" "end_sn ?g + 1 \<noteq> ?s"
      using m by (auto simp: ms split: if_splits)
    moreover have "end_sn r < end_sn ?g + 1 \<or> ?s - 1 < start_sn r" if r: "r \<in> set rs" for r
      using low [OF r] wf_ranges_same(1) [OF assms(1) r g] wf_ranges_disjoint [OF assms(1) r g]
        wf_ranges_disjoint [OF assms(1) g r] wf_rangesD(2) [OF assms(1) g] by linarith
    ultimately show ?thesis using eq by (simp add: missing_hole_def)
  qed (rule scan_invD(7) [OF inv])
  moreover have "sorted_wrt missing_before ?ms"
    using scan_invD(8) [OF inv] scan_inv_end(2) [OF assms(1) inv]
    by (auto simp: ms sorted_wrt_append missing_before_def)
  ultimately have "scan_inv rs c ?s n ?ms"
    unfolding scan_inv_def using scan_invD(2,4) [OF inv] by blast
  then show ?thesis using False bound by simp
qed

lemma collect_run:
  assumes "wf_ranges rs c" "sorted_ranges rs" "run_of rs p q" "scan_ready rs c p n ms"
  shows "\<exists>n' ms'. collectMissingSequenceRanges rs p q (int (q - p)) (n, ms) = Some (n', ms')
    \<and> scan_inv rs c (run_bound rs p q) n' ms'"
proof -
  let ?g = "rs ! p" and ?gs = "take (q - p) (drop p rs)" and ?f = "\<lambda>j. (rs ! p)\<lparr>part_index := j\<rparr>"
  let ?ms1 = "collectMissingSequenceRangeBefore ?g p n ms"
  let ?gone = "filter (\<lambda>j. \<not> has_part rs (start_sn ?g) j) [0..parts ?g - 1]"
  have g: "?g \<in> set rs" using run_ofD(1,2) [OF assms(3)] by simp
  have pos: "0 \<le> parts ?g" using wf_rangesD(3,4) [OF assms(1) g] by linarith
  have "\<forall>r\<in>set ?gs. 0 \<le> part_index r \<and> part_index r < parts ?g"
  proof
    fix r assume r: "r \<in> set ?gs"
    then have rs: "r \<in> set rs" by (meson in_set_dropD in_set_takeD)
    then have "start_sn r = start_sn ?g" using run_elems [OF assms(2,3) rs] r by simp
    then show "0 \<le> part_index r \<and> part_index r < parts ?g"
      using wf_rangesD(3,4) [OF assms(1) rs] wf_ranges_same(2) [OF assms(1) rs g] by simp
  qed
  then have parts: "collectMissingPartsSequenceRange rs p q ?ms1 = Some (?ms1 @ map ?f ?gone)"
    using collect_parts_loop_Some [OF run_parts_sorted [OF assms(2,3)], of 0 "parts ?g" ?g ?ms1] pos
      run_parts_set [OF assms(2,3)]
    by (auto simp: collectMissingPartsSequenceRange_def Let_def)
  have full: "?gone = [] \<longleftrightarrow> parts ?g = int (q - p)"
    using run_complete [OF assms(1-3)] by (auto simp: filter_empty_conv)
  let ?n' = "if ?gone = [] \<and> start_sn ?g = n then end_sn ?g + 1 else n"
  have "start_sn ?g = n \<Longrightarrow> ?ms1 = ms"
    unfolding collectMissingSequenceRangeBefore_def by (cases "p = 0") simp_all
  then have "collectMissingSequenceRanges rs p q (int (q - p)) (n, ms) = Some (?n',
      collectMissingSequenceRangeBetween ?g (rs ! (if q = length rs then q - 1 else q)) (?ms1 @ map ?f ?gone))"
    using full parts by (auto simp: collectMissingSequenceRanges_def Let_def)
  moreover have "scan_inv rs c (end_sn ?g + 1) ?n' (?ms1 @ map ?f ?gone)"
    using parts_inv [OF assms(1-3) before_inv [OF assms]] by simp
  ultimately show ?thesis using between_inv [OF assms(1-3)] by blast
qed

subsection \<open>The loop over the ranges\<close>

fun loop_ok :: "sequence_range list \<Rightarrow> int \<Rightarrow> nat \<Rightarrow> nat \<times> int \<times> int \<times> sequence_range list \<Rightarrow> bool" where
  "loop_ok rs c i (prev_index, n_parts, n, ms) \<longleftrightarrow>
     prev_index < i \<and> n_parts = int (i - prev_index)
     \<and> (\<forall>k. prev_index \<le> k \<and> k < i \<longrightarrow> start_sn (rs ! k) = start_sn (rs ! prev_index))
     \<and> scan_ready rs c prev_index n ms"

declare loop_ok.simps [simp del]

lemma loop_okI:
  assumes "p < i" "m = int (i - p)" "scan_ready rs c p n ms"
    and "\<And>k. p \<le> k \<Longrightarrow> k < i \<Longrightarrow> start_sn (rs ! k) = start_sn (rs ! p)"
  shows "loop_ok rs c i (p, m, n, ms)"
  unfolding loop_ok.simps using assms by blast

lemma loop_okD:
  assumes "loop_ok rs c i (p, m, n, ms)"
  shows "p < i" "m = int (i - p)" "scan_ready rs c p n ms"
    and "p \<le> k \<Longrightarrow> k < i \<Longrightarrow> start_sn (rs ! k) = start_sn (rs ! p)"
  using assms unfolding loop_ok.simps by blast+

lemma loop_ok_run:
  assumes "sorted_ranges rs" "loop_ok rs c i (p, m, n, ms)" "i \<le> length rs"
    and "i < length rs \<Longrightarrow> start_sn (rs ! p) \<noteq> start_sn (rs ! i)"
  shows "run_of rs p i"
proof -
  note p = loop_okD(1) [OF assms(2)]
  have "p > 0 \<Longrightarrow> start_sn (rs ! (p - 1)) < start_sn (rs ! p)"
    using loop_okD(3) [OF assms(2)] by (simp add: scan_ready_def split: if_splits)
  moreover have "i < length rs \<Longrightarrow> start_sn (rs ! p) < start_sn (rs ! i)"
    using sorted_ranges_start [OF assms(1), of p i] p assms(4) by force
  ultimately show ?thesis
    unfolding run_of_def using assms(3) loop_okD(1,4) [OF assms(2)] by blast
qed

lemma missing_step_ok:
  assumes "wf_ranges rs c" "sorted_ranges rs" "loop_ok rs c i st" "i < length rs"
  shows "\<exists>st'. missing_step rs i st = Some st' \<and> loop_ok rs c (Suc i) st'"
proof -
  obtain p m n ms where st: "st = (p, m, n, ms)" by (cases st) auto
  have ok: "p < i" "m = int (i - p)" "scan_ready rs c p n ms"
    "\<And>k. p \<le> k \<Longrightarrow> k < i \<Longrightarrow> start_sn (rs ! k) = start_sn (rs ! p)"
    using loop_okD [OF assms(3) [unfolded st]] by blast+
  show ?thesis
  proof (cases "start_sn (rs ! p) = start_sn (rs ! i)")
    case True
    have same: "start_sn (rs ! k) = start_sn (rs ! p)" if "p \<le> k" "k < Suc i" for k
      using that ok(4) [of k] True by (cases "k = i") auto
    have "loop_ok rs c (Suc i) (p, m + 1, n, ms)"
      using ok(1,2,3) by (intro loop_okI same) auto
    then show ?thesis using True st by simp
  next
    case False
    have run: "run_of rs p i"
      using loop_ok_run [OF assms(2) assms(3) [unfolded st]] assms(4) False by simp
    obtain n' ms' where c: "collectMissingSequenceRanges rs p i m (n, ms) = Some (n', ms')"
      "scan_inv rs c (run_bound rs p i) n' ms'"
      using collect_run [OF assms(1,2) run ok(3)] ok(2) by blast
    have "start_sn (rs ! (i - 1)) < start_sn (rs ! i)"
      using ok(1) ok(4) [of "i - 1"] run_ofD(4) [OF run assms(4)] by simp
    then have ready: "scan_ready rs c i n' ms'"
      using c(2) ok(1) assms(4) by (simp add: scan_ready_def run_bound_def)
    have same: "start_sn (rs ! k) = start_sn (rs ! i)" if "i \<le> k" "k < Suc i" for k
      using that by (cases "k = i") auto
    have "loop_ok rs c (Suc i) (i, 1, n', ms')"
      using ready by (intro loop_okI same) auto
    then show ?thesis using False st c(1) by simp
  qed
qed

lemma missing_loop_ok:
  assumes "wf_ranges rs c" "sorted_ranges rs" "loop_ok rs c i st" "i \<le> length rs"
  shows "\<exists>st'. missing_loop rs [i..<length rs] st = Some st' \<and> loop_ok rs c (length rs) st'"
  using assms(3,4)
proof (induction "length rs - i" arbitrary: i st)
  case 0
  then show ?case by simp
next
  case (Suc d)
  then have i: "i < length rs" by simp
  obtain st' where st': "missing_step rs i st = Some st'" "loop_ok rs c (Suc i) st'"
    using missing_step_ok [OF assms(1,2) Suc.prems(1) i] by blast
  have "\<exists>st''. missing_loop rs [Suc i..<length rs] st' = Some st'' \<and> loop_ok rs c (length rs) st''"
    using Suc.hyps(2) i st'(2) by (intro Suc.hyps(1)) auto
  then show ?case using st'(1) i by (simp add: upt_conv_Cons)
qed

lemma missing_scan:
  assumes "wf_ranges ranges c" "ranges \<noteq> []"
  defines "rs \<equiv> sort_ranges ranges"
  shows "\<exists>ms n. missingSequenceRanges ranges c = Some (ms, n, end_sn (last rs) + 1)
    \<and> scan_inv rs c (end_sn (last rs) + 1) n ms"
proof -
  have wf: "wf_ranges rs c" and sorted: "sorted_ranges rs" and ne: "rs \<noteq> []"
    using assms wf_ranges_sort sort_ranges_sorted by auto
  have len: "0 < length rs" using ne by simp
  have "loop_ok rs c 1 (0, 1, c + 1, [])" by (intro loop_okI) (auto simp: scan_ready_def)
  then obtain p m n ms where loop: "missing_loop rs [1..<length rs] (0, 1, c + 1, []) = Some (p, m, n, ms)"
    and ok: "loop_ok rs c (length rs) (p, m, n, ms)"
    using missing_loop_ok [OF wf sorted, of 1] len by (metis Suc_leI One_nat_def prod_cases4)
  have run: "run_of rs p (length rs)" using loop_ok_run [OF sorted ok] by simp
  have m: "m = int (length rs - p)" "scan_ready rs c p n ms"
    using loop_okD(2,3) [OF ok] by blast+
  obtain n' ms' where c: "collectMissingSequenceRanges rs p (length rs) m (n, ms) = Some (n', ms')"
    "scan_inv rs c (run_bound rs p (length rs)) n' ms'"
    using collect_run [OF wf sorted run m(2)] m(1) by blast
  have "start_sn (rs ! (length rs - 1)) = start_sn (rs ! p)"
    using run_ofD(1) [OF run] run_ofD(5) [OF run, of "length rs - 1"] by simp
  then have "end_sn (last rs) = end_sn (rs ! p)"
    using wf_ranges_same(1) [OF wf, of "last rs" "rs ! p"] ne run_ofD(1) [OF run]
    by (simp add: last_conv_nth)
  then show ?thesis
    using assms(2) loop c by (simp add: missingSequenceRanges_def rs_def [symmetric] run_bound_def)
qed

section \<open>What the scan returns\<close>

text \<open>
  \<^verbatim>\<open>std::sort\<close> is free in the order of equal elements, but well-formed ranges have distinct
  keys: every result it may give is the one the model uses.
\<close>

lemma sort_ranges_unique:
  assumes "wf_ranges ranges c" "mset ys = mset ranges" "sorted_wrt (\<lambda>x y. \<not> range_less y x) ys"
  shows "ys = sort_ranges ranges"
  using assms range_order.sort_result_unique [OF assms(2,3)]
  by (simp add: sort_ranges_def wf_ranges_iff distinct_map)

lemma last_range_bound:
  assumes "wf_ranges ranges c" "r \<in> set ranges"
  shows "end_sn r \<le> end_sn (last (sort_ranges ranges))"
proof -
  let ?rs = "sort_ranges ranges"
  have ne: "?rs \<noteq> []" using assms(2) by auto
  then have mem: "last ?rs \<in> set ranges" using last_in_set [of ?rs] by simp
  obtain k where k: "k < length ?rs" "r = ?rs ! k" using assms(2) by (metis in_set_conv_nth set_sort_ranges)
  have "start_sn r \<le> start_sn (last ?rs)"
    using sorted_ranges_start [OF sort_ranges_sorted [OF assms(1)], of k "length ?rs - 1"] k ne
    by (simp add: last_conv_nth)
  then show ?thesis
    using wf_ranges_same(1) [OF assms(1,2) mem] wf_ranges_disjoint [OF assms mem]
      wf_rangesD(2) [OF assms(1) mem] by (cases "start_sn r = start_sn (last ?rs)") auto
qed

lemma scan_result:
  assumes "wf_ranges ranges c"
  shows "\<exists>ms n mx. missingSequenceRanges ranges c = Some (ms, n, mx)
    \<and> scan_inv ranges c mx n ms \<and> (\<forall>r\<in>set ranges. end_sn r < mx)"
proof (cases "ranges = []")
  case True
  then show ?thesis
    by (simp add: missingSequenceRanges_def scan_inv_def persisted_def has_part_def)
next
  case False
  let ?rs = "sort_ranges ranges"
  obtain ms n where r: "missingSequenceRanges ranges c = Some (ms, n, end_sn (last ?rs) + 1)"
    "scan_inv ?rs c (end_sn (last ?rs) + 1) n ms"
    using missing_scan [OF assms False] by blast
  have "scan_inv ranges c (end_sn (last ?rs) + 1) n ms"
    using r(2) unfolding scan_inv_def missing_hole_def missing_part_def persisted_iff has_part_iff set_sort_ranges .
  moreover have "end_sn r < end_sn (last ?rs) + 1" if "r \<in> set ranges" for r
    using last_range_bound [OF assms that] by simp
  ultimately show ?thesis using r(1) by blast
qed

text \<open>
  C7.  The scan of the part directories at startup is exact.  On a well-formed set of ranges it
  terminates; a sequence number lies in one of the reported missing ranges exactly when it is
  above the committed number, below the highest number seen, and some part of its range, or the
  whole range, was not persisted; the next expected number is the first that is not persisted
  (everything between the committed number and it is); and nothing on disk reaches the reported
  upper bound.
\<close>

theorem missing_ranges_exact:
  assumes "wf_ranges ranges c"
  shows "\<exists>ms n mx. missingSequenceRanges ranges c = Some (ms, n, mx)
    \<and> (\<forall>sn. covers ms sn \<longleftrightarrow> c < sn \<and> sn < mx \<and> \<not> persisted ranges sn)
    \<and> c < n \<and> n \<le> mx
    \<and> (\<forall>sn. c < sn \<and> sn < n \<longrightarrow> persisted ranges sn)
    \<and> (n < mx \<longrightarrow> \<not> persisted ranges n)
    \<and> (\<forall>r\<in>set ranges. end_sn r < mx)"
proof -
  obtain ms n mx where r: "missingSequenceRanges ranges c = Some (ms, n, mx)"
    and inv: "scan_inv ranges c mx n ms" and bound: "\<forall>r\<in>set ranges. end_sn r < mx"
    using scan_result [OF assms] by blast
  show ?thesis
    using r bound scan_invD(1,2,3,4,5) [OF inv] by blast
qed

theorem missing_ranges_exact_witness:
  "\<exists>ms n mx. missingSequenceRanges
        [SequenceRange 8 9 0 2, SequenceRange 5 5 0 1, SequenceRange 11 12 0 1] 4 = Some (ms, n, mx)
     \<and> \<not> covers ms 5 \<and> n = 6 \<and> covers ms 6 \<and> covers ms 7 \<and> covers ms 8 \<and> covers ms 10 \<and> \<not> covers ms 11"
proof -
  let ?rs = "[SequenceRange 8 9 0 2, SequenceRange 5 5 0 1, SequenceRange 11 12 0 1]"
  have wf: "wf_ranges ?rs 4" by (simp add: wf_ranges_def SequenceRange_def range_key_def)
  have p: "persisted ?rs 5" "\<not> persisted ?rs 6" "\<not> persisted ?rs 7" "\<not> persisted ?rs 8"
    "\<not> persisted ?rs 10" "persisted ?rs 11"
    by (auto simp: persisted_iff has_part_iff SequenceRange_def intro: exI [of _ "1::int"])
  obtain ms n mx where r: "missingSequenceRanges ?rs 4 = Some (ms, n, mx)"
    and cov: "\<forall>sn. covers ms sn \<longleftrightarrow> 4 < sn \<and> sn < mx \<and> \<not> persisted ?rs sn"
    and n: "4 < n" "n \<le> mx" and below: "\<forall>sn. 4 < sn \<and> sn < n \<longrightarrow> persisted ?rs sn"
    and nxt: "n < mx \<longrightarrow> \<not> persisted ?rs n" and b: "\<forall>r\<in>set ?rs. end_sn r < mx"
    using missing_ranges_exact [OF wf] by blast
  have mx: "12 < mx" using b by (simp add: SequenceRange_def)
  have "n \<le> 6" using below p(2) by force
  moreover have "n \<noteq> 5" using nxt p(1) mx by auto
  ultimately have "n = 6" using n(1) by simp
  then show ?thesis using r cov p mx by simp
qed

text \<open>
  C9.  The scan is exact at the level of parts.  For a range that is on disk with some of its
  parts, the reported ranges hold the part with index \<open>i\<close> of that range exactly when no part
  with that index was persisted, so recovery writes the lost parts of a block and no other.
\<close>

theorem missing_parts_exact:
  assumes "wf_ranges ranges c" "r \<in> set ranges" "0 \<le> i" "i < parts r"
  shows "\<exists>ms n mx. missingSequenceRanges ranges c = Some (ms, n, mx)
    \<and> (r\<lparr>part_index := i\<rparr> \<in> set ms \<longleftrightarrow> \<not> has_part ranges (start_sn r) i)"
proof -
  obtain ms n mx where r: "missingSequenceRanges ranges c = Some (ms, n, mx)"
    and inv: "scan_inv ranges c mx n ms" and bound: "\<forall>r\<in>set ranges. end_sn r < mx"
    using scan_result [OF assms(1)] by blast
  show ?thesis
    using r scan_invD(6) [OF inv assms(2)] assms bound wf_rangesD(2) [OF assms(1,2)] by force
qed

theorem missing_parts_exact_witness:
  "\<exists>ms n mx. missingSequenceRanges [SequenceRange 8 9 0 3, SequenceRange 8 9 2 3] 4 = Some (ms, n, mx)
     \<and> SequenceRange 8 9 1 3 \<in> set ms"
proof -
  let ?rs = "[SequenceRange 8 9 0 3, SequenceRange 8 9 2 3]"
  have wf: "wf_ranges ?rs 4" by (simp add: wf_ranges_def SequenceRange_def range_key_def)
  have h: "\<not> has_part ?rs 8 1" by (simp add: has_part_def SequenceRange_def)
  show ?thesis
    using missing_parts_exact [OF wf, of "SequenceRange 8 9 0 3" 1] h by (simp add: SequenceRange_def)
qed

end
