(* ===== verification/Text_IO.thy ===== *)
theory Text_IO
  imports Daisy_Prelude
begin

text \<open>
  The text primitives the sequence files are read and written with: decimal integers
  (\<^verbatim>\<open>writeIntText\<close> over \<^verbatim>\<open>itoa\<close>, \<^verbatim>\<open>parseIntStrict\<close> over \<^verbatim>\<open>std::from_chars\<close>), \<^verbatim>\<open>assertString\<close>,
  \<^verbatim>\<open>readEscapedString\<close>, and the loop that reads a list of items separated by semicolons.  A read
  buffer is the text that is left; a string position is a \<open>nat\<close>, as in the source.
\<close>

datatype read_error =
    INVALID_CONFIG_PARAMETER
  | INVALID_SETTING_VALUE
  | CANNOT_PARSE_ESCAPE_SEQUENCE
  | CANNOT_READ_ALL_DATA
  | CANNOT_PARSE_INPUT_ASSERTION_FAILED
  | ATTEMPT_TO_READ_AFTER_EOF

type_synonym 'a read = "(read_error, 'a) result"

abbreviation newline :: char where "newline \<equiv> CHR 0x0A"
abbreviation tab :: char where "tab \<equiv> CHR 0x09"
abbreviation backslash :: char where "backslash \<equiv> CHR 0x5C"

section \<open>Integers\<close>

definition digit_char :: "nat \<Rightarrow> char" where
  "digit_char d = char_of (48 + d)"

definition is_digit :: "char \<Rightarrow> bool" where
  "is_digit c \<longleftrightarrow> 48 \<le> (of_char c :: nat) \<and> (of_char c :: nat) \<le> 57"

definition digit_value :: "char \<Rightarrow> int" where
  "digit_value c = int (of_char c) - 48"

fun write_nat :: "nat \<Rightarrow> string" where
  "write_nat n = (if n < 10 then [digit_char n] else write_nat (n div 10) @ [digit_char (n mod 10)])"

declare write_nat.simps [simp del]

definition writeIntText :: "int \<Rightarrow> string" where
  "writeIntText x = (if x < 0 then CHR ''-'' # write_nat (nat (- x)) else write_nat (nat x))"

text \<open>
  \<^verbatim>\<open>std::from_chars\<close> in base ten: an optional minus sign, at least one digit, as many digits as
  there are, and an error when the value does not fit the type.
\<close>

definition digits_value :: "string \<Rightarrow> int" where
  "digits_value ds = foldl (\<lambda>acc c. acc * 10 + digit_value c) 0 ds"

definition from_chars :: "int \<Rightarrow> int \<Rightarrow> string \<Rightarrow> (int \<times> string) option" where
  "from_chars lo hi s =
     (let (neg, t) = (case s of [] \<Rightarrow> (False, s) | c # t \<Rightarrow> if c = CHR ''-'' then (True, t) else (False, s));
          ds = takeWhile is_digit t;
          v = (if neg then - digits_value ds else digits_value ds)
      in if ds = [] \<or> v < lo \<or> hi < v then None else Some (v, dropWhile is_digit t))"

definition parseIntStrict :: "int \<Rightarrow> int \<Rightarrow> string \<Rightarrow> nat \<Rightarrow> nat \<Rightarrow> int read" where
  "parseIntStrict lo hi s lpos rpos =
     (if rpos \<le> lpos \<or> rpos > length s then Inl INVALID_SETTING_VALUE
      else case from_chars lo hi (take (rpos - lpos) (drop lpos s)) of
             None \<Rightarrow> Inl INVALID_SETTING_VALUE
           | Some (n, rest) \<Rightarrow> if rest \<noteq> [] then Inl INVALID_SETTING_VALUE else Inr n)"

abbreviation parseInt64 :: "string \<Rightarrow> nat \<Rightarrow> nat \<Rightarrow> int read" where
  "parseInt64 \<equiv> parseIntStrict (- (2 ^ 63)) (2 ^ 63 - 1)"

abbreviation parseInt32 :: "string \<Rightarrow> nat \<Rightarrow> nat \<Rightarrow> int read" where
  "parseInt32 \<equiv> parseIntStrict (- (2 ^ 31)) (2 ^ 31 - 1)"

text \<open>
  \<^verbatim>\<open>readIntText<Int64>\<close> does not check for overflow: the digits are accumulated in a \<^verbatim>\<open>UInt64\<close> and
  the result is read as signed.
\<close>

fun read_int_loop :: "bool \<Rightarrow> 64 word \<Rightarrow> string \<Rightarrow> bool \<times> 64 word \<times> string" where
  "read_int_loop negative res [] = (negative, res, [])"
| "read_int_loop negative res (c # buf) =
     (if c = CHR ''+'' then read_int_loop negative res buf
      else if c = CHR ''-'' then read_int_loop True res buf
      else if is_digit c then read_int_loop negative (res * 10 + of_int (digit_value c)) buf
      else (negative, res, c # buf))"

definition readIntText :: "string \<Rightarrow> (int \<times> string) read" where
  "readIntText buf =
     (if buf = [] then Inl ATTEMPT_TO_READ_AFTER_EOF
      else let (negative, res, rest) = read_int_loop False 0 buf
           in Inr (sint (if negative then - res else res), rest))"

definition int64 :: "int \<Rightarrow> bool" where "int64 x \<longleftrightarrow> - (2 ^ 63) \<le> x \<and> x \<le> 2 ^ 63 - 1"

definition int32 :: "int \<Rightarrow> bool" where "int32 x \<longleftrightarrow> - (2 ^ 31) \<le> x \<and> x \<le> 2 ^ 31 - 1"

section \<open>Reading text\<close>

fun assertString :: "string \<Rightarrow> string \<Rightarrow> string read" where
  "assertString [] buf = Inr buf"
| "assertString (c # s) [] = Inl CANNOT_PARSE_INPUT_ASSERTION_FAILED"
| "assertString (c # s) (b # buf) =
     (if b \<noteq> c then Inl CANNOT_PARSE_INPUT_ASSERTION_FAILED else assertString s buf)"

definition parseEscapeSequence :: "char \<Rightarrow> char" where
  "parseEscapeSequence c =
     (if c = CHR ''a'' then CHR 0x07 else if c = CHR ''b'' then CHR 0x08
      else if c = CHR ''e'' then CHR 0x1B else if c = CHR ''f'' then CHR 0x0C
      else if c = CHR ''n'' then CHR 0x0A else if c = CHR ''r'' then CHR 0x0D
      else if c = CHR ''t'' then CHR 0x09 else if c = CHR ''v'' then CHR 0x0B
      else if c = CHR ''0'' then CHR 0x00 else c)"

definition unhex :: "char \<Rightarrow> nat" where
  "unhex c =
     (let n = (of_char c :: nat) in
      if 48 \<le> n \<and> n \<le> 57 then n - 48
      else if 65 \<le> n \<and> n \<le> 70 then n - 55
      else if 97 \<le> n \<and> n \<le> 102 then n - 87
      else 255)"

definition unhex2 :: "char \<Rightarrow> char \<Rightarrow> char" where
  "unhex2 a b = char_of ((unhex a * 16 + unhex b) mod 256)"

definition isControlASCII :: "char \<Rightarrow> bool" where
  "isControlASCII c \<longleftrightarrow> (of_char c :: nat) \<le> 31"

text \<open>The cursor is behind the backslash.\<close>

definition parseComplexEscapeSequence :: "string \<Rightarrow> string \<Rightarrow> (string \<times> string) read" where
  "parseComplexEscapeSequence s buf =
     (case buf of
        [] \<Rightarrow> Inl CANNOT_PARSE_ESCAPE_SEQUENCE
      | c # cs \<Rightarrow>
          if c = CHR ''x'' then
            (case cs of
               h1 # h2 # rest \<Rightarrow> Inr (s @ [unhex2 h1 h2], rest)
             | _ \<Rightarrow> Inl CANNOT_READ_ALL_DATA)
          else if c = CHR ''N'' then Inr (s, cs)
          else
            let e = parseEscapeSequence c in
            Inr (s @ (if e \<noteq> backslash \<and> e \<noteq> CHR 0x27 \<and> e \<noteq> CHR 0x22 \<and> e \<noteq> CHR 0x60
                   \<and> e \<noteq> CHR ''/'' \<and> \<not> isControlASCII e then [backslash] else []) @ [e], cs))"

lemma parseComplexEscapeSequence_shorter:
  "parseComplexEscapeSequence s buf = Inr (s', rest) \<Longrightarrow> length rest < length buf"
  by (auto simp: parseComplexEscapeSequence_def Let_def split: list.splits if_splits)

function readEscapedString :: "string \<Rightarrow> string \<Rightarrow> (string \<times> string) read" where
  "readEscapedString s [] = Inr (s, [])"
| "readEscapedString s (c # buf) =
     (if c = tab \<or> c = newline then Inr (s, c # buf)
      else if c = backslash then
        (case parseComplexEscapeSequence s buf of
           Inl e \<Rightarrow> Inl e
         | Inr (s', rest) \<Rightarrow> readEscapedString s' rest)
      else readEscapedString (s @ [c]) buf)"
  by pat_completeness auto
termination
  by (relation "measure (\<lambda>(s, buf). length buf)") (auto dest: parseComplexEscapeSequence_shorter)

section \<open>Lists of items\<close>

definition find_from :: "char \<Rightarrow> string \<Rightarrow> nat \<Rightarrow> nat option" where
  "find_from c s lpos =
     (let t = drop lpos s in if c \<in> set t then Some (lpos + length (takeWhile (\<lambda>x. x \<noteq> c) t)) else None)"

lemma find_from_bounds: "find_from c s l = Some p \<Longrightarrow> l \<le> p \<and> p < length s"
proof -
  assume "find_from c s l = Some p"
  then have c: "c \<in> set (drop l s)" and p: "p = l + length (takeWhile (\<lambda>x. x \<noteq> c) (drop l s))"
    by (auto simp: find_from_def Let_def split: if_splits)
  have "length (takeWhile (\<lambda>x. x \<noteq> c) (drop l s)) < length (drop l s)"
    using c length_takeWhile_le [of _ "drop l s"]
    by (metis (mono_tags, lifting) nat_less_le takeWhile_eq_all_conv takeWhile_eq_take take_all_iff order_refl)
  then show ?thesis using p by auto
qed

function read_items :: "(string \<Rightarrow> nat \<Rightarrow> nat \<Rightarrow> 'a read) \<Rightarrow> string \<Rightarrow> nat \<Rightarrow> 'a list \<Rightarrow> 'a list read" where
  "read_items parse data lpos acc =
     (if lpos < length data then
        (case find_from CHR '';'' data lpos of
           None \<Rightarrow> (case parse data lpos (length data) of Inl e \<Rightarrow> Inl e | Inr x \<Rightarrow> Inr (acc @ [x]))
         | Some pos \<Rightarrow> (case parse data lpos pos of Inl e \<Rightarrow> Inl e
                         | Inr x \<Rightarrow> read_items parse data (pos + 1) (acc @ [x])))
      else Inr acc)"
  by pat_completeness auto
termination
  by (relation "measure (\<lambda>(parse, data, lpos, acc). length data - lpos)")
     (auto dest: find_from_bounds)

declare read_items.simps [simp del]

fun write_items :: "('a \<Rightarrow> string) \<Rightarrow> 'a list \<Rightarrow> string" where
  "write_items enc [] = []"
| "write_items enc [x] = enc x"
| "write_items enc (x # y # xs) = enc x @ CHR '';'' # write_items enc (y # xs)"

section \<open>Lemmas\<close>

subsection \<open>Integers\<close>

lemma of_digit_char: "d < 10 \<Longrightarrow> (of_char (digit_char d) :: nat) = 48 + d"
  by (simp add: digit_char_def)

lemma is_digit_char [simp]: "d < 10 \<Longrightarrow> is_digit (digit_char d)"
  by (simp add: is_digit_def of_digit_char)

lemma digit_value_char [simp]: "d < 10 \<Longrightarrow> digit_value (digit_char d) = int d"
  by (simp add: digit_value_def of_digit_char)

lemma write_nat_digits: "c \<in> set (write_nat n) \<Longrightarrow> is_digit c"
proof (induction n rule: write_nat.induct)
  case (1 n)
  then show ?case by (subst (asm) write_nat.simps) (auto split: if_splits)
qed

lemma write_nat_ne [simp]: "write_nat n \<noteq> []"
  by (subst write_nat.simps) simp

lemma digits_value_write_nat [simp]: "digits_value (write_nat n) = int n"
proof (induction n rule: write_nat.induct)
  case (1 n)
  show ?case
  proof (cases "n < 10")
    case True
    then show ?thesis by (simp add: write_nat.simps [of n] digits_value_def)
  next
    case False
    have "digits_value (write_nat n) = digits_value (write_nat (n div 10)) * 10 + int (n mod 10)"
      using False by (simp add: write_nat.simps [of n] digits_value_def)
    also have "\<dots> = int (n div 10) * 10 + int (n mod 10)" using 1 False by simp
    finally show ?thesis by (simp add: zdiv_int zmod_int)
  qed
qed

text \<open>The characters an integer is written with: no separator of the file format is among them.\<close>

lemma is_digit_not [simp]:
  "\<not> is_digit CHR ''-''" "\<not> is_digit CHR '',''" "\<not> is_digit CHR '';''"
  "\<not> is_digit newline" "\<not> is_digit tab" "\<not> is_digit backslash"
  by (simp_all add: is_digit_def)

lemma writeIntText_chars: "c \<in> set (writeIntText x) \<Longrightarrow> is_digit c \<or> c = CHR ''-''"
  by (auto simp: writeIntText_def dest: write_nat_digits split: if_splits)

lemma writeIntText_ne [simp]: "writeIntText x \<noteq> []"
  by (simp add: writeIntText_def)

lemma from_chars_write:
  assumes "lo \<le> x" "x \<le> hi"
  shows "from_chars lo hi (writeIntText x) = Some (x, [])"
proof -
  have tw: "takeWhile is_digit (write_nat n) = write_nat n" "dropWhile is_digit (write_nat n) = []" for n
    using write_nat_digits [of _ n] by (auto simp: takeWhile_eq_all_conv dropWhile_eq_Nil_conv)
  show ?thesis
  proof (cases "x < 0")
    case True
    then show ?thesis using assms by (simp add: from_chars_def writeIntText_def tw)
  next
    case False
    obtain d ds where d: "write_nat (nat x) = d # ds" by (cases "write_nat (nat x)") auto
    then have "d \<noteq> CHR ''-''" using write_nat_digits [of d "nat x"] by auto
    then show ?thesis
      using False assms tw [of "nat x"] digits_value_write_nat [of "nat x"] d
      by (simp add: from_chars_def writeIntText_def)
  qed
qed

lemma parseIntStrict_write:
  assumes "lo \<le> x" "x \<le> hi"
  shows "parseIntStrict lo hi (writeIntText x @ rest) 0 (length (writeIntText x)) = Inr x"
  using from_chars_write [OF assms] by (simp add: parseIntStrict_def)

lemma parseIntStrict_range:
  "parseIntStrict lo hi s l r = Inr x \<Longrightarrow> lo \<le> x \<and> x \<le> hi"
  by (auto simp: parseIntStrict_def from_chars_def Let_def split: if_splits option.splits prod.splits)

lemma read_int_loop_digits:
  assumes "\<forall>c\<in>set ds. is_digit c"
  shows "read_int_loop negative (of_int a) ds
    = (negative, of_int (foldl (\<lambda>acc c. acc * 10 + digit_value c) a ds), [])"
  using assms
proof (induction ds arbitrary: a)
  case (Cons c ds)
  have "c \<noteq> CHR ''+''" "c \<noteq> CHR ''-''" using Cons.prems by (auto simp: is_digit_def)
  then show ?case
    using Cons.prems Cons.IH [of "a * 10 + digit_value c"] by simp
qed simp

lemma readIntText_write:
  assumes "int64 x"
  shows "readIntText (writeIntText x) = Inr (x, [])"
proof -
  have loop: "read_int_loop negative 0 (write_nat n) = (negative, of_int (int n), [])" for negative n
    using read_int_loop_digits [of "write_nat n" negative 0] write_nat_digits digits_value_write_nat [of n]
    by (simp add: digits_value_def)
  have "sint (of_int x :: 64 word) = x"
    using assms by (simp add: int64_def signed_of_int signed_take_bit_int_eq_self)
  moreover have "read_int_loop False 0 (writeIntText x) = (x < 0, of_int \<bar>x\<bar>, [])"
    using loop [of True "nat (- x)"] loop [of False "nat x"] by (simp add: writeIntText_def)
  ultimately show ?thesis by (simp add: readIntText_def)
qed

subsection \<open>Positions\<close>

lemma find_from_shift: "find_from c (pre @ s) (length pre + l) = map_option ((+) (length pre)) (find_from c s l)"
  by (simp add: find_from_def Let_def)

lemma parseIntStrict_shift:
  "parseIntStrict lo hi (pre @ s) (length pre + l) (length pre + r) = parseIntStrict lo hi s l r"
  by (simp add: parseIntStrict_def)

lemma find_from_first:
  assumes "c \<notin> set u"
  shows "find_from c (u @ c # v) 0 = Some (length u)"
proof -
  have "takeWhile (\<lambda>x. x \<noteq> c) (u @ c # v) = u"
    using assms by (induction u) auto
  then show ?thesis by (simp add: find_from_def)
qed

lemma find_from_none: "c \<notin> set u \<Longrightarrow> find_from c u 0 = None"
  by (simp add: find_from_def)

subsection \<open>Assertions and escapes\<close>

lemma assertString_prefix [simp]: "assertString p (p @ rest) = Inr rest"
  by (induction p) simp_all

lemma assertString_Inr: "assertString p buf = Inr rest \<longleftrightarrow> buf = p @ rest"
  by (induction p buf rule: assertString.induct) auto

definition plain_text :: "string \<Rightarrow> bool" where
  "plain_text s \<longleftrightarrow> list_all (\<lambda>c. c \<noteq> tab \<and> c \<noteq> newline \<and> c \<noteq> backslash) s"

lemma readEscapedString_plain:
  assumes "plain_text s" "rest = [] \<or> hd rest = newline \<or> hd rest = tab"
  shows "readEscapedString acc (s @ rest) = Inr (acc @ s, rest)"
  using assms(1)
proof (induction s arbitrary: acc)
  case Nil
  then show ?case using assms(2) by (cases rest) auto
next
  case (Cons c s)
  then show ?case by (simp add: plain_text_def)
qed

subsection \<open>Codecs of items\<close>

text \<open>
  What the two item formats of the file (a range, an idempotent key) promise: an item that the
  format can carry is written as non-empty text without the separator, is parsed back from its
  own text whatever follows, and the parser only looks at the text from its start position on.
  Under these laws the list loop reads back what the list writer wrote.
\<close>

locale item_codec =
  fixes enc :: "'a \<Rightarrow> string"
    and parse :: "string \<Rightarrow> nat \<Rightarrow> nat \<Rightarrow> 'a read"
    and ok :: "'a \<Rightarrow> bool"
  assumes parse_shift: "parse (pre @ s) (length pre + l) (length pre + r) = parse s l r"
    and enc_no_sep: "ok x \<Longrightarrow> CHR '';'' \<notin> set (enc x)"
    and enc_ne: "ok x \<Longrightarrow> enc x \<noteq> []"
    and parse_enc: "ok x \<Longrightarrow> parse (enc x @ rest) 0 (length (enc x)) = Inr x"
begin

lemma read_items_shift:
  "read_items parse (pre @ s) (length pre + l) acc = read_items parse s l acc"
proof (induction "length s - l" arbitrary: l acc rule: less_induct)
  case less
  have *: "read_items parse (pre @ s) (length pre + (p + 1)) a = read_items parse s (p + 1) a"
    if "find_from CHR '';'' s l = Some p" "l < length s" for p a
    using find_from_bounds [OF that(1)] that(2) by (intro less) auto
  have end_pos: "parse (pre @ s) (length pre + l) (length pre + length s) = parse s l (length s)"
    by (rule parse_shift)
  show ?case
    using * end_pos
    by (subst (1 2) read_items.simps)
       (auto simp: find_from_shift parse_shift add.assoc split: option.splits sum.splits)
qed

lemma read_items_write:
  assumes "list_all ok xs"
  shows "read_items parse (write_items enc xs) 0 acc = Inr (acc @ xs)"
  using assms
proof (induction xs arbitrary: acc rule: induct_list012)
  case 1
  then show ?case by (simp add: read_items.simps)
next
  case (2 x)
  then show ?case
    using parse_enc [of x "[]"] enc_ne [of x] enc_no_sep [of x]
    by (simp add: read_items.simps find_from_none)
next
  case (3 x y xs)
  let ?w = "write_items enc (y # xs)" and ?e = "enc x"
  have "read_items parse (?e @ CHR '';'' # ?w) (length ?e + 1) (acc @ [x])
      = read_items parse ?w 0 (acc @ [x])"
    using read_items_shift [of "?e @ [CHR '';'']" ?w 0 "acc @ [x]"] by simp
  then show ?case
    using 3 parse_enc [of x "CHR '';'' # ?w"] enc_no_sep [of x]
    by (simp add: read_items.simps [of _ "?e @ CHR '';'' # ?w" 0] find_from_first)
qed

end

lemma set_write_items: "c \<in> set (write_items enc xs) \<Longrightarrow> c = CHR '';'' \<or> (\<exists>x\<in>set xs. c \<in> set (enc x))"
  by (induction enc xs rule: write_items.induct) auto

lemma write_items_Nil_iff: "\<forall>x\<in>set xs. enc x \<noteq> [] \<Longrightarrow> write_items enc xs = [] \<longleftrightarrow> xs = []"
  by (induction enc xs rule: write_items.induct) auto

end
