(* ===== verification/Sequence_Text.thy ===== *)
theory Sequence_Text
  imports Text_IO Sequence_Ranges
begin

text \<open>
  The file \<^verbatim>\<open>sn.txt\<close> of a data part (\<^verbatim>\<open>SequenceInfo::write\<close> and \<^verbatim>\<open>SequenceInfo::read\<close> of
  \<^verbatim>\<open>src/src/Storages/MergeTree/SequenceInfo.cpp\<close>): a version line, a line of ranges, and an
  optional line of idempotent keys.
\<close>

section \<open>Writing\<close>

definition range_write :: "sequence_range \<Rightarrow> string" where
  "range_write r = writeIntText (start_sn r) @ '','' @ writeIntText (end_sn r) @ '',''
     @ writeIntText (part_index r) @ '','' @ writeIntText (parts r)"

definition key_write :: "idempotent_key \<Rightarrow> string" where
  "key_write k = writeIntText (fst k) @ '','' @ snd k"

definition info_write :: "sequence_info \<Rightarrow> string" where
  "info_write si =
     (if \<not> info_valid si then []
      else ''1'' @ [newline] @ ''seqs:'' @ write_items range_write (sequence_ranges si)
        @ (case idempotent_keys si of
             None \<Rightarrow> []
           | Some ks \<Rightarrow> [newline] @ ''keys:'' @ write_items key_write ks))"

definition sequenceRangesToString :: "sequence_range list \<Rightarrow> string" where
  "sequenceRangesToString rs = concat (map (\<lambda>r. range_write r @ '';'') rs)"

section \<open>Reading\<close>

definition next_comma :: "string \<Rightarrow> nat \<Rightarrow> nat \<Rightarrow> nat read" where
  "next_comma s lpos rpos =
     (case find_from CHR '','' s lpos of
        None \<Rightarrow> Inl INVALID_CONFIG_PARAMETER
      | Some comma_pos \<Rightarrow> if comma_pos > rpos then Inl INVALID_CONFIG_PARAMETER else Inr comma_pos)"

definition parseSequenceRange :: "string \<Rightarrow> nat \<Rightarrow> nat \<Rightarrow> sequence_range read" where
  "parseSequenceRange s lpos rpos =
     bind_result (next_comma s lpos rpos) (\<lambda>c0.
     bind_result (parseInt64 s lpos c0) (\<lambda>start.
     bind_result (next_comma s (c0 + 1) rpos) (\<lambda>c1.
     bind_result (parseInt64 s (c0 + 1) c1) (\<lambda>en.
     bind_result (next_comma s (c1 + 1) rpos) (\<lambda>c2.
     bind_result (parseInt32 s (c1 + 1) c2) (\<lambda>index.
     bind_result (parseInt32 s (c2 + 1) rpos) (\<lambda>n.
     Inr (SequenceRange start en index n))))))))"

definition readSequenceRanges :: "string \<Rightarrow> (sequence_range list \<times> string) read" where
  "readSequenceRanges buf =
     bind_result (assertString ''seqs:'' buf) (\<lambda>buf1.
     bind_result (readEscapedString [] buf1) (\<lambda>(data, buf2).
     if data = [] then Inr ([], buf2)
     else bind_result (read_items parseSequenceRange data 0 []) (\<lambda>rs. Inr (rs, buf2))))"

definition parseIdempotentKey :: "string \<Rightarrow> nat \<Rightarrow> nat \<Rightarrow> idempotent_key read" where
  "parseIdempotentKey s lpos rpos =
     (case find_from CHR '','' s lpos of
        None \<Rightarrow> Inl INVALID_CONFIG_PARAMETER
      | Some comma_pos \<Rightarrow>
          if comma_pos \<ge> rpos then Inl INVALID_CONFIG_PARAMETER
          else bind_result (parseInt64 s lpos comma_pos) (\<lambda>sn.
                 Inr (sn, take (rpos - comma_pos - 1) (drop (comma_pos + 1) s))))"

definition readIdempotentKeys :: "string \<Rightarrow> (idempotent_key list option \<times> string) read" where
  "readIdempotentKeys buf =
     bind_result (assertString ''keys:'' buf) (\<lambda>buf1.
     bind_result (readEscapedString [] buf1) (\<lambda>(data, buf2).
     if data = [] then Inr (None, buf2)
     else bind_result (read_items parseIdempotentKey data 0 []) (\<lambda>ks. Inr (Some ks, buf2))))"

definition info_read :: "string \<Rightarrow> sequence_info read" where
  "info_read buf =
     bind_result (assertString (''1'' @ [newline]) buf) (\<lambda>buf1.
     bind_result (readSequenceRanges buf1) (\<lambda>(rs, buf2).
     if buf2 = [] then Inr \<lparr>sequence_ranges = rs, idempotent_keys = None\<rparr>
     else
       bind_result (assertString [newline] buf2) (\<lambda>buf3.
       bind_result (readIdempotentKeys buf3) (\<lambda>(ks, buf4).
       Inr \<lparr>sequence_ranges = rs, idempotent_keys = ks\<rparr>))))"

section \<open>What the format can carry\<close>

definition range_storable :: "sequence_range \<Rightarrow> bool" where
  "range_storable r \<longleftrightarrow> int64 (start_sn r) \<and> int64 (end_sn r) \<and> int32 (part_index r) \<and> int32 (parts r)"

definition key_storable :: "idempotent_key \<Rightarrow> bool" where
  "key_storable k \<longleftrightarrow> int64 (fst k) \<and> plain_text (snd k) \<and> CHR '';'' \<notin> set (snd k)"

definition info_storable :: "sequence_info \<Rightarrow> bool" where
  "info_storable si \<longleftrightarrow> list_all range_storable (sequence_ranges si)
     \<and> (case idempotent_keys si of None \<Rightarrow> True | Some ks \<Rightarrow> list_all key_storable ks)"

text \<open>An empty list of keys is written as an empty line and read as no list.\<close>

definition info_norm :: "sequence_info \<Rightarrow> sequence_info" where
  "info_norm si = si\<lparr>idempotent_keys :=
     (case idempotent_keys si of None \<Rightarrow> None | Some ks \<Rightarrow> if ks = [] then None else Some ks)\<rparr>"

section \<open>Lemmas\<close>

lemma next_comma_shift:
  "next_comma (pre @ s) (length pre + l) (length pre + r) = map_sum id ((+) (length pre)) (next_comma s l r)"
  by (simp add: next_comma_def find_from_shift split: option.split)

lemma next_comma_first:
  assumes "CHR '','' \<notin> set u" "length u \<le> r"
  shows "next_comma (u @ CHR '','' # v) 0 r = Inr (length u)"
  using assms by (simp add: next_comma_def find_from_first)

text \<open>The same facts at a position inside the text, for the second and third comma.\<close>

lemma next_comma_at:
  assumes "CHR '','' \<notin> set u" "length pre + length u \<le> r" "l = length pre"
  shows "next_comma (pre @ u @ CHR '','' # v) l r = Inr (length pre + length u)"
proof -
  have "next_comma (pre @ u @ CHR '','' # v) (length pre + 0) (length pre + (r - length pre))
      = Inr (length pre + length u)"
    using assms by (subst next_comma_shift) (simp add: next_comma_first)
  then show ?thesis using assms by simp
qed

lemma parseIntStrict_at:
  assumes "lo \<le> x" "x \<le> hi" "l = length pre" "r = length pre + length (writeIntText x)"
  shows "parseIntStrict lo hi (pre @ writeIntText x @ rest) l r = Inr x"
  using parseIntStrict_shift [of lo hi pre "writeIntText x @ rest" 0] parseIntStrict_write [OF assms(1,2)] assms(3,4)
  by simp

lemma writeIntText_no_comma [simp]: "CHR '','' \<notin> set (writeIntText x)"
  using writeIntText_chars by force

lemma writeIntText_no_semicolon [simp]: "CHR '';'' \<notin> set (writeIntText x)"
  using writeIntText_chars by force

lemma plain_text_append [simp]: "plain_text (s @ t) \<longleftrightarrow> plain_text s \<and> plain_text t"
  by (simp add: plain_text_def)

lemma plain_text_Cons [simp]:
  "plain_text (c # t) \<longleftrightarrow> c \<noteq> tab \<and> c \<noteq> newline \<and> c \<noteq> backslash \<and> plain_text t"
  by (auto simp: plain_text_def)

lemma plain_text_Nil [simp]: "plain_text []"
  by (simp add: plain_text_def)

lemma plain_text_int [simp]: "plain_text (writeIntText x)"
  by (auto simp: plain_text_def list_all_iff dest: writeIntText_chars)

lemma plain_text_items: "\<forall>x\<in>set xs. plain_text (enc x) \<Longrightarrow> plain_text (write_items enc xs)"
  by (induction enc xs rule: write_items.induct) auto

lemma range_parse_write:
  assumes "range_storable r"
  shows "parseSequenceRange (range_write r @ rest) 0 (length (range_write r)) = Inr r"
proof -
  let ?a = "writeIntText (start_sn r)" and ?b = "writeIntText (end_sn r)"
  let ?c = "writeIntText (part_index r)" and ?d = "writeIntText (parts r)"
  let ?s = "range_write r @ rest" and ?n = "length (range_write r)"
  have s1: "?s = [] @ ?a @ CHR '','' # (?b @ '','' @ ?c @ '','' @ ?d @ rest)"
    and s2: "?s = (?a @ '','') @ ?b @ CHR '','' # (?c @ '','' @ ?d @ rest)"
    and s3: "?s = (?a @ '','' @ ?b @ '','') @ ?c @ CHR '','' # (?d @ rest)"
    and s4: "?s = (?a @ '','' @ ?b @ '','' @ ?c @ '','') @ ?d @ rest"
    by (simp_all add: range_write_def)
  let ?p0 = "length ?a" and ?p1 = "length ?a + 1 + length ?b"
  let ?p2 = "length ?a + 1 + length ?b + 1 + length ?c"
  have n: "?n = ?p2 + 1 + length ?d" by (simp add: range_write_def)
  have c0: "next_comma ?s 0 ?n = Inr ?p0" unfolding s1 n by (subst next_comma_at) simp_all
  have c1: "next_comma ?s (?p0 + 1) ?n = Inr ?p1" unfolding s2 n by (subst next_comma_at) simp_all
  have c2: "next_comma ?s (?p1 + 1) ?n = Inr ?p2" unfolding s3 n by (subst next_comma_at) simp_all
  have b: "int64 (start_sn r)" "int64 (end_sn r)" "int32 (part_index r)" "int32 (parts r)"
    using assms by (simp_all add: range_storable_def)
  have i0: "parseInt64 ?s 0 ?p0 = Inr (start_sn r)"
    using b(1) unfolding s1 int64_def by (intro parseIntStrict_at) simp_all
  have i1: "parseInt64 ?s (?p0 + 1) ?p1 = Inr (end_sn r)"
    using b(2) unfolding s2 int64_def by (intro parseIntStrict_at) simp_all
  have i2: "parseInt32 ?s (?p1 + 1) ?p2 = Inr (part_index r)"
    using b(3) unfolding s3 int32_def by (intro parseIntStrict_at) simp_all
  have i3: "parseInt32 ?s (?p2 + 1) ?n = Inr (parts r)"
    using b(4) unfolding s4 n int32_def by (intro parseIntStrict_at) simp_all
  show ?thesis
    unfolding parseSequenceRange_def c0 bind_result_simps i0 c1 i1 c2 i2 i3 by (simp add: SequenceRange_def)
qed

lemma parseSequenceRange_shift:
  "parseSequenceRange (pre @ s) (length pre + l) (length pre + r) = parseSequenceRange s l r"
proof -
  have nc: "next_comma (pre @ s) (length pre + k) (length pre + r) =
      (case next_comma s k r of Inl e \<Rightarrow> Inl e | Inr p \<Rightarrow> Inr (length pre + p))" for k
    by (simp add: next_comma_shift split: sum.split)
  show ?thesis
    unfolding parseSequenceRange_def nc
    by (auto simp: bind_result_def nc parseIntStrict_shift add.assoc
          parseIntStrict_shift [of _ _ pre s "Suc _", simplified] nc [of "Suc _", simplified]
        split: sum.split)
qed

interpretation range_codec: item_codec range_write parseSequenceRange range_storable
proof unfold_locales
  show "parseSequenceRange (pre @ s) (length pre + l) (length pre + r) = parseSequenceRange s l r"
    for pre s l r by (rule parseSequenceRange_shift)
  show "CHR '';'' \<notin> set (range_write r)" for r by (simp add: range_write_def)
  show "range_write r \<noteq> []" for r by (simp add: range_write_def)
  show "range_storable r \<Longrightarrow> parseSequenceRange (range_write r @ rest) 0 (length (range_write r)) = Inr r"
    for r rest by (rule range_parse_write)
qed

lemma key_parse_write:
  assumes "key_storable k"
  shows "parseIdempotentKey (key_write k @ rest) 0 (length (key_write k)) = Inr k"
proof -
  let ?a = "writeIntText (fst k)"
  have "find_from CHR '','' (key_write k @ rest) 0 = Some (length ?a)"
    using find_from_first [of "CHR '',''" ?a "snd k @ rest"] by (simp add: key_write_def)
  moreover have "parseInt64 (key_write k @ rest) 0 (length ?a) = Inr (fst k)"
    using assms parseIntStrict_write [of "- (2 ^ 63)" "fst k" "2 ^ 63 - 1" "'','' @ snd k @ rest"]
    by (simp add: key_write_def key_storable_def int64_def)
  ultimately show ?thesis by (simp add: parseIdempotentKey_def) (simp add: key_write_def)
qed

interpretation key_codec: item_codec key_write parseIdempotentKey key_storable
proof unfold_locales
  show "parseIdempotentKey (pre @ s) (length pre + l) (length pre + r) = parseIdempotentKey s l r"
    for pre s l r
    by (auto simp: parseIdempotentKey_def find_from_shift parseIntStrict_shift bind_result_def
        split: option.split sum.split)
  show "key_storable k \<Longrightarrow> CHR '';'' \<notin> set (key_write k)" for k
    by (simp add: key_write_def key_storable_def)
  show "key_write k \<noteq> []" for k by (simp add: key_write_def)
  show "key_storable k \<Longrightarrow> parseIdempotentKey (key_write k @ rest) 0 (length (key_write k)) = Inr k"
    for k rest by (rule key_parse_write)
qed

section \<open>The file round trip\<close>

lemma readSequenceRanges_write:
  assumes "list_all range_storable rs" "rest = [] \<or> hd rest = newline \<or> hd rest = tab"
  shows "readSequenceRanges (''seqs:'' @ write_items range_write rs @ rest) = Inr (rs, rest)"
proof -
  let ?w = "write_items range_write rs"
  have "plain_text ?w" by (rule plain_text_items) (simp add: range_write_def)
  then have "readEscapedString [] (?w @ rest) = Inr (?w, rest)"
    using readEscapedString_plain [OF _ assms(2), of ?w "[]"] by simp
  moreover have "?w = [] \<longleftrightarrow> rs = []" by (rule write_items_Nil_iff) (simp add: range_write_def)
  moreover have "read_items parseSequenceRange ?w 0 [] = Inr rs"
    using range_codec.read_items_write [OF assms(1), of "[]"] by simp
  ultimately show ?thesis
    using assertString_prefix [of "''seqs:''" "?w @ rest"] by (auto simp: readSequenceRanges_def)
qed

lemma readIdempotentKeys_write:
  assumes "list_all key_storable ks"
  shows "readIdempotentKeys (''keys:'' @ write_items key_write ks) = Inr (if ks = [] then None else Some ks, [])"
proof -
  let ?w = "write_items key_write ks"
  have "plain_text ?w"
    using assms by (intro plain_text_items) (simp add: key_write_def key_storable_def list_all_iff)
  then have "readEscapedString [] ?w = Inr (?w, [])"
    using readEscapedString_plain [of ?w "[]" "[]"] by simp
  moreover have "?w = [] \<longleftrightarrow> ks = []" by (rule write_items_Nil_iff) (simp add: key_write_def)
  moreover have "read_items parseIdempotentKey ?w 0 [] = Inr ks"
    using key_codec.read_items_write [OF assms, of "[]"] by simp
  ultimately show ?thesis
    using assertString_prefix [of "''keys:''" ?w] by (auto simp: readIdempotentKeys_def)
qed

lemma info_roundtrip:
  assumes "info_valid si" "info_storable si"
  shows "info_read (info_write si) = Inr (info_norm si)"
proof -
  let ?rs = "sequence_ranges si"
  have rs: "list_all range_storable ?rs" using assms(2) by (simp add: info_storable_def)
  have version: "assertString (''1'' @ [newline]) ((''1'' @ [newline]) @ t) = Inr t" for t
    by (rule assertString_prefix)
  show ?thesis
  proof (cases "idempotent_keys si")
    case None
    have "info_write si = (''1'' @ [newline]) @ ''seqs:'' @ write_items range_write ?rs @ []"
      using assms(1) None by (simp add: info_write_def)
    then have "info_read (info_write si) = Inr \<lparr>sequence_ranges = ?rs, idempotent_keys = None\<rparr>"
      unfolding info_read_def version
      using readSequenceRanges_write [OF rs, of "[]"] by simp
    then show ?thesis using None by (simp add: info_norm_def)
  next
    case (Some ks)
    then have ks: "list_all key_storable ks" using assms(2) by (simp add: info_storable_def)
    let ?k = "''keys:'' @ write_items key_write ks"
    have "info_write si = (''1'' @ [newline]) @ ''seqs:'' @ write_items range_write ?rs @ [newline] @ ?k"
      using assms(1) Some by (simp add: info_write_def)
    then have "info_read (info_write si)
        = Inr \<lparr>sequence_ranges = ?rs, idempotent_keys = (if ks = [] then None else Some ks)\<rparr>"
      unfolding info_read_def version
      using readSequenceRanges_write [OF rs, of "[newline] @ ?k"] readIdempotentKeys_write [OF ks]
      by simp
    then show ?thesis using Some by (simp add: info_norm_def)
  qed
qed

text \<open>
  C23.  What \<^verbatim>\<open>SequenceInfo::write\<close> puts into \<^verbatim>\<open>sn.txt\<close>, \<^verbatim>\<open>SequenceInfo::read\<close> gives back, for every
  valid sequence information whose numbers fit their types and whose idempotent keys, if there
  are any, contain no semicolon, backslash, tab or newline; only an empty list of keys comes back
  as no list.
\<close>

theorem sequence_info_roundtrip:
  assumes "info_valid si" "info_storable si"
  shows "info_read (info_write si) = Inr (info_norm si)"
  using assms by (rule info_roundtrip)

theorem sequence_info_roundtrip_witness:
  "info_read (info_write \<lparr>sequence_ranges = [SequenceRange 7 9 0 2, SequenceRange 12 12 0 1],
       idempotent_keys = Some [(7, ''k,1''), (12, [])]\<rparr>)
   = Inr \<lparr>sequence_ranges = [SequenceRange 7 9 0 2, SequenceRange 12 12 0 1],
       idempotent_keys = Some [(7, ''k,1''), (12, [])]\<rparr>"
  using sequence_info_roundtrip [of "\<lparr>sequence_ranges = [SequenceRange 7 9 0 2, SequenceRange 12 12 0 1],
       idempotent_keys = Some [(7, ''k,1''), (12, [])]\<rparr>"]
  by (simp add: info_valid_def info_storable_def range_valid_def range_storable_def key_storable_def
        SequenceRange_def int64_def int32_def info_norm_def)

text \<open>
  The conditions on keys are needed: the writer does not escape and the reader splits and
  unescapes.  A part whose idempotent key contains a semicolon is written without complaint and
  its file cannot be read any more; a key with a backslash comes back as another key.
\<close>

theorem sequence_info_key_not_escaped:
  "info_valid \<lparr>sequence_ranges = [SequenceRange 7 9 0 1], idempotent_keys = Some [(7, ''a;b'')]\<rparr>
   \<and> info_read (info_write \<lparr>sequence_ranges = [SequenceRange 7 9 0 1], idempotent_keys = Some [(7, ''a;b'')]\<rparr>)
       = Inl INVALID_CONFIG_PARAMETER
   \<and> info_read (info_write \<lparr>sequence_ranges = [SequenceRange 7 9 0 1],
         idempotent_keys = Some [(7, [CHR ''a'', backslash, CHR ''n''])]\<rparr>)
       = Inr \<lparr>sequence_ranges = [SequenceRange 7 9 0 1], idempotent_keys = Some [(7, [CHR ''a'', newline])]\<rparr>"
  by code_simp

end
