(* ===== verification/Sequence_Merge.thy ===== *)
theory Sequence_Merge
  imports Missing_Ranges
begin

text \<open>
  \<^verbatim>\<open>mergeSequenceInfo\<close> of \<^verbatim>\<open>src/src/Storages/MergeTree/SequenceInfo.cpp\<close>: what a background merge of
  data parts does to the sequence information, and that it cannot change what recovery finds.
\<close>

section \<open>Ranges\<close>

lemma merge_ranges_loop_filter:
  "merge_ranges_loop c merged rs = merged @ filter (\<lambda>r. end_sn r > c) rs"
  by (induction c merged rs rule: merge_ranges_loop.induct) auto

lemma mergeSequenceRanges_filter:
  "mergeSequenceRanges rs c = filter (\<lambda>r. end_sn r > c) (sort_ranges rs)"
  by (simp add: mergeSequenceRanges_def merge_ranges_loop_filter)

lemma filter_sort_ranges: "filter P (sort_ranges rs) = sort_ranges (filter P rs)"
  by (simp add: sort_ranges_def filter_sort)

lemma set_mergeSequenceRanges: "set (mergeSequenceRanges rs c) = {r \<in> set rs. end_sn r > c}"
  by (auto simp: mergeSequenceRanges_filter)

lemma mset_mergeSequenceRanges:
  "mset (mergeSequenceRanges rs c) = filter_mset (\<lambda>r. end_sn r > c) (mset rs)"
  by (simp add: mergeSequenceRanges_filter mset_filter sort_ranges_def)

lemma sort_ranges_cong:
  assumes "mset xs = mset ys" "distinct (map range_key xs)"
  shows "sort_ranges xs = sort_ranges ys"
proof -
  have "mset (sort_ranges xs) = mset ys" using assms(1) by (simp add: sort_ranges_def)
  moreover have "inj_on range_key (set ys)"
    using assms mset_eq_setD [OF assms(1)] by (simp add: distinct_map)
  moreover have "sorted_wrt (\<lambda>x y. \<not> range_less y x) (sort_ranges xs)"
    using range_order.sort_ordered [of xs] by (simp add: sort_ranges_def)
  ultimately show ?thesis
    using range_order.sort_result_unique [of "sort_ranges xs" ys] by (simp add: sort_ranges_def)
qed

text \<open>
  Merging twice with a growing committed number is merging once with the last one, whatever
  other ranges come in between.
\<close>

lemma merge_twice:
  assumes "c0 \<le> c" "distinct (map range_key (xs @ ys))"
  shows "mergeSequenceRanges (mergeSequenceRanges xs c0 @ ys) c = mergeSequenceRanges (xs @ ys) c"
proof -
  let ?P = "\<lambda>r. end_sn r > c"
  have "mset (filter ?P (mergeSequenceRanges xs c0 @ ys)) = mset (filter ?P (xs @ ys))"
    using assms(1) by (auto simp: mset_mergeSequenceRanges mset_filter filter_filter_mset
        intro: filter_mset_cong)
  moreover have "distinct (map range_key (filter ?P (xs @ ys)))"
    using assms(2) by (rule distinct_map_filter)
  ultimately show ?thesis
    using sort_ranges_cong [of "filter ?P (xs @ ys)" "filter ?P (mergeSequenceRanges xs c0 @ ys)"]
    by (simp add: mergeSequenceRanges_filter filter_sort_ranges)
qed

end
