(* ===== verification/MergeTree_SN.thy ===== *)
theory MergeTree_SN
  imports Sequence_Merge Sequence_Text
begin

text \<open>
  The sequence numbers of a local table: \<^verbatim>\<open>src/src/Storages/StorageMergeTree.cpp\<close>
  (\<^verbatim>\<open>locateSNFile\<close>, \<^verbatim>\<open>loadSN\<close>, \<^verbatim>\<open>commitSN\<close>, \<^verbatim>\<open>populateCommittedSNFromParts\<close>), the disk operations
  they use (\<^verbatim>\<open>src/src/Disks/DiskLocal.cpp\<close>), the part writer of
  \<^verbatim>\<open>MergeTree/MergeTreeBlockOutputStream.cpp\<close>, the merge of the sequence information of parts
  (\<^verbatim>\<open>MergeTreeDataMergerMutator.cpp\<close>), and loading it (\<^verbatim>\<open>IMergeTreeDataPart.cpp\<close>).

  A disk is a map from paths to contents.  A table writes \<^verbatim>\<open>committed_sn.txt\<close> by a sequence of
  system calls; a crash leaves the disk as it is after some of them, and a write that was in
  progress leaves a prefix of its data.
\<close>

section \<open>Disks\<close>

type_synonym disk = "string \<rightharpoonup> string"

datatype disk_op =
    Unlink string
  | WriteFile string string
  | Rename string string

fun apply_op :: "disk \<Rightarrow> disk_op \<Rightarrow> disk" where
  "apply_op fs (Unlink p) = fs(p := None)"
| "apply_op fs (WriteFile p c) = fs(p \<mapsto> c)"
| "apply_op fs (Rename a b) = (case fs a of None \<Rightarrow> fs | Some c \<Rightarrow> fs(b \<mapsto> c, a := None))"

definition removeFileIfExists :: "string \<Rightarrow> disk_op list" where
  "removeFileIfExists p = [Unlink p]"

definition replaceFile :: "disk \<Rightarrow> string \<Rightarrow> string \<Rightarrow> disk_op list" where
  "replaceFile fs from to =
     (if fs to \<noteq> None then [Rename to (to @ ''.old''), Rename from to, Unlink (to @ ''.old'')]
      else [Rename from to])"

fun torn :: "disk \<Rightarrow> disk_op \<Rightarrow> disk list" where
  "torn fs (WriteFile p c) = map (\<lambda>n. fs(p \<mapsto> take n c)) [0..<length c]"
| "torn fs _ = []"

fun crash_states :: "disk \<Rightarrow> disk_op list \<Rightarrow> disk list" where
  "crash_states fs [] = [fs]"
| "crash_states fs (op # ops) = fs # torn fs op @ crash_states (apply_op fs op) ops"

section \<open>The table\<close>

datatype storage_error = CORRUPTED_DATA | Read read_error

record merge_tree =
  committed_sn :: int
  max_committed_sn :: int
  missing_sequence_ranges :: "sequence_range list"
  last_idempotent_keys :: "string list"
  sn_file :: "string \<times> nat"

definition merge_tree_init :: merge_tree where
  "merge_tree_init = \<lparr>committed_sn = -1, max_committed_sn = -1, missing_sequence_ranges = [],
     last_idempotent_keys = [], sn_file = ([], 0)\<rparr>"

abbreviation COMMITTED_SN_FILE_NAME :: string where
  "COMMITTED_SN_FILE_NAME \<equiv> ''committed_sn.txt''"

definition loadSN :: "disk \<Rightarrow> string \<Rightarrow> int read" where
  "loadSN fs file =
     (case fs file of
        None \<Rightarrow> Inr (-1)
      | Some buf \<Rightarrow>
          bind_result (assertString (''1'' @ [newline]) buf) (\<lambda>buf'.
          bind_result (readIntText buf') (\<lambda>(sn, _). Inr sn)))"

fun locate_loop ::
    "(nat \<Rightarrow> disk) \<Rightarrow> (string \<times> nat) list \<Rightarrow> string \<times> nat \<Rightarrow> storage_error + string \<times> nat" where
  "locate_loop disks [] found = Inr found"
| "locate_loop disks ((path, d) # rest) found =
     (let p = path @ COMMITTED_SN_FILE_NAME in
      if disks d p \<noteq> None then
        (if fst found \<noteq> [] then Inl CORRUPTED_DATA else locate_loop disks rest (p, d))
      else locate_loop disks rest found)"

definition locateSNFile ::
    "(nat \<Rightarrow> disk) \<Rightarrow> (string \<times> nat) list \<Rightarrow> string \<Rightarrow> nat \<Rightarrow> merge_tree \<Rightarrow> storage_error + merge_tree" where
  "locateSNFile disks paths relative_data_path any_disk st =
     (case locate_loop disks paths (sn_file st) of
        Inl e \<Rightarrow> Inl e
      | Inr found \<Rightarrow>
          let f = (if fst found = [] then (relative_data_path @ COMMITTED_SN_FILE_NAME, any_disk) else found)
          in case loadSN (disks (snd f)) (fst f) of
               Inl e \<Rightarrow> Inl (Read e)
             | Inr sn \<Rightarrow> Inr (st\<lparr>sn_file := f, committed_sn := sn\<rparr>))"

definition commitSN_ops :: "disk \<Rightarrow> string \<Rightarrow> int \<Rightarrow> disk_op list" where
  "commitSN_ops fs file sn =
     (let tmpfile = file @ ''.tmp'' in
      removeFileIfExists tmpfile
      @ [WriteFile tmpfile (''1'' @ [newline] @ writeIntText sn)]
      @ replaceFile fs tmpfile file)"

definition commitSN :: "disk \<Rightarrow> int \<Rightarrow> merge_tree \<Rightarrow> disk \<times> merge_tree" where
  "commitSN fs sn st =
     (foldl apply_op fs (commitSN_ops fs (fst (sn_file st)) sn), st\<lparr>committed_sn := sn\<rparr>)"

text \<open>\<^verbatim>\<open>std::map<Int64, ...>\<close> is an association list with ascending keys; the first entry of a
  number stays.\<close>

fun map_insert_absent :: "int \<Rightarrow> string \<Rightarrow> (int \<times> string) list \<Rightarrow> (int \<times> string) list" where
  "map_insert_absent k v [] = [(k, v)]"
| "map_insert_absent k v ((k', v') # m) =
     (if k < k' then (k, v) # (k', v') # m
      else if k = k' then (k', v') # m
      else (k', v') # map_insert_absent k v m)"

definition part_ranges :: "sequence_info option list \<Rightarrow> sequence_range list" where
  "part_ranges data_parts = concat (map (\<lambda>p. case p of None \<Rightarrow> [] | Some si \<Rightarrow> sequence_ranges si) data_parts)"

definition part_keys :: "sequence_info option list \<Rightarrow> idempotent_key list" where
  "part_keys data_parts = concat (map (\<lambda>p. case p of None \<Rightarrow> []
     | Some si \<Rightarrow> (case idempotent_keys si of None \<Rightarrow> [] | Some ks \<Rightarrow> ks)) data_parts)"

definition populateCommittedSNFromParts ::
    "sequence_info option list \<Rightarrow> nat \<Rightarrow> merge_tree \<Rightarrow> merge_tree option" where
  "populateCommittedSNFromParts data_parts max_keys st =
     (let committed = committed_sn st;
          ranges = filter (\<lambda>r. end_sn r > committed) (part_ranges data_parts);
          keys = fold (\<lambda>(k, v) m. map_insert_absent k v m) (part_keys data_parts) []
      in case missingSequenceRanges ranges committed of
           None \<Rightarrow> None
         | Some (missing, next_expecting, max_expecting) \<Rightarrow>
             Some (st\<lparr>committed_sn := (if next_expecting \<noteq> committed + 1 then next_expecting - 1 else committed),
                      max_committed_sn := max_expecting - 1,
                      missing_sequence_ranges := missing,
                      last_idempotent_keys := last_idempotent_keys st @
                        map snd (if length keys > max_keys then drop (length keys - max_keys) keys else keys)\<rparr>))"

section \<open>Parts\<close>

text \<open>
  The writer of a block that was split into \<open>parts\<close> part blocks.  The split and the writing of
  the column data belong to ClickHouse: a part block is an abstract \<open>'b\<close>, and \<open>written\<close> tells
  whether \<^verbatim>\<open>writeTempPart\<close> produced a part (with \<^verbatim>\<open>optimize_on_insert\<close> a block can become empty).
  The result is the list of the new parts with their sequence information.
\<close>

definition ignorePartBlock :: "sequence_range list \<Rightarrow> int \<Rightarrow> int \<Rightarrow> bool" where
  "ignorePartBlock missing n_parts index =
     (if missing = [] then False
      else if n_parts \<noteq> parts (last missing) then False
      else \<not> list_ex (\<lambda>r. part_index r = index) missing)"

fun write_part_blocks ::
    "('b \<Rightarrow> bool) \<Rightarrow> sequence_range list \<Rightarrow> sequence_info option \<Rightarrow> int \<Rightarrow> int \<Rightarrow> 'b list
      \<Rightarrow> ('b \<times> sequence_info option) list option" where
  "write_part_blocks written missing seq_info n_parts index [] = Some []"
| "write_part_blocks written missing seq_info n_parts index (b # bs) =
     (if ignorePartBlock missing n_parts index
      then write_part_blocks written missing seq_info n_parts (index + 1) bs
      else
        case (case seq_info of None \<Rightarrow> Some None
              | Some si \<Rightarrow> map_option Some (shallowClone si index n_parts)) of
          None \<Rightarrow> None
        | Some part_seq \<Rightarrow>
            map_option (\<lambda>ps. if written b then (b, part_seq) # ps else ps)
              (write_part_blocks written missing seq_info n_parts (index + 1) bs))"

definition block_write ::
    "('b \<Rightarrow> bool) \<Rightarrow> sequence_range list \<Rightarrow> sequence_info option \<Rightarrow> 'b list
      \<Rightarrow> ('b \<times> sequence_info option) list option" where
  "block_write written missing seq_info part_blocks =
     write_part_blocks written missing seq_info (int (length part_blocks)) 0 part_blocks"

text \<open>A part's file is written only for valid information, and a part without the file has none.\<close>

definition finalize_part_sn :: "sequence_info option \<Rightarrow> string option" where
  "finalize_part_sn seq_info =
     (case seq_info of None \<Rightarrow> None | Some si \<Rightarrow> if info_valid si then Some (info_write si) else None)"

definition loadSequenceInfo :: "string option \<Rightarrow> sequence_info option read" where
  "loadSequenceInfo file =
     (case file of None \<Rightarrow> Inr None | Some buf \<Rightarrow> bind_result (info_read buf) (\<lambda>si. Inr (Some si)))"

definition mergeSequenceInfo_parts :: "sequence_info option list \<Rightarrow> int \<Rightarrow> nat \<Rightarrow> sequence_info option" where
  "mergeSequenceInfo_parts data_parts committed max_keys =
     mergeSequenceInfo
       (concat (map (\<lambda>p. case p of None \<Rightarrow> []
          | Some si \<Rightarrow> if sequence_ranges si \<noteq> []
              \<or> (case idempotent_keys si of None \<Rightarrow> False | Some ks \<Rightarrow> ks \<noteq> []) then [si] else []) data_parts))
       committed max_keys"

section \<open>Committing\<close>

lemma commitSN_text_loads:
  "int64 sn \<Longrightarrow> fs f = Some (''1'' @ [newline] @ writeIntText sn) \<Longrightarrow> loadSN fs f = Inr sn"
  using assertString_prefix [of "''1'' @ [newline]" "writeIntText sn"] by (simp add: loadSN_def readIntText_write)

text \<open>
  C25.  Committing a sequence number and a crash.  While \<^verbatim>\<open>commitSN\<close> replaces the number \<open>v\<close> by \<open>sn\<close>,
  a crash at any system call, or in the middle of the write, leaves a disk from which \<^verbatim>\<open>loadSN\<close>
  reads the old number or the new one, except in one window: \<^verbatim>\<open>DiskLocal::replaceFile\<close> moves the
  old file away before it moves the new one in, and a crash between the two leaves no
  \<^verbatim>\<open>committed_sn.txt\<close>, so that \<^verbatim>\<open>loadSN\<close> answers -1 although both numbers are on disk under other
  names.  When all calls are done the new number is read.
\<close>

theorem commitSN_crash:
  assumes "int64 v" "int64 sn" "fs f = Some (''1'' @ [newline] @ writeIntText v)"
  shows "(\<forall>fs'\<in>set (crash_states fs (commitSN_ops fs f sn)).
      loadSN fs' f = Inr v \<or> loadSN fs' f = Inr sn
      \<or> (loadSN fs' f = Inr (-1) \<and> fs' f = None \<and> fs' (f @ ''.old'') = fs f
          \<and> fs' (f @ ''.tmp'') = Some (''1'' @ [newline] @ writeIntText sn)))
    \<and> (\<exists>fs'\<in>set (crash_states fs (commitSN_ops fs f sn)). fs' f = None)
    \<and> loadSN (fst (commitSN fs sn (st\<lparr>sn_file := (f, d)\<rparr>))) f = Inr sn"
proof -
  let ?t = "f @ ''.tmp''" and ?o = "f @ ''.old''" and ?new = "''1'' @ [newline] @ writeIntText sn"
  have ne: "?t \<noteq> f" "?o \<noteq> f" "?t \<noteq> ?o" "f \<noteq> ?t" "f \<noteq> ?o" "?o \<noteq> ?t" by auto
  have ops: "commitSN_ops fs f sn
      = [Unlink ?t, WriteFile ?t ?new, Rename f ?o, Rename ?t f, Unlink ?o]"
    using assms(3) by (simp add: commitSN_ops_def removeFileIfExists_def replaceFile_def Let_def)
  have old: "loadSN fs' f = Inr v" if "fs' f = fs f" for fs'
    using commitSN_text_loads [OF assms(1), of fs' f] that assms(3) by simp
  have new: "loadSN fs' f = Inr sn" if "fs' f = Some ?new" for fs'
    using commitSN_text_loads [OF assms(2), of fs' f] that by simp
  have gone: "loadSN fs' f = Inr (-1)" if "fs' f = None" for fs'
    using that by (simp add: loadSN_def)
  show ?thesis
    unfolding ops commitSN_def using ne assms(3) old new gone by (simp add: ops ball_Un)
qed

theorem commitSN_crash_witness:
  "loadSN (fst (commitSN [''committed_sn.txt'' \<mapsto> ''1'' @ [newline] @ writeIntText 41] 57
       (merge_tree_init\<lparr>sn_file := (''committed_sn.txt'', 0)\<rparr>))) ''committed_sn.txt'' = Inr 57"
  using commitSN_crash [of 41 57 "[''committed_sn.txt'' \<mapsto> ''1'' @ [newline] @ writeIntText 41]"
      "''committed_sn.txt''" 0 merge_tree_init]
  by (simp add: int64_def)

section \<open>Top keys\<close>

text \<open>The newest \<open>n\<close> keys of a set, in ascending order.\<close>

definition top_keys :: "nat \<Rightarrow> idempotent_key set \<Rightarrow> idempotent_key list" where
  "top_keys n S = drop (card S - n) (sorted_list_of_set S)"

definition functional_keys :: "idempotent_key list \<Rightarrow> bool" where
  "functional_keys ks \<longleftrightarrow> list_all (\<lambda>a. list_all (\<lambda>b. fst a = fst b \<longrightarrow> snd a = snd b) ks) ks"

lemma functional_keysD:
  "functional_keys ks \<Longrightarrow> (k, v) \<in> set ks \<Longrightarrow> (k, w) \<in> set ks \<Longrightarrow> v = w"
  by (fastforce simp: functional_keys_def list_all_iff)

lemma sorted_list_above:
  assumes "sorted_wrt (<) (xs :: 'a :: linorder list)" "i < length xs"
  shows "{y \<in> set xs. xs ! i < y} = set (drop (Suc i) xs)"
proof -
  have "xs = take i xs @ xs ! i # drop (Suc i) xs" using assms(2) by (simp add: id_take_nth_drop)
  then have "sorted_wrt (<) (take i xs @ xs ! i # drop (Suc i) xs)" using assms(1) by simp
  then have s: "\<forall>y\<in>set (take i xs). y < xs ! i" "\<forall>y\<in>set (drop (Suc i) xs). xs ! i < y"
    by (simp_all add: sorted_wrt_append)
  have "set xs = set (take i xs) \<union> {xs ! i} \<union> set (drop (Suc i) xs)"
    using arg_cong [OF \<open>xs = take i xs @ xs ! i # drop (Suc i) xs\<close>, of set] by simp
  then show ?thesis using s by auto
qed

lemma set_top_keys:
  assumes "finite S"
  shows "set (top_keys n S) = {x \<in> S. card {y \<in> S. x < y} < n}"
proof -
  let ?xs = "sorted_list_of_set S"
  have xs: "sorted_wrt (<) ?xs" "set ?xs = S" "length ?xs = card S"
    using assms by (simp_all add: strict_sorted_list_of_set)
  have card: "card {y \<in> S. ?xs ! i < y} = card S - Suc i" if "i < card S" for i
    using sorted_list_above [OF xs(1), of i] that xs distinct_card [of "drop (Suc i) ?xs"] by simp
  show ?thesis
  proof (intro set_eqI iffI)
    fix x assume "x \<in> set (top_keys n S)"
    then obtain i where i: "i < card S - (card S - n)" "x = ?xs ! (card S - n + i)"
      using xs(3) by (auto simp: top_keys_def in_set_conv_nth)
    have lt: "card S - n + i < card S" using i(1) by linarith
    then have c: "card {y \<in> S. x < y} = card S - Suc (card S - n + i)" using card i(2) by blast
    have "x \<in> S" using lt i(2) xs(2,3) nth_mem by metis
    moreover have "card {y \<in> S. x < y} < n" unfolding c using i(1) by linarith
    ultimately show "x \<in> {x \<in> S. card {y \<in> S. x < y} < n}" by blast
  next
    fix x assume "x \<in> {x \<in> S. card {y \<in> S. x < y} < n}"
    then have x: "x \<in> set ?xs" "card {y \<in> S. x < y} < n" unfolding xs(2) by simp_all
    from x(1) obtain i where i: "i < card S" "x = ?xs ! i" unfolding in_set_conv_nth xs(3) by blast
    have "card S - Suc i < n" using x(2) unfolding i(2) card [OF i(1)] .
    then have le: "card S - n \<le> i" by linarith
    have "x = drop (card S - n) ?xs ! (i - (card S - n))" using le i xs(3) by simp
    moreover have "i - (card S - n) < length (drop (card S - n) ?xs)"
      unfolding length_drop xs(3) using le i(1) by linarith
    ultimately show "x \<in> set (top_keys n S)" by (metis nth_mem top_keys_def)
  qed
qed

lemma top_keys_sorted:
  assumes "finite S"
  shows "top_keys n S = sorted_list_of_set (set (top_keys n S))"
proof -
  have "sorted_wrt (<) (top_keys n S)"
    using assms sorted_wrt_drop strict_sorted_list_of_set unfolding top_keys_def by blast
  then show ?thesis by (simp add: sorted_list_of_set.idem_if_sorted_distinct strict_sorted_iff)
qed

lemma card_top_keys: "finite S \<Longrightarrow> card (set (top_keys n S)) = min n (card S)"
proof -
  assume "finite S"
  have "distinct (top_keys n S)" by (simp add: top_keys_def)
  then have "card (set (top_keys n S)) = length (top_keys n S)" by (rule distinct_card)
  then show ?thesis by (simp add: top_keys_def min_def)
qed

lemma top_keys_Un:
  assumes "finite A" "finite B"
  shows "top_keys n (set (top_keys n A) \<union> B) = top_keys n (A \<union> B)"
proof -
  let ?T = "set (top_keys n A)"
  have TA: "?T \<subseteq> A" "finite ?T" using assms(1) by (auto simp: set_top_keys)
  have above: "card {y \<in> A. x < y} < n \<Longrightarrow> {y \<in> A. x < y} \<subseteq> ?T" for x
  proof
    fix y assume n: "card {y \<in> A. x < y} < n" and y: "y \<in> {y \<in> A. x < y}"
    have "card {z \<in> A. y < z} \<le> card {z \<in> A. x < z}"
      using y assms(1) by (intro card_mono) auto
    then show "y \<in> ?T" using n y assms(1) by (simp add: set_top_keys)
  qed
  have many: "n \<le> card {y \<in> ?T. x < y}" if "n \<le> card {y \<in> A. x < y}" for x
  proof -
    have "x < t" if "t \<in> ?T" for t
    proof (rule ccontr)
      assume "\<not> x < t"
      then have "card {y \<in> A. x < y} \<le> card {y \<in> A. t < y}" using assms(1) by (intro card_mono) auto
      then show False using \<open>t \<in> ?T\<close> \<open>n \<le> card {y \<in> A. x < y}\<close> assms(1) by (simp add: set_top_keys)
    qed
    then have "{y \<in> ?T. x < y} = ?T" by blast
    moreover have "n \<le> card A" using that card_mono [OF assms(1), of "{y \<in> A. x < y}"] by auto
    ultimately show ?thesis using card_top_keys [OF assms(1)] by simp
  qed
  have "x \<in> ?T \<union> B \<and> card {y \<in> ?T \<union> B. x < y} < n \<longleftrightarrow> x \<in> A \<union> B \<and> card {y \<in> A \<union> B. x < y} < n" for x
  proof (cases "card {y \<in> A. x < y} < n")
    case True
    have "{y \<in> ?T \<union> B. x < y} = {y \<in> A \<union> B. x < y}" using above [OF True] TA by blast
    moreover have "x \<in> A \<Longrightarrow> x \<in> ?T" using True assms(1) by (simp add: set_top_keys)
    ultimately show ?thesis using TA by auto
  next
    case False
    then have "n \<le> card {y \<in> ?T. x < y}" "n \<le> card {y \<in> A. x < y}" using many by auto
    moreover have "card {y \<in> ?T. x < y} \<le> card {y \<in> ?T \<union> B. x < y}"
      using TA assms(2) by (intro card_mono) auto
    moreover have "card {y \<in> A. x < y} \<le> card {y \<in> A \<union> B. x < y}" using assms by (intro card_mono) auto
    ultimately show ?thesis by linarith
  qed
  then have "set (top_keys n (?T \<union> B)) = set (top_keys n (A \<union> B))"
    using assms TA by (simp add: set_top_keys)
  moreover have "top_keys n (?T \<union> B) = sorted_list_of_set (set (top_keys n (?T \<union> B)))"
    "top_keys n (A \<union> B) = sorted_list_of_set (set (top_keys n (A \<union> B)))"
    using assms TA by (intro top_keys_sorted; simp)+
  ultimately show ?thesis by metis
qed

section \<open>Keys of parts\<close>

lemma map_insert_absent_sorted:
  assumes "sorted_wrt (<) (map fst m)" "\<forall>w. (k, w) \<in> set m \<longrightarrow> w = v"
  shows "sorted_wrt (<) (map fst (map_insert_absent k v m)) \<and> set (map_insert_absent k v m) = insert (k, v) (set m)"
  using assms by (induction k v m rule: map_insert_absent.induct) auto

lemma strict_sorted_fst:
  "sorted_wrt (<) (map fst (m :: (int \<times> string) list)) \<Longrightarrow> sorted_wrt (<) m"
  by (auto simp: sorted_wrt_map less_prod_def elim: sorted_wrt_mono_rel [rotated])

lemma fold_insert_absent:
  assumes "functional_keys (ks @ m)" "sorted_wrt (<) (map fst m)"
  shows "fold (\<lambda>(k, v) m. map_insert_absent k v m) ks m = sorted_list_of_set (set ks \<union> set m)"
  using assms
proof (induction ks arbitrary: m)
  case Nil
  then have "sorted_wrt (<) m" by (simp add: strict_sorted_fst)
  then show ?case by (simp add: sorted_list_of_set.idem_if_sorted_distinct strict_sorted_iff)
next
  case (Cons x ks)
  obtain k v where x: "x = (k, v)" by fastforce
  have "w = v" if "(k, w) \<in> set m" for w
    using functional_keysD [OF Cons.prems(1), of k w v] that x by simp
  then have ins: "sorted_wrt (<) (map fst (map_insert_absent k v m))"
    "set (map_insert_absent k v m) = insert (k, v) (set m)"
    using map_insert_absent_sorted [OF Cons.prems(2), of k v] by blast+
  have "set (ks @ map_insert_absent k v m) = set ((x # ks) @ m)" using ins(2) x by auto
  then have "functional_keys (ks @ map_insert_absent k v m)"
    using Cons.prems(1) unfolding functional_keys_def list_all_iff by metis
  from Cons.IH [OF this ins(1)] show ?case using ins(2) x by (simp add: Un_commute)
qed

lemma populate_keys:
  assumes "functional_keys ks"
  shows "(let m = fold (\<lambda>(k, v) m. map_insert_absent k v m) ks [] in
      if length m > n then drop (length m - n) m else m) = top_keys n (set ks)"
  using fold_insert_absent [of ks "[]"] assms by (simp add: top_keys_def Let_def)

lemma mergeIdempotentKeys_top:
  "mergeIdempotentKeys (sort (remdups ks)) n = (if ks = [] then None else Some (top_keys n (set ks)))"
proof -
  have "sort (remdups ks) = sorted_list_of_set (set ks)" by (simp add: sorted_list_of_set_sort_remdups)
  moreover have "length (sort (remdups ks)) = card (set ks)" by (simp add: length_remdups_card_conv)
  ultimately show ?thesis by (simp add: mergeIdempotentKeys_def top_keys_def)
qed

end
