(* ===== verification/Part_Recovery.thy ===== *)
theory Part_Recovery
  imports MergeTree_SN
begin

text \<open>
  Properties of the local table that span its operations: background merges against restarts,
  and the parts that recovery writes against the parts that were on disk.
\<close>

section \<open>Background merges\<close>

lemma part_ranges_simps [simp]:
  "part_ranges [] = []"
  "part_ranges (None # ps) = part_ranges ps"
  "part_ranges (Some si # ps) = sequence_ranges si @ part_ranges ps"
  "part_ranges (ps @ qs) = part_ranges ps @ part_ranges qs"
  by (simp_all add: part_ranges_def)

lemma part_keys_simps [simp]:
  "part_keys [] = []"
  "part_keys (None # ps) = part_keys ps"
  "part_keys (Some si # ps) = (case idempotent_keys si of None \<Rightarrow> [] | Some ks \<Rightarrow> ks) @ part_keys ps"
  "part_keys (ps @ qs) = part_keys ps @ part_keys qs"
  by (simp_all add: part_keys_def)

definition merge_inputs :: "sequence_info option list \<Rightarrow> sequence_info list" where
  "merge_inputs data_parts = concat (map (\<lambda>p. case p of None \<Rightarrow> []
     | Some si \<Rightarrow> if sequence_ranges si \<noteq> []
         \<or> (case idempotent_keys si of None \<Rightarrow> False | Some ks \<Rightarrow> ks \<noteq> []) then [si] else []) data_parts)"

lemma merge_inputs_ranges: "concat (map sequence_ranges (merge_inputs ps)) = part_ranges ps"
  by (induction ps) (auto simp: merge_inputs_def split: option.splits)

lemma merge_inputs_keys:
  "concat (map (\<lambda>si. case idempotent_keys si of None \<Rightarrow> [] | Some l \<Rightarrow> l) (merge_inputs ps)) = part_keys ps"
  by (induction ps) (auto simp: merge_inputs_def split: option.splits)

lemma merge_inputs_Nil: "merge_inputs ps = [] \<longleftrightarrow> part_ranges ps = [] \<and> part_keys ps = []"
  by (induction ps) (auto simp: merge_inputs_def split: option.splits)

lemma mergeSequenceInfo_parts_eq:
  "mergeSequenceInfo_parts ps c n =
     (if part_ranges ps = [] \<and> part_keys ps = [] then None
      else Some \<lparr>sequence_ranges = mergeSequenceRanges (part_ranges ps) c,
                 idempotent_keys = (if part_keys ps = [] then None else Some (top_keys n (set (part_keys ps))))\<rparr>)"
proof -
  have "mergeSequenceInfo_parts ps c n = mergeSequenceInfo (merge_inputs ps) c n"
    by (simp add: mergeSequenceInfo_parts_def merge_inputs_def)
  then show ?thesis
    by (simp add: mergeSequenceInfo_def merge_inputs_ranges merge_inputs_keys merge_inputs_Nil
        mergeIdempotentKeys_top)
qed

lemma merged_part_ranges: "part_ranges [mergeSequenceInfo_parts ps c n] = mergeSequenceRanges (part_ranges ps) c"
  by (simp add: mergeSequenceInfo_parts_eq mergeSequenceRanges_filter sort_ranges_def)

lemma merged_part_keys: "part_keys [mergeSequenceInfo_parts ps c n] = top_keys n (set (part_keys ps))"
  by (simp add: mergeSequenceInfo_parts_eq top_keys_def)

lemma missingSequenceRanges_cong:
  assumes "sort_ranges xs = sort_ranges ys"
  shows "missingSequenceRanges xs c = missingSequenceRanges ys c"
proof -
  have "xs = [] \<longleftrightarrow> ys = []" using assms sort_ranges_Nil_iff by metis
  then show ?thesis using assms by (simp add: missingSequenceRanges_def)
qed

lemma functional_keys_subset: "functional_keys ks \<Longrightarrow> set ks' \<subseteq> set ks \<Longrightarrow> functional_keys ks'"
  unfolding functional_keys_def list_all_iff by blast

text \<open>What a restart computes depends on the parts only through the ranges above the committed
  number, in sorted order, and through the newest keys.\<close>

lemma populate_eq:
  assumes "functional_keys (part_keys ps)"
  shows "populateCommittedSNFromParts ps n st =
    (case missingSequenceRanges (filter (\<lambda>r. end_sn r > committed_sn st) (part_ranges ps)) (committed_sn st) of
       None \<Rightarrow> None
     | Some (missing, next_expecting, max_expecting) \<Rightarrow>
         Some (st\<lparr>committed_sn := next_expecting - 1, max_committed_sn := max_expecting - 1,
           missing_sequence_ranges := missing,
           last_idempotent_keys := last_idempotent_keys st @ map snd (top_keys n (set (part_keys ps)))\<rparr>))"
proof -
  have sn: "(if n' \<noteq> committed_sn st + 1 then n' - 1 else committed_sn st) = n' - 1" for n' by simp
  show ?thesis
    unfolding populateCommittedSNFromParts_def Let_def populate_keys [OF assms, unfolded Let_def] sn ..
qed

lemma populate_cong:
  assumes "mergeSequenceRanges (part_ranges ps) (committed_sn st) = mergeSequenceRanges (part_ranges qs) (committed_sn st)"
    and "functional_keys (part_keys ps)" "functional_keys (part_keys qs)"
    and "top_keys n (set (part_keys ps)) = top_keys n (set (part_keys qs))"
  shows "populateCommittedSNFromParts ps n st = populateCommittedSNFromParts qs n st"
proof -
  have "missingSequenceRanges (filter (\<lambda>r. end_sn r > committed_sn st) (part_ranges ps)) (committed_sn st)
      = missingSequenceRanges (filter (\<lambda>r. end_sn r > committed_sn st) (part_ranges qs)) (committed_sn st)"
    using assms(1) by (intro missingSequenceRanges_cong) (simp add: mergeSequenceRanges_filter filter_sort_ranges)
  then show ?thesis
    unfolding populate_eq [OF assms(2)] populate_eq [OF assms(3)] assms(4) by simp
qed

lemma merge_populate:
  assumes "c0 \<le> committed_sn st" "distinct (map range_key (part_ranges (sources @ others)))"
    and "functional_keys (part_keys (sources @ others))"
  shows "populateCommittedSNFromParts (mergeSequenceInfo_parts sources c0 n # others) n st
    = populateCommittedSNFromParts (sources @ others) n st"
proof -
  let ?m = "mergeSequenceInfo_parts sources c0 n"
  have r: "part_ranges (?m # others) = mergeSequenceRanges (part_ranges sources) c0 @ part_ranges others"
    using part_ranges_simps(4) [of "[?m]" others] by (simp only: merged_part_ranges append_Cons append_Nil)
  have k: "part_keys (?m # others) = top_keys n (set (part_keys sources)) @ part_keys others"
    using part_keys_simps(4) [of "[?m]" others] by (simp only: merged_part_keys append_Cons append_Nil)
  show ?thesis
  proof (rule populate_cong)
    show "mergeSequenceRanges (part_ranges (?m # others)) (committed_sn st)
        = mergeSequenceRanges (part_ranges (sources @ others)) (committed_sn st)"
      using merge_twice [OF assms(1), of "part_ranges sources" "part_ranges others"] assms(2) by (simp add: r)
    show "functional_keys (part_keys (?m # others))"
      using assms(3) by (rule functional_keys_subset) (auto simp: k set_top_keys)
    show "functional_keys (part_keys (sources @ others))" by (rule assms(3))
    show "top_keys n (set (part_keys (?m # others))) = top_keys n (set (part_keys (sources @ others)))"
      by (simp add: k top_keys_Un)
  qed
qed

definition storable_part :: "sequence_info option \<Rightarrow> bool" where
  "storable_part p \<longleftrightarrow> (case p of None \<Rightarrow> True | Some si \<Rightarrow> info_valid si \<and> info_storable si)"

lemma storable_part_simps [simp]:
  "storable_part None"
  "storable_part (Some si) \<longleftrightarrow> info_valid si \<and> info_storable si"
  by (simp_all add: storable_part_def)

lemma storable_parts_ranges:
  "list_all storable_part ps \<Longrightarrow> \<forall>r\<in>set (part_ranges ps). range_valid r \<and> range_storable r"
proof (induction ps)
  case (Cons p ps)
  then show ?case by (cases p) (auto simp: info_valid_def info_storable_def list_all_iff)
qed simp

lemma storable_parts_keys:
  "list_all storable_part ps \<Longrightarrow> \<forall>k\<in>set (part_keys ps). key_storable k"
proof (induction ps)
  case (Cons p ps)
  then show ?case by (cases p) (auto simp: info_storable_def list_all_iff split: option.splits)
qed simp

text \<open>The part a merge writes loads as what was merged, or as nothing when nothing was left.\<close>

lemma merged_part_loads:
  assumes "list_all storable_part sources"
  shows "\<exists>m. loadSequenceInfo (finalize_part_sn (mergeSequenceInfo_parts sources c n)) = Inr m
    \<and> part_ranges [m] = part_ranges [mergeSequenceInfo_parts sources c n]
    \<and> part_keys [m] = part_keys [mergeSequenceInfo_parts sources c n]"
proof (cases "mergeSequenceInfo_parts sources c n")
  case None
  then show ?thesis by (auto simp: finalize_part_sn_def loadSequenceInfo_def)
next
  case (Some si)
  note el = storable_parts_ranges [OF assms(1)] storable_parts_keys [OF assms(1)]
  have ranges: "\<forall>r\<in>set (sequence_ranges si). range_valid r \<and> range_storable r"
    using Some el(1) by (auto simp: mergeSequenceInfo_parts_eq set_mergeSequenceRanges split: if_splits)
  have keys: "list_all key_storable ks" if "idempotent_keys si = Some ks" for ks
    using Some that el(2) by (auto simp: mergeSequenceInfo_parts_eq list_all_iff set_top_keys split: if_splits)
  have st: "info_storable si"
    using ranges keys by (auto simp: info_storable_def list_all_iff split: option.split)
  show ?thesis
  proof (cases "info_valid si")
    case True
    then have "info_read (info_write si) = Inr (info_norm si)" using st by (rule info_roundtrip)
    then show ?thesis
      using True Some by (simp add: finalize_part_sn_def loadSequenceInfo_def info_norm_def split: option.split)
  next
    case False
    then have "sequence_ranges si = []" "case idempotent_keys si of None \<Rightarrow> True | Some ks \<Rightarrow> ks = []"
      using ranges by (auto simp: info_valid_def list_all_iff)
    then show ?thesis
      using False Some by (simp add: finalize_part_sn_def loadSequenceInfo_def split: option.splits)
  qed
qed


abbreviation part_of :: "int \<Rightarrow> int \<Rightarrow> int \<Rightarrow> int \<Rightarrow> idempotent_key list option \<Rightarrow> sequence_info option" where
  "part_of s e i n ks \<equiv> Some \<lparr>sequence_ranges = [SequenceRange s e i n], idempotent_keys = ks\<rparr>"



section \<open>Writing the missing parts\<close>

lemma write_part_blocks_ranges:
  "\<exists>ps. write_part_blocks (\<lambda>_. True) missing (Some (SequenceInfo s e ks)) n k bs = Some ps
    \<and> part_ranges (map snd ps)
       = map (\<lambda>i. SequenceRange s e i n)
           (filter (\<lambda>i. \<not> ignorePartBlock missing n i) [k..k + int (length bs) - 1])"
proof (induction bs arbitrary: k)
  case (Cons b bs)
  have split: "[k..k + int (length (b # bs)) - 1] = k # [k + 1..k + 1 + int (length bs) - 1]"
    by (subst upto_Cons) (simp_all add: algebra_simps)
  have clone: "shallowClone (SequenceInfo s e ks) k n
      = Some \<lparr>sequence_ranges = [SequenceRange s e k n], idempotent_keys = ks\<rparr>"
    by (simp add: shallowClone_def SequenceInfo_def SequenceRange2_def SequenceRange_def)
  obtain ps where "write_part_blocks (\<lambda>_. True) missing (Some (SequenceInfo s e ks)) n (k + 1) bs = Some ps"
    "part_ranges (map snd ps) = map (\<lambda>i. SequenceRange s e i n)
       (filter (\<lambda>i. \<not> ignorePartBlock missing n i) [k + 1..k + 1 + int (length bs) - 1])"
    using Cons.IH [of "k + 1"] by blast
  then show ?case unfolding split by (simp add: clone)
qed simp

lemma missing_of_range:
  assumes "wf_ranges disk c" "r \<in> set disk" "scan_inv disk c mx n ms" "start_sn r < mx"
  shows "m \<in> set ms \<and> start_sn m = start_sn r
    \<longleftrightarrow> (\<exists>i. 0 \<le> i \<and> i < parts r \<and> \<not> has_part disk (start_sn r) i \<and> m = r\<lparr>part_index := i\<rparr>)"
proof
  assume m: "m \<in> set ms \<and> start_sn m = start_sn r"
  have "\<not> missing_hole disk m"
    using m wf_rangesD(2) [OF assms(1,2)] assms(2) by (force simp: missing_hole_def)
  then have "missing_part disk m" using scan_invD(7) [OF assms(3), of m] m by blast
  then obtain q i where q: "q \<in> set disk" "0 \<le> i" "i < parts q" "\<not> has_part disk (start_sn q) i"
    "m = q\<lparr>part_index := i\<rparr>" unfolding missing_part_def by blast
  have start: "start_sn q = start_sn r" using q(5) m by simp
  then have same: "end_sn q = end_sn r" "parts q = parts r" using wf_ranges_same [OF assms(1) q(1) assms(2)] by auto
  have "q\<lparr>part_index := i\<rparr> = r\<lparr>part_index := i\<rparr>" using start same by (cases q, cases r) simp
  then show "\<exists>i. 0 \<le> i \<and> i < parts r \<and> \<not> has_part disk (start_sn r) i \<and> m = r\<lparr>part_index := i\<rparr>"
    using q start same by metis
next
  assume "\<exists>i. 0 \<le> i \<and> i < parts r \<and> \<not> has_part disk (start_sn r) i \<and> m = r\<lparr>part_index := i\<rparr>"
  then show "m \<in> set ms \<and> start_sn m = start_sn r" using scan_invD(6) [OF assms(3,2,4)] by force
qed

lemma ignore_iff_has_part:
  assumes "wf_ranges disk c" "r \<in> set disk" "scan_inv disk c mx n ms" "start_sn r < mx"
    and "filter (\<lambda>m. start_sn m = start_sn r) ms \<noteq> []" "0 \<le> i" "i < parts r"
  shows "ignorePartBlock (filter (\<lambda>m. start_sn m = start_sn r) ms) (parts r) i \<longleftrightarrow> has_part disk (start_sn r) i"
proof -
  let ?mis = "filter (\<lambda>m. start_sn m = start_sn r) ms"
  note mis = missing_of_range [OF assms(1-4)]
  have "last ?mis \<in> set ?mis" using assms(5) last_in_set by blast
  then have "parts (last ?mis) = parts r" using mis [of "last ?mis"] by auto
  then have "ignorePartBlock ?mis (parts r) i \<longleftrightarrow> \<not> (\<exists>m\<in>set ms. start_sn m = start_sn r \<and> part_index m = i)"
    using assms(5) by (auto simp: ignorePartBlock_def list_ex_iff)
  also have "(\<exists>m\<in>set ms. start_sn m = start_sn r \<and> part_index m = i) \<longleftrightarrow> \<not> has_part disk (start_sn r) i"
  proof
    assume "\<exists>m\<in>set ms. start_sn m = start_sn r \<and> part_index m = i"
    then obtain m where "m \<in> set ms \<and> start_sn m = start_sn r" "part_index m = i" by blast
    then show "\<not> has_part disk (start_sn r) i" using mis [of m] by auto
  next
    assume "\<not> has_part disk (start_sn r) i"
    then have "r\<lparr>part_index := i\<rparr> \<in> set ms \<and> start_sn (r\<lparr>part_index := i\<rparr>) = start_sn r"
      using mis [of "r\<lparr>part_index := i\<rparr>"] assms(6,7) by blast
    then show "\<exists>m\<in>set ms. start_sn m = start_sn r \<and> part_index m = i"
      by (intro bexI [of _ "r\<lparr>part_index := i\<rparr>"]) auto
  qed
  finally show ?thesis by blast
qed

lemma wf_ranges_add_parts:
  assumes "wf_ranges disk c" "r \<in> set disk" "distinct idx"
    and "\<forall>i\<in>set idx. 0 \<le> i \<and> i < parts r \<and> \<not> has_part disk (start_sn r) i"
  shows "wf_ranges (disk @ map (\<lambda>i. r\<lparr>part_index := i\<rparr>) idx) c"
proof -
  let ?new = "map (\<lambda>i. r\<lparr>part_index := i\<rparr>) idx"
  have elem: "\<exists>q\<in>set disk. start_sn a = start_sn q \<and> end_sn a = end_sn q \<and> parts a = parts q"
    if "a \<in> set (disk @ ?new)" for a using that assms(2) by auto
  have "c < start_sn a \<and> start_sn a \<le> end_sn a \<and> 0 \<le> part_index a \<and> part_index a < parts a"
    if "a \<in> set (disk @ ?new)" for a
    using that wf_rangesD [OF assms(1)] assms(2,4) by auto
  moreover have "end_sn a = end_sn b \<and> parts a = parts b"
    if "a \<in> set (disk @ ?new)" "b \<in> set (disk @ ?new)" "start_sn a = start_sn b" for a b
    using elem [OF that(1)] elem [OF that(2)] that(3) wf_ranges_same [OF assms(1)] by metis
  moreover have "end_sn a < start_sn b"
    if "a \<in> set (disk @ ?new)" "b \<in> set (disk @ ?new)" "start_sn a < start_sn b" for a b
    using elem [OF that(1)] elem [OF that(2)] that(3) wf_ranges_disjoint [OF assms(1)] by metis
  moreover have "distinct (map range_key (disk @ ?new))"
  proof -
    have new: "map range_key ?new = map (\<lambda>i. (start_sn r, i)) idx" by (simp add: range_key_def)
    have "distinct (map (\<lambda>i. (start_sn r, i)) idx)" using assms(3) by (simp add: distinct_map inj_on_def)
    moreover have "(start_sn r, i) \<notin> range_key ` set disk" if "i \<in> set idx" for i
    proof -
      have "\<not> has_part disk (start_sn r) i" using that assms(4) by blast
      then show ?thesis unfolding range_key_def has_part_iff by force
    qed
    moreover have "distinct (map range_key disk)" using assms(1) by (simp add: wf_ranges_iff)
    ultimately show ?thesis unfolding map_append new by auto
  qed
  ultimately show ?thesis unfolding wf_ranges_iff by blast
qed

text \<open>
  C11.  Recovery completes a partially written block.  When the scan reports missing parts for a
  range \<open>r\<close> on disk, writing the block of that range again, split into as many part blocks as
  before and with the reported parts of the range as its missing ranges, succeeds, adds no part
  that is already there (the ranges on disk stay well-formed, in particular no part occurs twice),
  and afterwards every sequence number of the range is persisted.
\<close>

theorem recovery_completes_range:
  assumes "wf_ranges disk c" "r \<in> set disk" "missingSequenceRanges disk c = Some (ms, n, mx)"
    and "filter (\<lambda>m. start_sn m = start_sn r) ms \<noteq> []" "int (length bs) = parts r"
  shows "\<exists>ps. block_write (\<lambda>_. True) (filter (\<lambda>m. start_sn m = start_sn r) ms)
        (Some (SequenceInfo (start_sn r) (end_sn r) ks)) bs = Some ps
    \<and> wf_ranges (disk @ part_ranges (map snd ps)) c
    \<and> (\<forall>sn. start_sn r \<le> sn \<and> sn \<le> end_sn r \<longrightarrow> persisted (disk @ part_ranges (map snd ps)) sn)"
proof -
  let ?mis = "filter (\<lambda>m. start_sn m = start_sn r) ms"
  let ?idx = "filter (\<lambda>i. \<not> has_part disk (start_sn r) i) [0..parts r - 1]"
  let ?new = "map (\<lambda>i. r\<lparr>part_index := i\<rparr>) ?idx"
  have inv: "scan_inv disk c mx n ms" and mx: "start_sn r < mx"
    using scan_result [OF assms(1)] assms(2,3) wf_rangesD(2) [OF assms(1,2)] by force+
  obtain ps where ps: "block_write (\<lambda>_. True) ?mis (Some (SequenceInfo (start_sn r) (end_sn r) ks)) bs = Some ps"
    "part_ranges (map snd ps) = map (\<lambda>i. SequenceRange (start_sn r) (end_sn r) i (parts r))
       (filter (\<lambda>i. \<not> ignorePartBlock ?mis (parts r) i) [0..parts r - 1])"
    using write_part_blocks_ranges [of ?mis "start_sn r" "end_sn r" ks "parts r" 0 bs] assms(5)
    by (auto simp: block_write_def)
  have "filter (\<lambda>i. \<not> ignorePartBlock ?mis (parts r) i) [0..parts r - 1] = ?idx"
    using ignore_iff_has_part [OF assms(1,2) inv mx assms(4)] by (intro filter_cong) auto
  moreover have "SequenceRange (start_sn r) (end_sn r) i (parts r) = r\<lparr>part_index := i\<rparr>" for i
    by (cases r) (simp add: SequenceRange_def)
  ultimately have new: "part_ranges (map snd ps) = ?new" using ps(2) by simp
  have "wf_ranges (disk @ ?new) c"
    using assms(1,2) by (intro wf_ranges_add_parts) auto
  moreover have "has_part (disk @ ?new) (start_sn r) i" if i: "0 \<le> i" "i < parts r" for i
  proof (cases "has_part disk (start_sn r) i")
    case False
    then have "r\<lparr>part_index := i\<rparr> \<in> set ?new" using i by auto
    then show ?thesis
      unfolding has_part_iff by (intro bexI [of _ "r\<lparr>part_index := i\<rparr>"]) auto
  qed (auto simp: has_part_iff)
  then have "persisted (disk @ ?new) sn" if "start_sn r \<le> sn" "sn \<le> end_sn r" for sn
    using that assms(2) unfolding persisted_iff by (intro bexI [of _ r]) auto
  ultimately show ?thesis using ps(1) new by auto
qed

theorem recovery_completes_range_witness:
  "\<exists>ps. block_write (\<lambda>_. True) [SequenceRange 5 6 1 3] (Some (SequenceInfo 5 6 None)) [''x'', ''y'', ''z''] = Some ps
     \<and> persisted ([SequenceRange 5 6 0 3, SequenceRange 5 6 2 3] @ part_ranges (map snd ps)) 6"
proof -
  let ?disk = "[SequenceRange 5 6 0 3, SequenceRange 5 6 2 3]"
  have wf: "wf_ranges ?disk 4" by (simp add: wf_ranges_def SequenceRange_def range_key_def)
  have scan: "missingSequenceRanges ?disk 4 = Some ([SequenceRange 5 6 1 3], 5, 7)" by code_simp
  show ?thesis
    using recovery_completes_range [OF wf _ scan, of "SequenceRange 5 6 0 3" "[''x'', ''y'', ''z'']" None]
    by (auto simp: SequenceRange_def)
qed

end
