(* ===== verification/Sequence_Tracker.thy ===== *)
theory Sequence_Tracker
  imports Daisy_Prelude
begin

text \<open>
  The bookkeeping of sequence numbers in \<^verbatim>\<open>StorageDistributedMergeTree\<close>
  (\<^verbatim>\<open>src/src/Storages/DistributedMergeTree/StorageDistributedMergeTree.cpp\<close>).  Batches of records are
  consumed in order and written to disk by a pool of threads that finish in any order.
  \<^verbatim>\<open>outstanding_sns\<close> holds the batches in the order of consumption, \<^verbatim>\<open>local_committed_sns\<close> those
  that finished early, and \<^verbatim>\<open>last_sn\<close> is the number up to which everything is finished.
\<close>

section \<open>State and operations\<close>

type_synonym sequence_pair = "int \<times> int"

record sns =
  last_sn :: int
  prev_sn :: int
  local_sn :: int
  local_committed_sns :: "sequence_pair list"
  outstanding_sns :: "sequence_pair list"

text \<open>The constructor starts from the committed number of the local table.\<close>

definition sns_init :: "int \<Rightarrow> sns" where
  "sns_init sn = \<lparr>last_sn = (if sn \<ge> 0 then sn else -1), prev_sn = -1, local_sn = (if sn \<ge> 0 then sn else -1),
     local_committed_sns = [], outstanding_sns = []\<rparr>"

definition push_outstanding :: "sequence_pair \<Rightarrow> sns \<Rightarrow> sns" where
  "push_outstanding seq st = st\<lparr>outstanding_sns := outstanding_sns st @ [seq]\<rparr>"

definition set_insert :: "'a::linorder \<Rightarrow> 'a list \<Rightarrow> 'a list" where
  "set_insert x xs = (if x \<in> set xs then xs else insort x xs)"

text \<open>The loop that retires finished batches: \<^verbatim>\<open>front()\<close> of an empty deque is undefined.\<close>

fun drain :: "int \<Rightarrow> sequence_pair list \<Rightarrow> sequence_pair list
    \<Rightarrow> (int \<times> sequence_pair list \<times> sequence_pair list) option" where
  "drain sn out [] = Some (sn, out, [])"
| "drain sn [] (c # cs) = None"
| "drain sn (p # out) (c # cs) =
     (if c = p then drain (snd p) out cs else Some (sn, p # out, c # cs))"

definition progressSequencesWithoutLock :: "sequence_pair \<Rightarrow> sns \<Rightarrow> sns option" where
  "progressSequencesWithoutLock seq st =
     (case outstanding_sns st of
        [] \<Rightarrow> None
      | front # rest \<Rightarrow>
          if seq \<noteq> front then Some (st\<lparr>local_committed_sns := set_insert seq (local_committed_sns st)\<rparr>)
          else (case drain (snd seq) rest (local_committed_sns st) of
                  None \<Rightarrow> None
                | Some (sn, out, committed) \<Rightarrow>
                    Some (st\<lparr>last_sn := sn, outstanding_sns := out, local_committed_sns := committed\<rparr>)))"

text \<open>\<^verbatim>\<open>progressSequences\<close> is the same under the lock.\<close>

definition progressSequences :: "sequence_pair \<Rightarrow> sns \<Rightarrow> sns option" where
  "progressSequences seq st = progressSequencesWithoutLock seq st"

definition snLoaded :: "sns \<Rightarrow> int" where
  "snLoaded st = (if local_sn st \<ge> 0 then local_sn st + 1 else -1000)"

text \<open>
  The numbers on their way out: \<^verbatim>\<open>file_sn\<close> is the number in \<^verbatim>\<open>committed_sn.txt\<close>, \<^verbatim>\<open>remote_sn\<close> the number
  committed to the log.  A commit may fail with an exception or an error code, which the code
  logs and ignores; the flags say whether the local and the remote commit succeed.
\<close>

record committed_sns =
  file_sn :: int
  remote_sn :: int

definition commitSNLocal :: "bool \<Rightarrow> int \<Rightarrow> sns \<times> committed_sns \<Rightarrow> sns \<times> committed_sns" where
  "commitSNLocal ok commit_sn s =
     (if ok then ((fst s)\<lparr>local_sn := commit_sn\<rparr>, (snd s)\<lparr>file_sn := commit_sn\<rparr>) else s)"

definition commitSNRemote :: "bool \<Rightarrow> int \<Rightarrow> sns \<times> committed_sns \<Rightarrow> sns \<times> committed_sns" where
  "commitSNRemote ok commit_sn s = (if ok then (fst s, (snd s)\<lparr>remote_sn := commit_sn\<rparr>) else s)"

definition commitSN_dist :: "bool \<Rightarrow> bool \<Rightarrow> sns \<times> committed_sns \<Rightarrow> sns \<times> committed_sns" where
  "commitSN_dist ok_local ok_remote s =
     (let st = fst s;
          changed = last_sn st \<noteq> prev_sn st;
          outstanding_commits = (if changed then last_sn st - local_sn st else 0);
          commit_sn = (if changed then last_sn st else -1);
          s1 = (if changed then (st\<lparr>prev_sn := last_sn st\<rparr>, snd s) else s)
      in if commit_sn < 0 then s1
         else commitSNRemote ok_remote commit_sn
                (if outstanding_commits \<ge> 100 then commitSNLocal ok_local commit_sn s1 else s1))"

definition finalCommit :: "bool \<Rightarrow> bool \<Rightarrow> bool \<Rightarrow> sns \<times> committed_sns \<Rightarrow> sns \<times> committed_sns" where
  "finalCommit ok_local ok_remote ok_final s =
     (let s1 = commitSN_dist ok_local ok_remote s;
          commit_sn = (if last_sn (fst s1) \<noteq> local_sn (fst s1) then last_sn (fst s1) else -1)
      in if commit_sn \<ge> 0 then commitSNLocal ok_final commit_sn s1 else s1)"

definition periodicallyCommit :: "bool \<Rightarrow> bool \<Rightarrow> sns \<times> committed_sns \<Rightarrow> sns \<times> committed_sns" where
  "periodicallyCommit ok_local ok_remote s =
     (let st = fst s;
          commit_sn = (if last_sn st \<noteq> local_sn st then last_sn st else -1);
          remote_commit_sn = (if prev_sn st \<noteq> last_sn st then last_sn st else -1);
          s1 = (if prev_sn st \<noteq> last_sn st then (st\<lparr>prev_sn := last_sn st\<rparr>, snd s) else s);
          s2 = (if commit_sn \<ge> 0 then commitSNLocal ok_local commit_sn s1 else s1)
      in if remote_commit_sn \<ge> 0 then commitSNRemote ok_remote remote_commit_sn s2 else s2)"

text \<open>What happens to the tracker: a batch is handed to the pool, a batch is finished.\<close>

datatype tracker_event = Pushed sequence_pair | Finished sequence_pair

fun run_tracker :: "tracker_event list \<Rightarrow> sns \<Rightarrow> sns option" where
  "run_tracker [] st = Some st"
| "run_tracker (Pushed p # evs) st = run_tracker evs (push_outstanding p st)"
| "run_tracker (Finished p # evs) st =
     (case progressSequences p st of None \<Rightarrow> None | Some st' \<Rightarrow> run_tracker evs st')"

fun pushed :: "tracker_event list \<Rightarrow> sequence_pair list" where
  "pushed [] = []"
| "pushed (Pushed p # evs) = p # pushed evs"
| "pushed (Finished p # evs) = pushed evs"

fun finished :: "tracker_event list \<Rightarrow> sequence_pair list" where
  "finished [] = []"
| "finished (Pushed p # evs) = finished evs"
| "finished (Finished p # evs) = p # finished evs"

section \<open>Specification\<close>

text \<open>
  Abstractly the tracker remembers every batch pushed and which of them are finished, and its
  number is the end of the longest prefix of finished batches.
\<close>

definition last_of :: "int \<Rightarrow> sequence_pair list \<Rightarrow> int" where
  "last_of base ps = (if ps = [] then base else snd (last ps))"

definition increasing :: "int \<Rightarrow> sequence_pair list \<Rightarrow> bool" where
  "increasing base ps \<longleftrightarrow> sorted_wrt (\<lambda>a b. snd a < fst b) ps \<and> list_all (\<lambda>p. base < fst p \<and> fst p \<le> snd p) ps"

text \<open>
  The histories the storage produces: batches are pushed in increasing order, and a batch finishes
  once, after it was pushed.
\<close>

fun history_ok :: "int \<Rightarrow> sequence_pair list \<Rightarrow> sequence_pair list \<Rightarrow> tracker_event list \<Rightarrow> bool" where
  "history_ok base ps ds [] = True"
| "history_ok base ps ds (Pushed p # evs) =
     (last_of base ps < fst p \<and> fst p \<le> snd p \<and> history_ok base (ps @ [p]) ds evs)"
| "history_ok base ps ds (Finished p # evs) =
     (p \<in> set ps \<and> p \<notin> set ds \<and> history_ok base ps (p # ds) evs)"

lemma increasing_last_of:
  assumes "increasing base (a @ b)" "p \<in> set b"
  shows "last_of base a < fst p"
proof (cases "a = []")
  case True
  then show ?thesis using assms by (auto simp: last_of_def increasing_def list_all_iff)
next
  case False
  then have "last a \<in> set a" by (rule last_in_set)
  then show ?thesis using assms False by (auto simp: last_of_def increasing_def sorted_wrt_append)
qed

lemma increasing_last_of_mono:
  assumes "increasing base (a @ b)"
  shows "last_of base a \<le> last_of base (a @ b)"
proof (cases "b = []")
  case False
  then have b: "last b \<in> set b" by (rule last_in_set)
  then have "fst (last b) \<le> snd (last b)" using assms by (auto simp: increasing_def list_all_iff)
  then show ?thesis using increasing_last_of [OF assms b] False by (simp add: last_of_def)
qed simp

lemma increasing_prefix: "increasing base (a @ b) \<Longrightarrow> increasing base a"
  by (simp add: increasing_def sorted_wrt_append)

lemma increasing_distinct: "increasing base ps \<Longrightarrow> distinct ps"
proof (induction ps)
  case (Cons p ps)
  then have "p \<notin> set ps" "increasing base ps" by (force simp: increasing_def)+
  then show ?case using Cons.IH by simp
qed simp

lemma increasing_sorted: "increasing base ps \<Longrightarrow> sorted_wrt (<) ps"
proof (induction ps)
  case (Cons p ps)
  have "increasing base ps" "\<forall>q\<in>set ps. p < q"
    using Cons.prems by (force simp: increasing_def less_prod_def list_all_iff)+
  then show ?case using Cons.IH by simp
qed simp

locale sn_tracker =
  fixes tracks :: "int \<Rightarrow> sequence_pair list \<Rightarrow> sequence_pair set \<Rightarrow> 't \<Rightarrow> bool"
    and last_number :: "'t \<Rightarrow> int"
    and push :: "sequence_pair \<Rightarrow> 't \<Rightarrow> 't"
    and progress :: "sequence_pair \<Rightarrow> 't \<Rightarrow> 't option"
  assumes tracks_increasing: "tracks base ps D t \<Longrightarrow> increasing base ps"
    and tracks_done: "tracks base ps D t \<Longrightarrow> D \<subseteq> set ps"
    and tracks_last: "tracks base ps D t \<Longrightarrow> last_number t = last_of base (takeWhile (\<lambda>p. p \<in> D) ps)"
    and tracks_push: "tracks base ps D t \<Longrightarrow> increasing base (ps @ [p]) \<Longrightarrow> tracks base (ps @ [p]) D (push p t)"
    and tracks_progress: "tracks base ps D t \<Longrightarrow> p \<in> set ps \<Longrightarrow> p \<notin> D
      \<Longrightarrow> \<exists>t'. progress p t = Some t' \<and> tracks base ps (insert p D) t'"
begin

lemma last_covers_done:
  assumes "tracks base ps D t" "p \<in> set ps" "fst p \<le> last_number t"
  shows "p \<in> D"
proof -
  let ?T = "takeWhile (\<lambda>p. p \<in> D) ps" and ?R = "dropWhile (\<lambda>p. p \<in> D) ps"
  have inc: "increasing base (?T @ ?R)" unfolding takeWhile_dropWhile_id by (rule tracks_increasing [OF assms(1)])
  show ?thesis
  proof (cases "p \<in> set ?T")
    case True
    then show ?thesis by (auto dest: set_takeWhileD)
  next
    case False
    then have p: "p \<in> set ?R" using assms(2) by (metis Un_iff set_append takeWhile_dropWhile_id)
    have "last_of base ?T < fst p" by (rule increasing_last_of [OF inc p])
    then show ?thesis using assms(3) tracks_last [OF assms(1)] by simp
  qed
qed

lemma all_done_last:
  assumes "tracks base ps D t" "set ps \<subseteq> D"
  shows "last_number t = last_of base ps"
proof -
  have "takeWhile (\<lambda>p. p \<in> D) ps = ps" using assms(2) by (auto simp: takeWhile_eq_all_conv)
  with tracks_last [OF assms(1)] show ?thesis by (simp only:)
qed

lemma last_monotone:
  assumes "tracks base ps D t" "tracks base ps D' t'" "D \<subseteq> D'"
  shows "last_number t \<le> last_number t'"
proof -
  let ?T = "takeWhile (\<lambda>p. p \<in> D) ps" and ?T' = "takeWhile (\<lambda>p. p \<in> D') ps"
  have "\<exists>r. ?T' = ?T @ r"
    using assms(3) by (induction ps) auto
  then obtain r where r: "?T' = ?T @ r" by blast
  have "increasing base (?T' @ dropWhile (\<lambda>p. p \<in> D') ps)"
    unfolding takeWhile_dropWhile_id by (rule tracks_increasing [OF assms(1)])
  then have "increasing base (?T @ r)" unfolding r by (rule increasing_prefix)
  then have "last_of base ?T \<le> last_of base (?T @ r)" by (rule increasing_last_of_mono)
  then show ?thesis using tracks_last [OF assms(1)] tracks_last [OF assms(2)] r by simp
qed

end

section \<open>The tracker of the storage meets the specification\<close>

definition tracks_sns :: "int \<Rightarrow> sequence_pair list \<Rightarrow> sequence_pair set \<Rightarrow> sns \<Rightarrow> bool" where
  "tracks_sns base ps D st \<longleftrightarrow> increasing base ps \<and> D \<subseteq> set ps
     \<and> last_sn st = last_of base (takeWhile (\<lambda>p. p \<in> D) ps)
     \<and> outstanding_sns st = dropWhile (\<lambda>p. p \<in> D) ps
     \<and> local_committed_sns st = filter (\<lambda>p. p \<in> D) (outstanding_sns st)"

lemma drain_filter:
  assumes "distinct out"
  shows "drain sn out (filter (\<lambda>p. p \<in> D) out)
    = Some (last_of sn (takeWhile (\<lambda>p. p \<in> D) out), dropWhile (\<lambda>p. p \<in> D) out,
        filter (\<lambda>p. p \<in> D) (dropWhile (\<lambda>p. p \<in> D) out))"
  using assms
proof (induction out arbitrary: sn)
  case Nil
  then show ?case by (simp add: last_of_def)
next
  case (Cons p out)
  show ?case
  proof (cases "p \<in> D")
    case True
    then show ?thesis using Cons by (simp add: last_of_def)
  next
    case False
    then have "p \<notin> set (filter (\<lambda>p. p \<in> D) out)" by simp
    then show ?thesis using False
      by (cases "filter (\<lambda>p. p \<in> D) out") (auto simp: last_of_def)
  qed
qed

lemma set_insert_filter:
  assumes "sorted_wrt (<) (out :: 'a :: linorder list)" "q \<in> set out" "q \<notin> D"
  shows "set_insert q (filter (\<lambda>p. p \<in> D) out) = filter (\<lambda>p. p \<in> insert q D) out"
proof (rule sorted_distinct_set_unique)
  let ?f = "filter (\<lambda>p. p \<in> D) out"
  have s: "sorted_wrt (<) ?f" "sorted_wrt (<) (filter (\<lambda>p. p \<in> insert q D) out)"
    using assms(1) by (simp_all add: sorted_wrt_filter)
  show "sorted (set_insert q ?f)" "distinct (set_insert q ?f)"
    using s(1) assms(3) by (auto simp: set_insert_def sorted_insort strict_sorted_iff distinct_insort)
  show "sorted (filter (\<lambda>p. p \<in> insert q D) out)" "distinct (filter (\<lambda>p. p \<in> insert q D) out)"
    using s(2) unfolding strict_sorted_iff by blast+
  show "set (set_insert q ?f) = set (filter (\<lambda>p. p \<in> insert q D) out)"
    using assms(2) by (auto simp: set_insert_def set_insort_key)
qed

lemma takeWhile_dropWhile_insert:
  assumes "dropWhile (\<lambda>p. p \<in> D) ps = front # rest" "q \<noteq> front"
  shows "takeWhile (\<lambda>p. p \<in> insert q D) ps = takeWhile (\<lambda>p. p \<in> D) ps"
    and "dropWhile (\<lambda>p. p \<in> insert q D) ps = dropWhile (\<lambda>p. p \<in> D) ps"
  using assms by (induction ps) (auto split: if_splits)

lemma takeWhile_dropWhile_front:
  assumes "dropWhile (\<lambda>p. p \<in> D) ps = front # rest" "distinct ps"
  shows "takeWhile (\<lambda>p. p \<in> insert front D) ps
      = takeWhile (\<lambda>p. p \<in> D) ps @ front # takeWhile (\<lambda>p. p \<in> D) rest"
    and "dropWhile (\<lambda>p. p \<in> insert front D) ps = dropWhile (\<lambda>p. p \<in> D) rest"
proof -
  let ?T = "takeWhile (\<lambda>p. p \<in> D) ps"
  have ps: "ps = ?T @ front # rest" using assms(1) takeWhile_dropWhile_id by metis
  have "\<forall>p\<in>set ?T. p \<in> insert front D" by (auto dest: set_takeWhileD)
  moreover have "front \<notin> set rest" using assms(2) ps by (metis distinct.simps(2) distinct_append)
  moreover from this have "takeWhile (\<lambda>p. p \<in> insert front D) rest = takeWhile (\<lambda>p. p \<in> D) rest"
    "dropWhile (\<lambda>p. p \<in> insert front D) rest = dropWhile (\<lambda>p. p \<in> D) rest"
    by (auto intro!: takeWhile_cong dropWhile_cong)
  ultimately have "takeWhile (\<lambda>p. p \<in> insert front D) (?T @ front # rest) = ?T @ front # takeWhile (\<lambda>p. p \<in> D) rest"
    "dropWhile (\<lambda>p. p \<in> insert front D) (?T @ front # rest) = dropWhile (\<lambda>p. p \<in> D) rest"
    by simp_all
  then show "takeWhile (\<lambda>p. p \<in> insert front D) ps = ?T @ front # takeWhile (\<lambda>p. p \<in> D) rest"
    "dropWhile (\<lambda>p. p \<in> insert front D) ps = dropWhile (\<lambda>p. p \<in> D) rest"
    using ps by metis+
qed

lemma last_of_append: "last_of base (a @ p # b) = last_of (snd p) b"
  by (simp add: last_of_def)

lemma filter_insert_notin: "q \<notin> set xs \<Longrightarrow> filter (\<lambda>p. p \<in> insert q D) xs = filter (\<lambda>p. p \<in> D) xs"
  by (rule filter_cong) auto

lemma progress_tracks:
  assumes "tracks_sns base ps D st" "q \<in> set ps" "q \<notin> D"
  shows "\<exists>st'. progressSequencesWithoutLock q st = Some st' \<and> tracks_sns base ps (insert q D) st'
    \<and> prev_sn st' = prev_sn st \<and> local_sn st' = local_sn st"
proof -
  let ?out = "outstanding_sns st"
  have inc: "increasing base ps" and D: "D \<subseteq> set ps"
    and last: "last_sn st = last_of base (takeWhile (\<lambda>p. p \<in> D) ps)"
    and out: "?out = dropWhile (\<lambda>p. p \<in> D) ps" and loc: "local_committed_sns st = filter (\<lambda>p. p \<in> D) ?out"
    using assms(1) unfolding tracks_sns_def by blast+
  have "q \<in> set ?out"
    using assms(2,3) set_takeWhileD [of q "\<lambda>p. p \<in> D" ps] unfolding out
    by (metis Un_iff set_append takeWhile_dropWhile_id)
  then obtain front rest where fr: "?out = front # rest" by (cases ?out) auto
  then have dw: "dropWhile (\<lambda>p. p \<in> D) ps = front # rest" using out by simp
  have so: "sorted_wrt (<) ?out"
    using increasing_sorted [OF inc] unfolding out by (simp add: sorted_wrt_dropWhile)
  show ?thesis
  proof (cases "q = front")
    case False
    have "tracks_sns base ps (insert q D) (st\<lparr>local_committed_sns := set_insert q (local_committed_sns st)\<rparr>)"
      unfolding tracks_sns_def takeWhile_dropWhile_insert [OF dw False]
      using inc D assms(2) last out loc set_insert_filter [OF so \<open>q \<in> set ?out\<close> assms(3)]
      by (simp del: insert_iff)
    then show ?thesis using False fr by (simp add: progressSequencesWithoutLock_def)
  next
    case True
    have dist: "distinct ?out" using so strict_sorted_iff by blast
    have "front \<notin> D" using dw hd_dropWhile [of "\<lambda>p. p \<in> D" ps] by simp
    then have loc': "local_committed_sns st = filter (\<lambda>p. p \<in> D) rest" using loc fr by simp
    have notin: "front \<notin> set (dropWhile (\<lambda>p. p \<in> D) rest)"
      using dist fr by (auto dest: set_dropWhileD)
    have dr: "drain (snd q) rest (local_committed_sns st) = Some (last_of (snd q) (takeWhile (\<lambda>p. p \<in> D) rest),
        dropWhile (\<lambda>p. p \<in> D) rest, filter (\<lambda>p. p \<in> D) (dropWhile (\<lambda>p. p \<in> D) rest))"
      unfolding loc' by (rule drain_filter) (use dist fr in simp)
    let ?st = "st\<lparr>last_sn := last_of (snd q) (takeWhile (\<lambda>p. p \<in> D) rest),
        outstanding_sns := dropWhile (\<lambda>p. p \<in> D) rest,
        local_committed_sns := filter (\<lambda>p. p \<in> D) (dropWhile (\<lambda>p. p \<in> D) rest)\<rparr>"
    note tw = takeWhile_dropWhile_front [OF dw increasing_distinct [OF inc]]
    have "tracks_sns base ps (insert q D) ?st"
      using inc D assms(2) tw True notin unfolding tracks_sns_def
      by (simp add: last_of_append filter_insert_notin del: insert_iff)
    then show ?thesis using True fr dr by (simp add: progressSequencesWithoutLock_def)
  qed
qed

lemma push_tracks:
  assumes "tracks_sns base ps D st" "increasing base (ps @ [p])"
  shows "tracks_sns base (ps @ [p]) D (push_outstanding p st)"
proof -
  have D: "D \<subseteq> set ps" using assms(1) by (simp add: tracks_sns_def)
  have "p \<notin> set ps" using increasing_distinct [OF assms(2)] by simp
  then have p: "p \<notin> D" using D by blast
  have tw: "takeWhile (\<lambda>p. p \<in> D) (ps @ [p]) = takeWhile (\<lambda>p. p \<in> D) ps"
    and dw: "dropWhile (\<lambda>p. p \<in> D) (ps @ [p]) = dropWhile (\<lambda>p. p \<in> D) ps @ [p]"
    using p by (induction ps) auto
  show ?thesis
    using assms D p unfolding tracks_sns_def tw dw by (auto simp: push_outstanding_def)
qed

interpretation sns_tracker: sn_tracker tracks_sns last_sn push_outstanding progressSequencesWithoutLock
proof unfold_locales
  show "tracks_sns base ps D t \<Longrightarrow> increasing base ps" for base ps D t by (simp add: tracks_sns_def)
  show "tracks_sns base ps D t \<Longrightarrow> D \<subseteq> set ps" for base ps D t by (simp add: tracks_sns_def)
  show "tracks_sns base ps D t \<Longrightarrow> last_sn t = last_of base (takeWhile (\<lambda>p. p \<in> D) ps)" for base ps D t
    by (simp add: tracks_sns_def)
  show "tracks_sns base (ps @ [p]) D (push_outstanding p t)"
    if "tracks_sns base ps D t" "increasing base (ps @ [p])" for base ps D t p
    using that by (rule push_tracks)
  show "\<exists>t'. progressSequencesWithoutLock p t = Some t' \<and> tracks_sns base ps (insert p D) t'"
    if "tracks_sns base ps D t" "p \<in> set ps" "p \<notin> D" for base ps D t p
    using progress_tracks [OF that] by blast
qed

lemma tracks_sns_init: "-1 \<le> base \<Longrightarrow> tracks_sns base [] {} (sns_init base)"
  by (auto simp: tracks_sns_def sns_init_def last_of_def increasing_def)

lemma increasing_snoc:
  "increasing base (ps @ [p]) \<longleftrightarrow> increasing base ps \<and> last_of base ps < fst p \<and> fst p \<le> snd p"
proof (cases "ps = []")
  case True
  then show ?thesis by (auto simp: increasing_def last_of_def)
next
  case False
  then obtain qs q where ps: "ps = qs @ [q]" by (metis rev_exhaust)
  show ?thesis
    unfolding ps by (force simp: increasing_def last_of_def sorted_wrt_append list_all_iff)
qed

lemma run_tracker_tracks:
  assumes "tracks_sns base ps (set ds) st" "history_ok base ps ds evs"
  shows "\<exists>st'. run_tracker evs st = Some st'
    \<and> tracks_sns base (ps @ pushed evs) (set ds \<union> set (finished evs)) st'"
  using assms
proof (induction evs arbitrary: ps ds st)
  case Nil
  then show ?case by simp
next
  case (Cons ev evs)
  show ?case
  proof (cases ev)
    case (Pushed p)
    then have "tracks_sns base (ps @ [p]) (set ds) (push_outstanding p st)"
      using Cons.prems by (intro push_tracks) (auto simp: increasing_snoc tracks_sns_def)
    from Cons.IH [OF this] show ?thesis using Cons.prems(2) Pushed by simp
  next
    case (Finished p)
    then obtain st' where "progressSequencesWithoutLock p st = Some st'" "tracks_sns base ps (set (p # ds)) st'"
      using progress_tracks [OF Cons.prems(1), of p] Cons.prems(2) by auto
    then show ?thesis using Cons.IH [of ps "p # ds" st'] Cons.prems(2) Finished
      by (simp add: progressSequences_def)
  qed
qed

text \<open>
  C10.  Whatever the order in which the pool finishes the batches, the bookkeeping of sequence
  numbers never touches an empty queue, and its number \<^verbatim>\<open>last_sn\<close> is the end of the longest prefix
  of consumed batches that are all finished.  In particular every consumed batch at or below
  \<^verbatim>\<open>last_sn\<close> is finished, and the batches that finished early are all among the outstanding ones.
\<close>

theorem tracker_last_sn:
  assumes "-1 \<le> base" "history_ok base [] [] evs"
  shows "\<exists>st. run_tracker evs (sns_init base) = Some st
    \<and> last_sn st = last_of base (takeWhile (\<lambda>p. p \<in> set (finished evs)) (pushed evs))
    \<and> (\<forall>p\<in>set (pushed evs). fst p \<le> last_sn st \<longrightarrow> p \<in> set (finished evs))
    \<and> outstanding_sns st = dropWhile (\<lambda>p. p \<in> set (finished evs)) (pushed evs)
    \<and> set (local_committed_sns st) \<subseteq> set (outstanding_sns st)"
proof -
  obtain st where st: "run_tracker evs (sns_init base) = Some st"
    and tr: "tracks_sns base (pushed evs) (set (finished evs)) st"
    using run_tracker_tracks [of base "[]" "[]" "sns_init base" evs] tracks_sns_init [OF assms(1)] assms(2) by auto
  show ?thesis
    using st tr sns_tracker.last_covers_done [OF tr] by (auto simp: tracks_sns_def)
qed

theorem tracker_last_sn_witness:
  "\<exists>st. run_tracker [Pushed (5, 6), Pushed (7, 9), Pushed (10, 10), Finished (10, 10), Finished (5, 6)] (sns_init 4)
      = Some st \<and> last_sn st = 6 \<and> outstanding_sns st = [(7, 9), (10, 10)]"
  using tracker_last_sn [of 4 "[Pushed (5, 6), Pushed (7, 9), Pushed (10, 10), Finished (10, 10), Finished (5, 6)]"]
  by (auto simp: last_of_def)

end
