(* ===== verification/WAL_Record.thy ===== *)
theory WAL_Record
  imports Daisy_Prelude "HOL-Library.AList"
begin

unbundle bit_operations_syntax

text \<open>
  The records of the write-ahead log: \<^verbatim>\<open>src/src/DistributedWriteAheadLog/OpCodes.h\<close>, \<^verbatim>\<open>Record.h\<close>,
  \<^verbatim>\<open>Record.cpp\<close> and \<^verbatim>\<open>ByteVector.h\<close>.  The column data of a block is written and read by the native
  block streams, with or without LZ4; they are parameters of the two functions that use them.
\<close>

section \<open>Operation codes\<close>

datatype op_code =
    ADD_DATA_BLOCK | ALTER_DATA_BLOCK
  | CREATE_TABLE | DELETE_TABLE | ALTER_TABLE
  | CREATE_COLUMN | DELETE_COLUMN | ALTER_COLUMN
  | CREATE_DATABASE | DELETE_DATABASE
  | CREATE_DICTIONARY | DELETE_DICTIONARY
  | MAX_OPS_CODE
  | UNKNOWN

fun op_byte :: "op_code \<Rightarrow> 8 word" where
  "op_byte ADD_DATA_BLOCK = 0"
| "op_byte ALTER_DATA_BLOCK = 1"
| "op_byte CREATE_TABLE = 2"
| "op_byte DELETE_TABLE = 3"
| "op_byte ALTER_TABLE = 4"
| "op_byte CREATE_COLUMN = 5"
| "op_byte DELETE_COLUMN = 6"
| "op_byte ALTER_COLUMN = 7"
| "op_byte CREATE_DATABASE = 8"
| "op_byte DELETE_DATABASE = 9"
| "op_byte CREATE_DICTIONARY = 10"
| "op_byte DELETE_DICTIONARY = 11"
| "op_byte MAX_OPS_CODE = 12"
| "op_byte UNKNOWN = 0x3F"

definition op_of_nat :: "nat \<Rightarrow> op_code" where
  "op_of_nat n = [ADD_DATA_BLOCK, ALTER_DATA_BLOCK, CREATE_TABLE, DELETE_TABLE, ALTER_TABLE,
     CREATE_COLUMN, DELETE_COLUMN, ALTER_COLUMN, CREATE_DATABASE, DELETE_DATABASE,
     CREATE_DICTIONARY, DELETE_DICTIONARY] ! n"

section \<open>Flags\<close>

abbreviation VERSION :: "64 word" where "VERSION \<equiv> 1"

definition flags_version :: "64 word \<Rightarrow> 64 word" where
  "flags_version flags = flags AND 0x1F"

definition flags_opcode :: "64 word \<Rightarrow> op_code" where
  "flags_opcode flags =
     (let opcode = drop_bit 5 flags AND 0x3F in
      if opcode < ucast (op_byte MAX_OPS_CODE) then op_of_nat (unat opcode) else UNKNOWN)"

definition flags_compression :: "64 word \<Rightarrow> 64 word" where
  "flags_compression flags = drop_bit 11 flags AND 0x01"

definition write_flags :: "op_code \<Rightarrow> bool \<Rightarrow> 64 word" where
  "write_flags op compressed =
     VERSION OR push_bit 5 (ucast (op_byte op)) OR push_bit 11 (if compressed then 1 else 0)"

section \<open>Records\<close>

record 'b wal_record =
  rec_op_code :: op_code
  rec_headers :: "(string \<times> string) list"
  rec_block :: 'b
  rec_topic :: string
  rec_partition_key :: nat
  rec_sn :: int

abbreviation IDEMPOTENT_KEY :: string where "IDEMPOTENT_KEY \<equiv> ''_idem''"

definition hasIdempotentKey :: "'b wal_record \<Rightarrow> bool" where
  "hasIdempotentKey r =
     (case map_of (rec_headers r) IDEMPOTENT_KEY of None \<Rightarrow> False | Some k \<Rightarrow> k \<noteq> [])"

text \<open>\<^verbatim>\<open>headers.at\<close> throws when the key is absent.\<close>

definition idempotentKey :: "'b wal_record \<Rightarrow> string option" where
  "idempotentKey r = map_of (rec_headers r) IDEMPOTENT_KEY"

definition setIdempotentKey :: "string \<Rightarrow> 'b wal_record \<Rightarrow> 'b wal_record" where
  "setIdempotentKey key r = r\<lparr>rec_headers := AList.update IDEMPOTENT_KEY key (rec_headers r)\<rparr>"

definition wal_record_new :: "op_code \<Rightarrow> 'b \<Rightarrow> 'b wal_record" where
  "wal_record_new op b = \<lparr>rec_op_code = op, rec_headers = [], rec_block = b, rec_topic = [],
     rec_partition_key = 0, rec_sn = -1\<rparr>"

text \<open>The flags are the first eight bytes, least significant first.\<close>

definition flags_bytes :: "64 word \<Rightarrow> 8 word list" where
  "flags_bytes w = map (\<lambda>i. ucast (drop_bit (8 * i) w)) [0..<8]"

fun bytes_flags :: "8 word list \<Rightarrow> 64 word" where
  "bytes_flags [] = 0"
| "bytes_flags (b # bs) = ucast b OR push_bit 8 (bytes_flags bs)"

definition record_write ::
    "('b \<Rightarrow> 8 word list) \<Rightarrow> ('b \<Rightarrow> 8 word list) \<Rightarrow> 'b wal_record \<Rightarrow> bool \<Rightarrow> 8 word list" where
  "record_write native native_lz4 r compressed =
     flags_bytes (write_flags (rec_op_code r) compressed)
     @ (if compressed then native_lz4 (rec_block r) else native (rec_block r))"

datatype wal_error = WAL_CANNOT_READ_ALL_DATA | WAL_BLOCK_ERROR

definition record_read ::
    "(8 word list \<Rightarrow> 'b option) \<Rightarrow> (8 word list \<Rightarrow> 'b option) \<Rightarrow> 8 word list \<Rightarrow> (wal_error, 'b wal_record) result" where
  "record_read native native_lz4 data =
     (if length data < 8 then Inl WAL_CANNOT_READ_ALL_DATA
      else
        let flags = bytes_flags (take 8 data); rest = drop 8 data
        in case (if flags_compression flags \<noteq> 0 then native_lz4 rest else native rest) of
             None \<Rightarrow> Inl WAL_BLOCK_ERROR
           | Some b \<Rightarrow> Inr (wal_record_new (flags_opcode flags) b))"

section \<open>The growing buffer\<close>

text \<open>
  \<^verbatim>\<open>ByteVector\<close>: \<open>bv_mem\<close> is the allocated memory; what \<^verbatim>\<open>malloc\<close> returns is arbitrary and is the
  argument \<open>fresh\<close> of an operation that allocates.
\<close>

record byte_vector =
  bv_mem :: "8 word list"
  bv_siz :: nat

definition byte_vector_new :: "8 word list \<Rightarrow> byte_vector" where
  "byte_vector_new fresh = \<lparr>bv_mem = fresh, bv_siz = 0\<rparr>"

definition bv_capacity :: "byte_vector \<Rightarrow> nat" where
  "bv_capacity v = length (bv_mem v)"

definition bv_grow :: "nat \<Rightarrow> nat" where
  "bv_grow new_size = new_size * 3 div 2"

definition bv_resize :: "8 word list \<Rightarrow> nat \<Rightarrow> byte_vector \<Rightarrow> byte_vector" where
  "bv_resize fresh new_size v =
     (if bv_capacity v \<ge> new_size then v\<lparr>bv_siz := new_size\<rparr>
      else \<lparr>bv_mem = take (bv_siz v) (bv_mem v) @ drop (bv_siz v) fresh, bv_siz = new_size\<rparr>)"

section \<open>Properties\<close>

lemma write_flags_eval [simp]:
  "flags_version (write_flags op c) = VERSION"
  "flags_compression (write_flags op c) = (if c then 1 else 0)"
  "flags_opcode (write_flags op c) = (if op = MAX_OPS_CODE then UNKNOWN else op)"
  by (cases op; cases c; simp add: write_flags_def flags_version_def flags_compression_def
      flags_opcode_def op_of_nat_def)+

lemma bytes_flags_bytes: "bytes_flags (flags_bytes w) = w"
proof -
  have "bit (bytes_flags (flags_bytes w)) n = bit w n" if n: "n < 64" for n
  proof -
    have "bit (bytes_flags (flags_bytes w)) n \<longleftrightarrow> bit w n \<and>
      (n < 8 \<or> 8 \<le> n \<and> n < 16 \<or> 16 \<le> n \<and> n < 24 \<or> 24 \<le> n \<and> n < 32
       \<or> 32 \<le> n \<and> n < 40 \<or> 40 \<le> n \<and> n < 48 \<or> 48 \<le> n \<and> n < 56 \<or> 56 \<le> n)"
      using n
      by (simp add: flags_bytes_def upt_rec bit_or_iff bit_push_bit_iff bit_ucast_iff bit_drop_bit_eq
            less_diff_conv2 cong: conj_cong) blast
    then show ?thesis by linarith
  qed
  then show ?thesis by (auto intro: bit_word_eqI)
qed

text \<open>
  C29.  A record survives the log.  Whatever byte sequences the native block streams produce, if
  reading the bytes they wrote gives the block back, then reading a written record gives its
  operation code and its block, compressed or not.  The code 12, which is only the bound of the
  enumeration, is read as unknown; the headers, the topic and the number travel outside the data.
\<close>

theorem record_roundtrip:
  assumes "\<And>b. dec (enc b) = Some b" "\<And>b. dec_lz4 (enc_lz4 b) = Some b"
  shows "record_read dec dec_lz4 (record_write enc enc_lz4 r compressed)
    = Inr (wal_record_new (if rec_op_code r = MAX_OPS_CODE then UNKNOWN else rec_op_code r) (rec_block r))"
proof -
  have "length (flags_bytes w) = 8" for w by (simp add: flags_bytes_def)
  then show ?thesis
    using assms by (simp add: record_read_def record_write_def Let_def bytes_flags_bytes)
qed

theorem record_roundtrip_witness:
  "record_read Some (\<lambda>bs. Some (rev bs)) (record_write id rev (wal_record_new CREATE_TABLE [7, 8]) True)
    = Inr (wal_record_new CREATE_TABLE [7, 8])"
  using record_roundtrip [of Some id "\<lambda>bs. Some (rev bs)" rev "wal_record_new CREATE_TABLE [7, 8]" True]
  by (simp add: wal_record_new_def)

text \<open>
  The buffer keeps its contents when it grows, and it never reports more bytes than it has.
\<close>

definition bv_wf :: "byte_vector \<Rightarrow> bool" where
  "bv_wf v \<longleftrightarrow> bv_siz v \<le> bv_capacity v"

lemma bv_resize_wf:
  assumes "bv_wf v" "length fresh = bv_grow new_size"
  shows "bv_wf (bv_resize fresh new_size v)"
  using assms by (auto simp: bv_wf_def bv_resize_def bv_capacity_def bv_grow_def)

lemma bv_resize_keeps:
  assumes "bv_wf v" "length fresh = bv_grow new_size" "i < bv_siz v" "i < new_size"
  shows "bv_mem (bv_resize fresh new_size v) ! i = bv_mem v ! i"
  using assms by (auto simp: bv_wf_def bv_resize_def bv_capacity_def nth_append)

end
