(* ===== verification/Idempotent_Keys.thy ===== *)
theory Idempotent_Keys
  imports WAL_Record
begin

text \<open>
  Deduplication in \<^verbatim>\<open>StorageDistributedMergeTree\<close>: a deque of the last idempotent keys and an index
  over it (\<^verbatim>\<open>buildIdempotentKeysIndex\<close>, \<^verbatim>\<open>addIdempotentKey\<close>, \<^verbatim>\<open>dedupBlock\<close>).  \<open>max_ids\<close> is the setting
  \<^verbatim>\<open>max_idempotent_ids\<close>.
\<close>

section \<open>Operations\<close>

record dedup =
  idempotent_keys_deque :: "string list"
  idempotent_keys_index :: "string set"

definition buildIdempotentKeysIndex :: "string list \<Rightarrow> dedup" where
  "buildIdempotentKeysIndex ks = \<lparr>idempotent_keys_deque = ks, idempotent_keys_index = set ks\<rparr>"

text \<open>With a maximum of zero \<^verbatim>\<open>front()\<close> is called on an empty deque, which is undefined.\<close>

definition addIdempotentKey :: "nat \<Rightarrow> string \<Rightarrow> dedup \<Rightarrow> dedup option" where
  "addIdempotentKey max_ids key st =
     (if length (idempotent_keys_deque st) \<ge> max_ids
      then (case idempotent_keys_deque st of
              [] \<Rightarrow> None
            | front # rest \<Rightarrow>
                Some \<lparr>idempotent_keys_deque = rest @ [key],
                      idempotent_keys_index = insert key (idempotent_keys_index st - {front})\<rparr>)
      else Some \<lparr>idempotent_keys_deque = idempotent_keys_deque st @ [key],
                 idempotent_keys_index = insert key (idempotent_keys_index st)\<rparr>)"

definition dedupBlock :: "nat \<Rightarrow> 'b wal_record \<Rightarrow> dedup \<Rightarrow> (bool \<times> dedup) option" where
  "dedupBlock max_ids r st =
     (if \<not> hasIdempotentKey r then Some (False, st)
      else (case idempotentKey r of
              None \<Rightarrow> None
            | Some key \<Rightarrow>
                if key \<in> idempotent_keys_index st then Some (True, st)
                else map_option (Pair False) (addIdempotentKey max_ids key st)))"

fun dedup_run :: "nat \<Rightarrow> 'b wal_record list \<Rightarrow> dedup \<Rightarrow> (bool list \<times> dedup) option" where
  "dedup_run max_ids [] st = Some ([], st)"
| "dedup_run max_ids (r # rs) st =
     (case dedupBlock max_ids r st of
        None \<Rightarrow> None
      | Some (dup, st') \<Rightarrow> map_option (\<lambda>(ds, st''). (dup # ds, st'')) (dedup_run max_ids rs st'))"

section \<open>Specification\<close>

text \<open>
  The window: a record is a duplicate when it has a non-empty key that is among the last \<open>n\<close>
  accepted keys; a key of a record that is not a duplicate is accepted.
\<close>

definition last_n :: "nat \<Rightarrow> 'a list \<Rightarrow> 'a list" where
  "last_n n xs = drop (length xs - n) xs"

definition key_of :: "'b wal_record \<Rightarrow> string option" where
  "key_of r = (case map_of (rec_headers r) IDEMPOTENT_KEY of None \<Rightarrow> None | Some k \<Rightarrow> if k = [] then None else Some k)"

fun window_run :: "nat \<Rightarrow> string list \<Rightarrow> 'b wal_record list \<Rightarrow> bool list \<times> string list" where
  "window_run n accepted [] = ([], accepted)"
| "window_run n accepted (r # rs) =
     (case key_of r of
        None \<Rightarrow> (let (ds, a) = window_run n accepted rs in (False # ds, a))
      | Some k \<Rightarrow>
          if k \<in> set (last_n n accepted)
          then (let (ds, a) = window_run n accepted rs in (True # ds, a))
          else (let (ds, a) = window_run n (accepted @ [k]) rs in (False # ds, a)))"

section \<open>Lemmas\<close>

lemma length_last_n [simp]: "length (last_n n xs) = min n (length xs)"
  by (simp add: last_n_def min_def)

lemma last_n_snoc:
  assumes "0 < n"
  shows "last_n n (xs @ [x]) = (if length xs < n then last_n n xs @ [x] else tl (last_n n xs) @ [x])"
proof (cases "length xs < n")
  case True
  then show ?thesis by (simp add: last_n_def)
next
  case False
  then have "length (xs @ [x]) - n = Suc (length xs - n)" by simp
  moreover have "drop (Suc (length xs - n)) xs = tl (drop (length xs - n) xs)" by (simp add: drop_Suc tl_drop)
  ultimately show ?thesis using False assms by (simp add: last_n_def)
qed

definition dedup_window :: "nat \<Rightarrow> string list \<Rightarrow> dedup \<Rightarrow> bool" where
  "dedup_window n accepted st \<longleftrightarrow> idempotent_keys_deque st = last_n n accepted
     \<and> idempotent_keys_index st = set (last_n n accepted) \<and> distinct (last_n n accepted)"

lemma hasIdempotentKey_key_of: "hasIdempotentKey r \<longleftrightarrow> key_of r \<noteq> None"
  by (auto simp: hasIdempotentKey_def key_of_def split: option.splits)

lemma idempotentKey_key_of: "key_of r = Some k \<Longrightarrow> idempotentKey r = Some k"
  by (auto simp: idempotentKey_def key_of_def split: option.splits if_splits)

lemma addIdempotentKey_window:
  assumes "0 < n" "dedup_window n accepted st" "k \<notin> set (last_n n accepted)"
  shows "\<exists>st'. addIdempotentKey n k st = Some st' \<and> dedup_window n (accepted @ [k]) st'"
proof (cases "length accepted < n")
  case True
  then show ?thesis
    using assms by (auto simp: addIdempotentKey_def dedup_window_def last_n_snoc)
next
  case False
  then have "length (last_n n accepted) = n" by simp
  then obtain f rest where fr: "last_n n accepted = f # rest" using assms(1) by (cases "last_n n accepted") auto
  then have "last_n n (accepted @ [k]) = rest @ [k]" using False assms(1) by (simp add: last_n_snoc)
  then show ?thesis
    using assms fr \<open>length (last_n n accepted) = n\<close> by (auto simp: addIdempotentKey_def dedup_window_def)
qed

lemma dedupBlock_window:
  assumes "0 < n" "dedup_window n accepted st"
  shows "\<exists>st'. dedupBlock n r st =
      Some (case key_of r of None \<Rightarrow> False | Some k \<Rightarrow> k \<in> set (last_n n accepted), st')
    \<and> dedup_window n (case key_of r of None \<Rightarrow> accepted
        | Some k \<Rightarrow> if k \<in> set (last_n n accepted) then accepted else accepted @ [k]) st'"
proof (cases "key_of r")
  case None
  then show ?thesis using assms(2) by (simp add: dedupBlock_def hasIdempotentKey_key_of)
next
  case (Some k)
  have ix: "idempotent_keys_index st = set (last_n n accepted)" using assms(2) by (simp add: dedup_window_def)
  show ?thesis
  proof (cases "k \<in> set (last_n n accepted)")
    case True
    then show ?thesis
      using Some assms(2) ix by (simp add: dedupBlock_def hasIdempotentKey_key_of idempotentKey_key_of)
  next
    case False
    then show ?thesis
      using Some ix addIdempotentKey_window [OF assms False]
      by (auto simp: dedupBlock_def hasIdempotentKey_key_of idempotentKey_key_of)
  qed
qed

lemma dedup_run_window:
  assumes "0 < n" "dedup_window n accepted st"
  shows "\<exists>st'. dedup_run n rs st = Some (fst (window_run n accepted rs), st')
    \<and> dedup_window n (snd (window_run n accepted rs)) st'"
  using assms(2)
proof (induction rs arbitrary: accepted st)
  case Nil
  then show ?case by simp
next
  case (Cons r rs)
  let ?acc = "case key_of r of None \<Rightarrow> accepted
        | Some k \<Rightarrow> if k \<in> set (last_n n accepted) then accepted else accepted @ [k]"
  let ?dup = "case key_of r of None \<Rightarrow> False | Some k \<Rightarrow> k \<in> set (last_n n accepted)"
  obtain st1 where st1: "dedupBlock n r st = Some (?dup, st1)" "dedup_window n ?acc st1"
    using dedupBlock_window [OF assms(1) Cons.prems] by blast
  obtain st2 where st2: "dedup_run n rs st1 = Some (fst (window_run n ?acc rs), st2)"
    "dedup_window n (snd (window_run n ?acc rs)) st2"
    using Cons.IH [OF st1(2)] by blast
  have "window_run n accepted (r # rs) = (?dup # fst (window_run n ?acc rs), snd (window_run n ?acc rs))"
    by (auto split: option.split simp: case_prod_beta)
  then show ?case using st1(1) st2 by simp
qed

text \<open>
  C27.  Deduplication implements the window.  Started from at most \<open>n\<close> distinct keys, with a
  positive maximum \<open>n\<close>, the deque and its index decide for every sequence of records exactly as the
  specification does: a record is dropped when its key is among the last \<open>n\<close> accepted keys, and
  otherwise its key is accepted; the deque holds the last \<open>n\<close> accepted keys and the index is the
  set of them, so no erased or repeated key is left behind in the index.
\<close>

theorem dedup_refines_window:
  assumes "0 < n" "distinct ks" "length ks \<le> n"
  shows "\<exists>st. dedup_run n rs (buildIdempotentKeysIndex ks) = Some (fst (window_run n ks rs), st)
    \<and> idempotent_keys_deque st = last_n n (snd (window_run n ks rs))
    \<and> idempotent_keys_index st = set (idempotent_keys_deque st)
    \<and> distinct (idempotent_keys_deque st)"
proof -
  have "dedup_window n ks (buildIdempotentKeysIndex ks)"
    using assms(2,3) by (simp add: dedup_window_def buildIdempotentKeysIndex_def last_n_def)
  from dedup_run_window [OF assms(1) this, of rs] show ?thesis unfolding dedup_window_def by metis
qed

abbreviation keyed :: "string \<Rightarrow> unit wal_record" where
  "keyed k \<equiv> setIdempotentKey k (wal_record_new ADD_DATA_BLOCK ())"

theorem dedup_refines_window_witness:
  "\<exists>st. dedup_run 2 [keyed ''a'', keyed ''b'', keyed ''a'', keyed ''c'', keyed ''a''] (buildIdempotentKeysIndex [''z''])
      = Some ([False, False, True, False, False], st) \<and> idempotent_keys_deque st = [''c'', ''a'']"
proof -
  let ?rs = "[keyed ''a'', keyed ''b'', keyed ''a'', keyed ''c'', keyed ''a'']"
  have w: "window_run 2 [''z''] ?rs = ([False, False, True, False, False], [''z'', ''a'', ''b'', ''c'', ''a''])"
    by code_simp
  have l: "last_n 2 [''z'', ''a'', ''b'', ''c'', ''a''] = [''c'', ''a'']" by (simp add: last_n_def)
  have "(0::nat) < 2" "distinct [''z'']" "length [''z''] \<le> 2" by simp_all
  from dedup_refines_window [OF this, of ?rs] show ?thesis unfolding w fst_conv snd_conv l by blast
qed

end
