(* ===== verification/Commit_Pipeline.thy ===== *)
theory Commit_Pipeline
  imports Sequence_Tracker Idempotent_Keys Sequence_Ranges
begin

text \<open>
  From consumed records to parts on disk: \<^verbatim>\<open>commit\<close>, \<^verbatim>\<open>mergeBlocks\<close> and \<^verbatim>\<open>doCommit\<close> of
  \<^verbatim>\<open>src/src/Storages/DistributedMergeTree/StorageDistributedMergeTree.cpp\<close>, and the tasks that
  \<^verbatim>\<open>doCommit\<close> hands to the thread pool.
\<close>

section \<open>Blocks\<close>

text \<open>A block is a list of named columns; \<open>col_default\<close> is the default value of the column's type.\<close>

record 'v column =
  col_name :: string
  col_default :: 'v
  col_cells :: "'v list"

type_synonym 'v block = "'v column list"

fun block_rows :: "'v block \<Rightarrow> nat" where
  "block_rows [] = 0"
| "block_rows (c # cs) = length (col_cells c)"

definition findByName :: "string \<Rightarrow> 'v block \<Rightarrow> 'v column option" where
  "findByName name b = find (\<lambda>c. col_name c = name) b"

definition checkNumberOfRows :: "'v block \<Rightarrow> bool" where
  "checkNumberOfRows b \<longleftrightarrow> list_all (\<lambda>c. length (col_cells c) = block_rows b) b"

fun append_cells :: "string \<Rightarrow> 'v list \<Rightarrow> 'v block \<Rightarrow> 'v block" where
  "append_cells name vs [] = []"
| "append_cells name vs (c # cs) =
     (if col_name c = name then c\<lparr>col_cells := col_cells c @ vs\<rparr> # cs else c # append_cells name vs cs)"

definition merge_column :: "nat \<Rightarrow> 'v column \<Rightarrow> 'v block \<Rightarrow> 'v block" where
  "merge_column lhs_rows rhs_col lhs =
     (let lhs' = (case findByName (col_name rhs_col) lhs of
                    None \<Rightarrow> lhs @ [rhs_col\<lparr>col_cells := replicate lhs_rows (col_default rhs_col)\<rparr>]
                  | Some _ \<Rightarrow> lhs)
      in append_cells (col_name rhs_col) (col_cells rhs_col) lhs')"

datatype commit_error = NOT_IMPLEMENTED | SIZES_OF_COLUMNS_DOESNT_MATCH

definition mergeBlocks :: "'v block \<Rightarrow> 'v block \<Rightarrow> (commit_error, 'v block) result" where
  "mergeBlocks lhs rhs =
     (let lhs' = fold (merge_column (block_rows lhs)) rhs lhs
      in if checkNumberOfRows lhs' then Inr lhs' else Inl SIZES_OF_COLUMNS_DOESNT_MATCH)"

section \<open>Committing records\<close>

text \<open>
  The loop of \<^verbatim>\<open>commit\<close>.  An exception ends it, and the keys that were added to the index before
  stay there; the outer option is undefined behaviour of the deque.
\<close>

type_synonym 'v commit_acc = "'v block \<times> idempotent_key list \<times> dedup"

fun commit_loop ::
    "nat \<Rightarrow> 'v block wal_record list \<Rightarrow> 'v commit_acc \<Rightarrow> (commit_error option \<times> 'v commit_acc) option" where
  "commit_loop max_ids [] acc = Some (None, acc)"
| "commit_loop max_ids (r # rs) (block, keys, dd) =
     (if rec_op_code r = ADD_DATA_BLOCK then
        (case dedupBlock max_ids r dd of
           None \<Rightarrow> None
         | Some (True, dd') \<Rightarrow> commit_loop max_ids rs (block, keys, dd')
         | Some (False, dd') \<Rightarrow>
             (case (if block \<noteq> [] then mergeBlocks block (rec_block r) else Inr (rec_block r)) of
                Inl e \<Rightarrow> Some (Some e, (block, keys, dd'))
              | Inr block' \<Rightarrow>
                  commit_loop max_ids rs
                    (block',
                     (case idempotentKey r of
                        Some k \<Rightarrow> if hasIdempotentKey r then keys @ [(rec_sn r, k)] else keys
                      | None \<Rightarrow> keys), dd')))
      else if rec_op_code r = ALTER_DATA_BLOCK then Some (Some NOT_IMPLEMENTED, (block, keys, dd))
      else commit_loop max_ids rs (block, keys, dd))"

record 'v task =
  task_block :: "'v block"
  task_seq :: sequence_pair
  task_keys :: "idempotent_key list"
  task_missing :: "sequence_range list"

text \<open>
  The storage: the bookkeeping of numbers, the committed numbers, the deduplication state, the
  tasks of the pool (waiting for or in the middle of their write; written but not yet reported;
  ended without a write because the storage stopped), and the stop flag.  The last three fields are
  history variables: what was consumed, what reached the disk, and the batches of which nothing
  was left to write after deduplication.
\<close>

record 'v storage =
  st_sns :: sns
  st_committed :: committed_sns
  st_dedup :: dedup
  st_pending :: "'v task list"
  st_written :: "'v task list"
  st_abandoned :: "'v task list"
  st_stopped :: bool
  st_consumed :: "sequence_pair list"
  st_persisted :: "sequence_pair list"
  st_deduped :: "sequence_pair list"

text \<open>The constructor: \<open>sn\<close> is the committed number of the local table, \<open>ks\<close> its newest keys.\<close>

definition storage_init :: "int \<Rightarrow> string list \<Rightarrow> committed_sns \<Rightarrow> 'v storage" where
  "storage_init sn ks c = \<lparr>st_sns = sns_init sn, st_committed = c, st_dedup = buildIdempotentKeysIndex ks,
     st_pending = [], st_written = [], st_abandoned = [], st_stopped = False,
     st_consumed = [], st_persisted = [], st_deduped = []\<rparr>"

definition lift_sns :: "(sns \<times> committed_sns \<Rightarrow> sns \<times> committed_sns) \<Rightarrow> 'v storage \<Rightarrow> 'v storage" where
  "lift_sns f st = (case f (st_sns st, st_committed st) of (s, c) \<Rightarrow> st\<lparr>st_sns := s, st_committed := c\<rparr>)"

definition doCommit ::
    "bool \<Rightarrow> bool \<Rightarrow> 'v block \<Rightarrow> sequence_pair \<Rightarrow> idempotent_key list \<Rightarrow> sequence_range list
      \<Rightarrow> 'v storage \<Rightarrow> 'v storage option" where
  "doCommit ok_local ok_remote block seq keys missing st =
     (let st1 = st\<lparr>st_sns := push_outstanding seq (st_sns st), st_consumed := st_consumed st @ [seq]\<rparr>
      in if block = [] then
           map_option (\<lambda>s. st1\<lparr>st_sns := s, st_deduped := seq # st_deduped st1\<rparr>)
             (progressSequencesWithoutLock seq (st_sns st1))
         else
           Some (lift_sns (commitSN_dist ok_local ok_remote)
             (st1\<lparr>st_pending := st_pending st1 @
                [\<lparr>task_block = block, task_seq = seq, task_keys = keys, task_missing = missing\<rparr>]\<rparr>)))"

definition commit ::
    "nat \<Rightarrow> bool \<Rightarrow> bool \<Rightarrow> 'v block wal_record list \<Rightarrow> sequence_range list \<Rightarrow> 'v storage
      \<Rightarrow> (commit_error option \<times> 'v storage) option" where
  "commit max_ids ok_local ok_remote records missing st =
     (if records = [] then Some (None, st)
      else
        case commit_loop max_ids records ([], [], st_dedup st) of
          None \<Rightarrow> None
        | Some (Some e, (_, _, dd)) \<Rightarrow> Some (Some e, st\<lparr>st_dedup := dd\<rparr>)
        | Some (None, (block, keys, dd)) \<Rightarrow>
            map_option (Pair None)
              (doCommit ok_local ok_remote block (rec_sn (hd records), rec_sn (last records)) keys missing
                 (st\<lparr>st_dedup := dd\<rparr>)))"

text \<open>
  The task: \<^verbatim>\<open>while (!stopped.test())\<close> it tries to write; a failed try has no effect here and is
  repeated.  The loop ends after a successful write or when the flag is seen, and then the batch is
  reported finished in both cases.
\<close>

definition task_write :: "'v task \<Rightarrow> 'v storage \<Rightarrow> 'v storage" where
  "task_write t st = st\<lparr>st_pending := removeAll t (st_pending st), st_written := t # st_written st,
     st_persisted := task_seq t # st_persisted st\<rparr>"

definition task_stop :: "'v task \<Rightarrow> 'v storage \<Rightarrow> 'v storage" where
  "task_stop t st = st\<lparr>st_pending := removeAll t (st_pending st), st_abandoned := t # st_abandoned st\<rparr>"

definition task_report :: "'v task \<Rightarrow> 'v storage \<Rightarrow> 'v storage option" where
  "task_report t st = map_option (\<lambda>s. st\<lparr>st_sns := s, st_written := removeAll t (st_written st),
       st_abandoned := removeAll t (st_abandoned st)\<rparr>)
     (progressSequences (task_seq t) (st_sns st))"

section \<open>Runs of the storage\<close>

text \<open>
  Records are consumed in the order of their numbers (\<open>base\<close> is the number the storage started
  from); everything else happens in any order.
\<close>

definition next_batch :: "int \<Rightarrow> 'v block wal_record list \<Rightarrow> 'v storage \<Rightarrow> bool" where
  "next_batch base rs st \<longleftrightarrow> rs \<noteq> [] \<and> sorted_wrt (\<lambda>a b. rec_sn a < rec_sn b) rs
     \<and> last_of base (st_consumed st) < rec_sn (hd rs)"

inductive storage_step :: "nat \<Rightarrow> int \<Rightarrow> 'v storage \<Rightarrow> 'v storage \<Rightarrow> bool" for max_ids base where
  Consume: "next_batch base rs st \<Longrightarrow> commit max_ids okl okr rs missing st = Some (e, st')
    \<Longrightarrow> storage_step max_ids base st st'"
| Write: "t \<in> set (st_pending st) \<Longrightarrow> storage_step max_ids base st (task_write t st)"
| Abandon: "t \<in> set (st_pending st) \<Longrightarrow> st_stopped st \<Longrightarrow> storage_step max_ids base st (task_stop t st)"
| Report: "t \<in> set (st_written st) \<union> set (st_abandoned st) \<Longrightarrow> task_report t st = Some st'
    \<Longrightarrow> storage_step max_ids base st st'"
| Periodic: "storage_step max_ids base st (lift_sns (periodicallyCommit okl okr) st)"
| Stop: "storage_step max_ids base st (st\<lparr>st_stopped := True\<rparr>)"
| Final: "st_stopped st \<Longrightarrow> storage_step max_ids base st (lift_sns (finalCommit okl okr okf) st)"

inductive_cases storage_stepE: "storage_step max_ids base st st'"

section \<open>Invariant\<close>

definition tasks :: "'v storage \<Rightarrow> 'v task list" where
  "tasks st = st_pending st @ st_written st @ st_abandoned st"

definition reported :: "'v storage \<Rightarrow> sequence_pair set" where
  "reported st = set (st_consumed st) - task_seq ` set (tasks st)"

definition storage_inv :: "int \<Rightarrow> 'v storage \<Rightarrow> bool" where
  "storage_inv base st \<longleftrightarrow>
     tracks_sns base (st_consumed st) (reported st) (st_sns st)
     \<and> distinct (map task_seq (tasks st))
     \<and> task_seq ` set (tasks st) \<subseteq> set (st_consumed st)
     \<and> task_seq ` set (st_written st) \<subseteq> set (st_persisted st)
     \<and> (\<not> st_stopped st \<longrightarrow> st_abandoned st = []
          \<and> reported st \<subseteq> set (st_persisted st) \<union> set (st_deduped st))
     \<and> local_sn (st_sns st) \<le> last_sn (st_sns st)
     \<and> prev_sn (st_sns st) \<le> last_sn (st_sns st)
     \<and> file_sn (st_committed st) \<le> last_sn (st_sns st)
     \<and> remote_sn (st_committed st) \<le> last_sn (st_sns st)"

lemma storage_invI:
  assumes "tracks_sns base (st_consumed st) (reported st) (st_sns st)"
    "distinct (map task_seq (tasks st))" "task_seq ` set (tasks st) \<subseteq> set (st_consumed st)"
    "task_seq ` set (st_written st) \<subseteq> set (st_persisted st)"
    "\<not> st_stopped st \<Longrightarrow> st_abandoned st = []"
    "\<not> st_stopped st \<Longrightarrow> reported st \<subseteq> set (st_persisted st) \<union> set (st_deduped st)"
    "local_sn (st_sns st) \<le> last_sn (st_sns st)" "prev_sn (st_sns st) \<le> last_sn (st_sns st)"
    "file_sn (st_committed st) \<le> last_sn (st_sns st)" "remote_sn (st_committed st) \<le> last_sn (st_sns st)"
  shows "storage_inv base st"
  using assms unfolding storage_inv_def by blast

lemma storage_invD:
  assumes "storage_inv base st"
  shows "tracks_sns base (st_consumed st) (reported st) (st_sns st)"
    "distinct (map task_seq (tasks st))" "task_seq ` set (tasks st) \<subseteq> set (st_consumed st)"
    "task_seq ` set (st_written st) \<subseteq> set (st_persisted st)"
    "\<not> st_stopped st \<Longrightarrow> st_abandoned st = []"
    "\<not> st_stopped st \<Longrightarrow> reported st \<subseteq> set (st_persisted st) \<union> set (st_deduped st)"
    "local_sn (st_sns st) \<le> last_sn (st_sns st)" "prev_sn (st_sns st) \<le> last_sn (st_sns st)"
    "file_sn (st_committed st) \<le> last_sn (st_sns st)" "remote_sn (st_committed st) \<le> last_sn (st_sns st)"
  using assms unfolding storage_inv_def by blast+

text \<open>The commits only move the committed numbers up to \<^verbatim>\<open>last_sn\<close>.\<close>

definition commits_ok :: "(sns \<times> committed_sns \<Rightarrow> sns \<times> committed_sns) \<Rightarrow> bool" where
  "commits_ok f \<longleftrightarrow> (\<forall>x. last_sn (fst (f x)) = last_sn (fst x)
     \<and> outstanding_sns (fst (f x)) = outstanding_sns (fst x)
     \<and> local_committed_sns (fst (f x)) = local_committed_sns (fst x)
     \<and> local_sn (fst (f x)) \<in> {local_sn (fst x), last_sn (fst x)}
     \<and> prev_sn (fst (f x)) \<in> {prev_sn (fst x), last_sn (fst x)}
     \<and> file_sn (snd (f x)) \<in> {file_sn (snd x), last_sn (fst x)}
     \<and> remote_sn (snd (f x)) \<in> {remote_sn (snd x), last_sn (fst x)})"

lemma commits_okD:
  assumes "commits_ok f"
  shows "last_sn (fst (f x)) = last_sn (fst x)"
    "outstanding_sns (fst (f x)) = outstanding_sns (fst x)"
    "local_committed_sns (fst (f x)) = local_committed_sns (fst x)"
    "local_sn (fst (f x)) = local_sn (fst x) \<or> local_sn (fst (f x)) = last_sn (fst x)"
    "prev_sn (fst (f x)) = prev_sn (fst x) \<or> prev_sn (fst (f x)) = last_sn (fst x)"
    "file_sn (snd (f x)) = file_sn (snd x) \<or> file_sn (snd (f x)) = last_sn (fst x)"
    "remote_sn (snd (f x)) = remote_sn (snd x) \<or> remote_sn (snd (f x)) = last_sn (fst x)"
  using assms unfolding commits_ok_def by blast+

lemma commitSN_dist_ok: "commits_ok (commitSN_dist okl okr)"
  by (auto simp: commits_ok_def commitSN_dist_def commitSNLocal_def commitSNRemote_def Let_def)

lemma periodicallyCommit_ok: "commits_ok (periodicallyCommit okl okr)"
  by (auto simp: commits_ok_def periodicallyCommit_def commitSNLocal_def commitSNRemote_def Let_def)

lemma finalCommit_ok: "commits_ok (finalCommit okl okr okf)"
  unfolding commits_ok_def
proof (intro allI)
  fix x
  let ?y = "commitSN_dist okl okr x"
  note f = commits_okD [OF commitSN_dist_ok [of okl okr], of x]
  have "finalCommit okl okr okf x = ?y \<or> finalCommit okl okr okf x
      = ((fst ?y)\<lparr>local_sn := last_sn (fst ?y)\<rparr>, (snd ?y)\<lparr>file_sn := last_sn (fst ?y)\<rparr>)"
    by (cases "last_sn (fst ?y) = local_sn (fst ?y)"; cases okf)
       (simp_all add: finalCommit_def Let_def commitSNLocal_def)
  then show "last_sn (fst (finalCommit okl okr okf x)) = last_sn (fst x)
     \<and> outstanding_sns (fst (finalCommit okl okr okf x)) = outstanding_sns (fst x)
     \<and> local_committed_sns (fst (finalCommit okl okr okf x)) = local_committed_sns (fst x)
     \<and> local_sn (fst (finalCommit okl okr okf x)) \<in> {local_sn (fst x), last_sn (fst x)}
     \<and> prev_sn (fst (finalCommit okl okr okf x)) \<in> {prev_sn (fst x), last_sn (fst x)}
     \<and> file_sn (snd (finalCommit okl okr okf x)) \<in> {file_sn (snd x), last_sn (fst x)}
     \<and> remote_sn (snd (finalCommit okl okr okf x)) \<in> {remote_sn (snd x), last_sn (fst x)}"
    using f by (elim disjE) simp_all
qed

lemma tracks_sns_cong:
  "tracks_sns base ps D s \<Longrightarrow> last_sn s' = last_sn s \<Longrightarrow> outstanding_sns s' = outstanding_sns s
    \<Longrightarrow> local_committed_sns s' = local_committed_sns s \<Longrightarrow> tracks_sns base ps D s'"
  by (simp add: tracks_sns_def)

lemma lift_sns_inv:
  assumes "commits_ok f" "storage_inv base st"
  shows "storage_inv base (lift_sns f st)"
proof -
  obtain s c where sc: "f (st_sns st, st_committed st) = (s, c)" by fastforce
  note f = commits_okD [OF assms(1), of "(st_sns st, st_committed st)", unfolded sc fst_conv snd_conv]
  have eq: "lift_sns f st = st\<lparr>st_sns := s, st_committed := c\<rparr>" using sc by (simp add: lift_sns_def)
  note inv = storage_invD [OF assms(2)]
  show ?thesis
    unfolding eq
  proof (rule storage_invI)
    show "tracks_sns base (st_consumed (st\<lparr>st_sns := s, st_committed := c\<rparr>))
        (reported (st\<lparr>st_sns := s, st_committed := c\<rparr>)) (st_sns (st\<lparr>st_sns := s, st_committed := c\<rparr>))"
      using tracks_sns_cong [OF inv(1) f(1-3)] by (simp add: reported_def tasks_def)
  qed (use f inv in \<open>auto simp: reported_def tasks_def\<close>)
qed

lemma move_distinct:
  assumes "distinct (map f (a @ b))" "t \<in> set a"
  shows "distinct (map f (removeAll t a @ t # b))"
proof -
  obtain a1 a2 where a: "a = a1 @ t # a2" using assms(2) by (meson split_list)
  have "distinct a" using assms(1) by (simp add: distinct_map)
  then have "removeAll t a = a1 @ a2" unfolding a by (auto simp: removeAll_id)
  then show ?thesis using assms(1) unfolding a by auto
qed

lemma task_write_inv:
  assumes "storage_inv base st" "t \<in> set (st_pending st)"
  shows "storage_inv base (task_write t st)"
proof -
  note inv = storage_invD [OF assms(1)]
  let ?st = "task_write t st"
  have set_eq: "set (tasks ?st) = set (tasks st)" using assms(2) by (auto simp: tasks_def task_write_def)
  then have rep: "reported ?st = reported st" by (simp add: reported_def task_write_def)
  have "distinct (map task_seq (tasks ?st))"
    using move_distinct [of task_seq "st_pending st" "st_written st @ st_abandoned st" t] inv(2) assms(2)
    by (simp add: tasks_def task_write_def)
  moreover have "task_seq ` set (tasks ?st) \<subseteq> set (st_consumed ?st)"
    using inv(3) unfolding set_eq by (simp add: task_write_def)
  ultimately show ?thesis
    using inv unfolding storage_inv_def rep by (auto simp: task_write_def)
qed

lemma task_stop_inv:
  assumes "storage_inv base st" "t \<in> set (st_pending st)" "st_stopped st"
  shows "storage_inv base (task_stop t st)"
proof -
  note inv = storage_invD [OF assms(1)]
  let ?st = "task_stop t st"
  have set_eq: "set (tasks ?st) = set (tasks st)" using assms(2) by (auto simp: tasks_def task_stop_def)
  then have rep: "reported ?st = reported st" by (simp add: reported_def task_stop_def)
  have "mset (tasks ?st) = mset (removeAll t (st_pending st) @ t # st_written st @ st_abandoned st)"
    by (simp add: tasks_def task_stop_def)
  then have "distinct (map task_seq (tasks ?st))"
    using move_distinct [of task_seq "st_pending st" "st_written st @ st_abandoned st" t] inv(2) assms(2)
    by (metis mset_eq_imp_distinct_iff mset_map tasks_def)
  moreover have "task_seq ` set (tasks ?st) \<subseteq> set (st_consumed ?st)"
    using inv(3) unfolding set_eq by (simp add: task_stop_def)
  ultimately show ?thesis
    using inv assms(3) unfolding storage_inv_def rep by (auto simp: task_stop_def)
qed

lemma reported_remove:
  assumes "distinct (map task_seq ts)" "t \<in> set ts"
  shows "X - task_seq ` (set ts - {t}) = (X - task_seq ` set ts) \<union> (X \<inter> {task_seq t})"
proof -
  have "inj_on task_seq (set ts)" using assms(1) by (simp add: distinct_map)
  then have "task_seq ` (set ts - {t}) = task_seq ` set ts - {task_seq t}"
    using assms(2) by (auto simp: inj_on_def)
  then show ?thesis using assms(2) by auto
qed

lemma distinct_map_removeAll: "distinct (map f xs) \<Longrightarrow> distinct (map f (removeAll t xs))"
  by (induction xs) auto

lemma task_report_inv:
  assumes "storage_inv base st" "t \<in> set (st_written st) \<union> set (st_abandoned st)" "task_report t st = Some st'"
  shows "storage_inv base st'"
proof -
  note inv = storage_invD [OF assms(1)]
  let ?q = "task_seq t"
  have t: "t \<in> set (tasks st)" using assms(2) by (auto simp: tasks_def)
  have q: "?q \<in> set (st_consumed st)" "?q \<notin> reported st" using t inv(3) by (auto simp: reported_def)
  obtain s where s: "progressSequencesWithoutLock ?q (st_sns st) = Some s"
    "tracks_sns base (st_consumed st) (insert ?q (reported st)) s"
    "prev_sn s = prev_sn (st_sns st)" "local_sn s = local_sn (st_sns st)"
    using progress_tracks [OF inv(1) q] by blast
  have st': "st' = st\<lparr>st_sns := s, st_written := removeAll t (st_written st), st_abandoned := removeAll t (st_abandoned st)\<rparr>"
    using assms(3) s(1) by (simp add: task_report_def progressSequences_def)
  have mono: "last_sn (st_sns st) \<le> last_sn s"
    using sns_tracker.last_monotone [OF inv(1) s(2)] by blast
  have "t \<notin> set (st_pending st)"
    using inv(2) assms(2) by (auto simp: tasks_def dest: imageI [of t _ task_seq])
  then have ts: "tasks st' = removeAll t (tasks st)" by (simp add: tasks_def st')
  have rep: "reported st' = insert ?q (reported st)"
    using reported_remove [OF inv(2) t, of "set (st_consumed st)"] q(1)
    by (simp add: reported_def ts) (simp add: st')
  have per: "?q \<in> set (st_persisted st)" if "\<not> st_stopped st"
    using assms(2) inv(4) inv(5) [OF that] by auto
  show ?thesis
  proof (rule storage_invI)
    show "tracks_sns base (st_consumed st') (reported st') (st_sns st')" unfolding rep using s(2) by (simp add: st')
    show "distinct (map task_seq (tasks st'))" unfolding ts by (rule distinct_map_removeAll [OF inv(2)])
    show "task_seq ` set (tasks st') \<subseteq> set (st_consumed st')" unfolding ts using inv(3) by (auto simp: st')
    show "\<not> st_stopped st' \<Longrightarrow> reported st' \<subseteq> set (st_persisted st') \<union> set (st_deduped st')"
      unfolding rep using inv(6) per by (auto simp: st')
  qed (use inv(4,5,7-10) mono s(3,4) in \<open>auto simp: st'\<close>)
qed

lemma doCommit_inv:
  assumes "storage_inv base st" "last_of base (st_consumed st) < fst seq" "fst seq \<le> snd seq"
    and "doCommit okl okr block seq keys missing st = Some st'"
  shows "storage_inv base st'"
proof -
  note inv = storage_invD [OF assms(1)]
  let ?s = "push_outstanding seq (st_sns st)" and ?ps = "st_consumed st @ [seq]"
  have incr: "increasing base ?ps"
    using inv(1) assms(2,3) by (simp add: increasing_snoc tracks_sns_def)
  have tr: "tracks_sns base ?ps (reported st) ?s" by (rule push_tracks [OF inv(1) incr])
  have new: "seq \<notin> set (st_consumed st)" using increasing_distinct [OF incr] by simp
  then have fresh: "seq \<notin> task_seq ` set (tasks st)" "seq \<notin> reported st" using inv(3) by (auto simp: reported_def)
  have eqs [simp]: "last_sn ?s = last_sn (st_sns st)" "prev_sn ?s = prev_sn (st_sns st)" "local_sn ?s = local_sn (st_sns st)"
    by (simp_all add: push_outstanding_def)
  show ?thesis
  proof (cases "block = []")
    case True
    obtain s where s: "progressSequencesWithoutLock seq ?s = Some s" "tracks_sns base ?ps (insert seq (reported st)) s"
      "prev_sn s = prev_sn ?s" "local_sn s = local_sn ?s"
      using progress_tracks [OF tr _ fresh(2)] by auto
    let ?st' = "st\<lparr>st_consumed := ?ps, st_sns := s, st_deduped := seq # st_deduped st\<rparr>"
    have st': "st' = ?st'" using assms(4) True s(1) by (simp add: doCommit_def)
    have rep: "reported ?st' = insert seq (reported st)" using fresh(1) by (auto simp: reported_def tasks_def)
    have mono: "last_sn (st_sns st) \<le> last_sn s" using sns_tracker.last_monotone [OF tr s(2)] by auto
    show ?thesis
      unfolding st'
    proof (rule storage_invI)
      show "tracks_sns base (st_consumed ?st') (reported ?st') (st_sns ?st')" unfolding rep using s(2) by simp
      show "\<not> st_stopped ?st' \<Longrightarrow> reported ?st' \<subseteq> set (st_persisted ?st') \<union> set (st_deduped ?st')"
        unfolding rep using inv(6) by auto
    qed (use inv(2-5,7-10) mono s(3,4) in \<open>auto simp: tasks_def\<close>)
  next
    case False
    let ?t = "\<lparr>task_block = block, task_seq = seq, task_keys = keys, task_missing = missing\<rparr>"
    let ?st1 = "st\<lparr>st_sns := ?s, st_consumed := ?ps, st_pending := st_pending st @ [?t]\<rparr>"
    have st': "st' = lift_sns (commitSN_dist okl okr) ?st1" using assms(4) False by (simp add: doCommit_def)
    have ts: "set (tasks ?st1) = insert ?t (set (tasks st))" by (auto simp: tasks_def)
    have rep: "reported ?st1 = reported st" using new by (auto simp: reported_def ts)
    have dis: "distinct (map task_seq (tasks ?st1))" using inv(2) fresh(1) by (auto simp: tasks_def)
    have "storage_inv base ?st1"
    proof (rule storage_invI)
      show "tracks_sns base (st_consumed ?st1) (reported ?st1) (st_sns ?st1)" unfolding rep using tr by simp
      show "distinct (map task_seq (tasks ?st1))" by (rule dis)
      show "task_seq ` set (tasks ?st1) \<subseteq> set (st_consumed ?st1)" unfolding ts using inv(3) by auto
      show "\<not> st_stopped ?st1 \<Longrightarrow> reported ?st1 \<subseteq> set (st_persisted ?st1) \<union> set (st_deduped ?st1)"
        unfolding rep using inv(6) by simp
    qed (use inv(4,5,7-10) in auto)
    then show ?thesis unfolding st' by (rule lift_sns_inv [OF commitSN_dist_ok])
  qed
qed

lemma storage_inv_dedup: "storage_inv base (st\<lparr>st_dedup := d\<rparr>) \<longleftrightarrow> storage_inv base st"
  by (simp add: storage_inv_def reported_def tasks_def)

lemma sorted_hd_le_last:
  assumes "sorted_wrt (\<lambda>a b. f a < (f b :: int)) xs" "xs \<noteq> []"
  shows "f (hd xs) \<le> f (last xs)"
  using assms by (cases xs) (auto dest: last_in_set, fastforce dest: last_in_set)

lemma commit_inv:
  assumes "storage_inv base st" "next_batch base rs st" "commit max_ids okl okr rs missing st = Some (e, st')"
  shows "storage_inv base st'"
proof -
  have rs: "rs \<noteq> []" "rec_sn (hd rs) \<le> rec_sn (last rs)" "last_of base (st_consumed st) < rec_sn (hd rs)"
    using assms(2) sorted_hd_le_last [of rec_sn rs] by (auto simp: next_batch_def)
  obtain e' block keys dd where loop: "commit_loop max_ids rs ([], [], st_dedup st) = Some (e', (block, keys, dd))"
    using assms(3) rs(1) by (auto simp: commit_def split: option.splits)
  show ?thesis
  proof (cases e')
    case None
    then have eq: "doCommit okl okr block (rec_sn (hd rs), rec_sn (last rs)) keys missing (st\<lparr>st_dedup := dd\<rparr>) = Some st'"
      using assms(3) rs(1) loop by (simp add: commit_def map_option_eq_Some)
    have inv': "storage_inv base (st\<lparr>st_dedup := dd\<rparr>)" using assms(1) by (simp only: storage_inv_dedup)
    show ?thesis by (rule doCommit_inv [OF inv' _ _ eq]) (use rs in simp_all)
  next
    case (Some x)
    then have "st' = st\<lparr>st_dedup := dd\<rparr>" using assms(3) rs(1) loop by (simp add: commit_def)
    then show ?thesis using assms(1) by (simp add: storage_inv_dedup)
  qed
qed

lemma stop_inv: "storage_inv base st \<Longrightarrow> storage_inv base (st\<lparr>st_stopped := True\<rparr>)"
  by (simp add: storage_inv_def reported_def tasks_def)

definition storage_start :: "int \<Rightarrow> 'v storage \<Rightarrow> bool" where
  "storage_start base st \<longleftrightarrow> (\<exists>ks c. st = storage_init base ks c \<and> -1 \<le> base
     \<and> file_sn c \<le> base \<and> remote_sn c \<le> base)"

lemma storage_init_inv:
  assumes "-1 \<le> base" "file_sn c \<le> base" "remote_sn c \<le> base"
  shows "storage_inv base (storage_init base ks c)"
  using tracks_sns_init [OF assms(1)] assms
  by (auto simp: storage_inv_def storage_init_def reported_def tasks_def sns_init_def)

interpretation storage_runs: step_system "storage_start base" "storage_step max_ids base" "storage_inv base"
  for base max_ids
proof unfold_locales
  show "storage_start base st \<Longrightarrow> storage_inv base st" for st
    by (auto simp: storage_start_def intro: storage_init_inv)
  show "storage_inv base st'" if "storage_inv base st" "storage_step max_ids base st st'" for st st'
    using that(2)
  proof cases
    case (Consume rs okl okr missing e)
    then show ?thesis using commit_inv that(1) by blast
  next
    case (Write t)
    then show ?thesis using task_write_inv that(1) by blast
  next
    case (Abandon t)
    then show ?thesis using task_stop_inv that(1) by blast
  next
    case (Report t)
    then show ?thesis using task_report_inv that(1) by blast
  next
    case (Periodic okl okr)
    then show ?thesis using lift_sns_inv [OF periodicallyCommit_ok that(1)] by simp
  next
    case Stop
    then show ?thesis using stop_inv that(1) by blast
  next
    case (Final okl okr okf)
    then show ?thesis using lift_sns_inv [OF finalCommit_ok that(1)] by simp
  qed
qed

lemma committed_bound:
  assumes "storage_inv base st" "p \<in> set (st_consumed st)"
    and "fst p \<le> file_sn (st_committed st) \<or> fst p \<le> remote_sn (st_committed st) \<or> fst p \<le> last_sn (st_sns st)"
  shows "p \<in> reported st"
proof -
  note inv = storage_invD [OF assms(1)]
  have "fst p \<le> last_sn (st_sns st)" using assms(3) inv(9,10) by linarith
  then show ?thesis using sns_tracker.last_covers_done [OF inv(1) assms(2)] by blast
qed


text \<open>
  C20.  Nothing gets stuck.  In a reachable state every written task can be reported, and when no
  task is in flight \<^verbatim>\<open>last_sn\<close> has reached the end of the last consumed batch.
\<close>

theorem tasks_can_finish:
  assumes "storage_start base st0" "(storage_step max_ids base)\<^sup>*\<^sup>* st0 st"
  shows "(\<forall>t\<in>set (st_written st). task_report t st \<noteq> None)
    \<and> (tasks st = [] \<longrightarrow> last_sn (st_sns st) = last_of base (st_consumed st) \<and> outstanding_sns (st_sns st) = [])"
proof -
  have inv: "storage_inv base st" by (rule storage_runs.reachable_inv [OF assms(1,2)])
  note i = storage_invD [OF inv]
  have "task_report t st \<noteq> None" if "t \<in> set (st_written st)" for t
  proof -
    have "t \<in> set (tasks st)" using that by (simp add: tasks_def)
    then have "task_seq t \<in> set (st_consumed st)" "task_seq t \<notin> reported st"
      using i(3) by (auto simp: reported_def)
    from progress_tracks [OF i(1) this] show ?thesis by (auto simp: task_report_def progressSequences_def)
  qed
  moreover have "last_sn (st_sns st) = last_of base (st_consumed st) \<and> outstanding_sns (st_sns st) = []"
    if "tasks st = []"
  proof -
    have "reported st = set (st_consumed st)" using that by (simp add: reported_def)
    then show ?thesis
      using sns_tracker.all_done_last [OF i(1)] i(1) by (auto simp: tracks_sns_def)
  qed
  ultimately show ?thesis by blast
qed

section \<open>Example runs\<close>

definition ex_record :: "int \<Rightarrow> int block wal_record" where
  "ex_record sn = (wal_record_new ADD_DATA_BLOCK [\<lparr>col_name = ''a'', col_default = 0, col_cells = [7]\<rparr>])\<lparr>rec_sn := sn\<rparr>"

definition ex_task :: "int task" where
  "ex_task = \<lparr>task_block = [\<lparr>col_name = ''a'', col_default = 0, col_cells = [7]\<rparr>], task_seq = (5, 5),
     task_keys = [], task_missing = []\<rparr>"

definition ex_start :: "int storage" where
  "ex_start = storage_init 4 [] \<lparr>file_sn = 4, remote_sn = -1\<rparr>"

definition ex_consumed :: "int storage" where
  "ex_consumed = ex_start\<lparr>
     st_sns := \<lparr>last_sn = 4, prev_sn = 4, local_sn = 4, local_committed_sns = [], outstanding_sns = [(5, 5)]\<rparr>,
     st_committed := \<lparr>file_sn = 4, remote_sn = 4\<rparr>, st_pending := [ex_task], st_consumed := [(5, 5)]\<rparr>"

lemma ex_start_ok: "storage_start 4 ex_start"
  unfolding storage_start_def ex_start_def
  by (intro exI [of _ "[]"] exI [of _ "\<lparr>file_sn = 4, remote_sn = -1\<rparr>"]) simp

lemma ex_consume: "storage_step 10 4 ex_start ex_consumed"
proof (rule storage_step.Consume [of 4 "[ex_record 5]" _ 10 True True "[]" None])
  show "next_batch 4 [ex_record 5] ex_start"
    by (simp add: next_batch_def ex_record_def ex_start_def storage_init_def last_of_def wal_record_new_def)
  show "commit 10 True True [ex_record 5] [] ex_start = Some (None, ex_consumed)"
    by (simp add: commit_def ex_record_def wal_record_new_def dedupBlock_def hasIdempotentKey_def idempotentKey_def
        doCommit_def lift_sns_def commitSN_dist_def commitSNRemote_def push_outstanding_def Let_def
        ex_start_def ex_consumed_def ex_task_def storage_init_def sns_init_def)
qed

lemma ex_report:
  assumes "st_sns st = st_sns ex_consumed"
  shows "task_report ex_task st = Some (st\<lparr>
     st_sns := \<lparr>last_sn = 5, prev_sn = 4, local_sn = 4, local_committed_sns = [], outstanding_sns = []\<rparr>,
     st_written := removeAll ex_task (st_written st), st_abandoned := removeAll ex_task (st_abandoned st)\<rparr>)"
  using assms
  by (simp add: task_report_def progressSequences_def progressSequencesWithoutLock_def ex_task_def ex_consumed_def)


theorem tasks_can_finish_witness:
  "task_report ex_task (task_write ex_task ex_consumed) \<noteq> None"
proof -
  have "storage_step 10 4 ex_consumed (task_write ex_task ex_consumed)"
    by (rule storage_step.Write) (simp add: ex_consumed_def)
  then have run: "(storage_step 10 4)\<^sup>*\<^sup>* ex_start (task_write ex_task ex_consumed)"
    using ex_consume by (meson converse_rtranclp_into_rtranclp rtranclp.rtrancl_refl)
  show ?thesis using tasks_can_finish [OF ex_start_ok run] by (simp add: task_write_def)
qed


end
