(* ===== verification/Recovery_Routing.thy ===== *)
theory Recovery_Routing
  imports Commit_Pipeline Part_Recovery
begin

text \<open>
  The consumer callback of a table, \<^verbatim>\<open>DistributedMergeTreeCallbackData\<close>
  (\<^verbatim>\<open>src/src/Storages/DistributedMergeTree/DistributedMergeTreeCallbackData.cpp\<close>).  After a start with
  missing ranges the consumed records are buffered until the highest number on disk is passed, then
  sorted into buckets, one for each missing range and one for the new records, and committed.
\<close>

section \<open>Sorting records into buckets\<close>

type_synonym 'b bucket = "'b wal_record list \<times> sequence_range list"

definition in_range :: "int \<Rightarrow> sequence_range \<Rightarrow> bool" where
  "in_range sn m \<longleftrightarrow> sn \<ge> start_sn m \<and> sn \<le> end_sn m"

fun find_range :: "int \<Rightarrow> sequence_range list \<Rightarrow> nat option" where
  "find_range sn [] = None"
| "find_range sn (m # ms) = (if in_range sn m then Some 0 else map_option Suc (find_range sn ms))"

text \<open>The inner loop over \<open>j\<close>: parts of the same range that are not in the bucket yet.\<close>

fun collect_same_start :: "int \<Rightarrow> sequence_range list \<Rightarrow> sequence_range list \<Rightarrow> sequence_range list" where
  "collect_same_start start [] acc = acc"
| "collect_same_start start (m # ms) acc =
     collect_same_start start ms (if start_sn m = start \<and> m \<notin> set acc then acc @ [m] else acc)"

definition categorize_record ::
    "sequence_range list \<Rightarrow> int \<Rightarrow> 'b bucket list \<Rightarrow> 'b wal_record \<Rightarrow> 'b bucket list option" where
  "categorize_record ms max_committed buckets r =
     (if rec_sn r > max_committed then
        (case buckets ! (length buckets - 1) of
           (rs, qs) \<Rightarrow> Some (buckets[length buckets - 1 := (rs @ [r], qs)]))
      else if ms = [] then None
      else if rec_sn r > end_sn (last ms) then Some buckets
      else
        (case find_range (rec_sn r) ms of
           None \<Rightarrow> Some buckets
         | Some i \<Rightarrow>
             (case buckets ! i of
                (rs, qs) \<Rightarrow> Some (buckets[i := (rs @ [r], collect_same_start (start_sn (ms ! i)) (drop i ms) qs)]))))"

fun categorize_loop ::
    "sequence_range list \<Rightarrow> int \<Rightarrow> 'b bucket list \<Rightarrow> 'b wal_record list \<Rightarrow> 'b bucket list option" where
  "categorize_loop ms max_committed buckets [] = Some buckets"
| "categorize_loop ms max_committed buckets (r # rs) =
     (case categorize_record ms max_committed buckets r of
        None \<Rightarrow> None
      | Some buckets' \<Rightarrow> categorize_loop ms max_committed buckets' rs)"

definition categorizeRecordsAccordingToSequenceRanges ::
    "'b wal_record list \<Rightarrow> sequence_range list \<Rightarrow> int \<Rightarrow> 'b bucket list option" where
  "categorizeRecordsAccordingToSequenceRanges records ms max_committed =
     map_option (filter (\<lambda>b. fst b \<noteq> []))
       (categorize_loop ms max_committed (replicate (length ms + 1) ([], [])) records)"

section \<open>The callback\<close>

record 'v callback_data =
  cb_missing :: "sequence_range list"
  cb_recovery_records :: "'v block wal_record list"

definition callback_init :: "sequence_range list \<Rightarrow> 'v callback_data" where
  "callback_init ms = \<lparr>cb_missing = ms, cb_recovery_records = []\<rparr>"

definition finishRecovery :: "'v callback_data \<Rightarrow> bool" where
  "finishRecovery cb \<longleftrightarrow> cb_missing cb = [] \<and> cb_recovery_records cb = []"

text \<open>An exception of the storage is logged and dropped.\<close>

definition callback_doCommit ::
    "nat \<Rightarrow> bool \<Rightarrow> bool \<Rightarrow> 'v block wal_record list \<Rightarrow> sequence_range list \<Rightarrow> 'v storage \<Rightarrow> 'v storage option" where
  "callback_doCommit max_ids okl okr rs qs st = map_option snd (commit max_ids okl okr rs qs st)"

fun commit_buckets :: "nat \<Rightarrow> bool \<Rightarrow> bool \<Rightarrow> 'v block bucket list \<Rightarrow> 'v storage \<Rightarrow> 'v storage option" where
  "commit_buckets max_ids okl okr [] st = Some st"
| "commit_buckets max_ids okl okr ((rs, qs) # bs) st =
     (case callback_doCommit max_ids okl okr rs qs st of
        None \<Rightarrow> None
      | Some st' \<Rightarrow> commit_buckets max_ids okl okr bs st')"

definition callback_commit ::
    "nat \<Rightarrow> bool \<Rightarrow> bool \<Rightarrow> int \<Rightarrow> 'v block wal_record list \<Rightarrow> 'v callback_data \<times> 'v storage
      \<Rightarrow> ('v callback_data \<times> 'v storage) option" where
  "callback_commit max_ids okl okr max_committed records s =
     (let (cb, st) = s in
      if finishRecovery cb then map_option (Pair cb) (callback_doCommit max_ids okl okr records [] st)
      else
        let recovery = cb_recovery_records cb @ records in
        if recovery = [] then None
        else if rec_sn (last recovery) < max_committed then Some (cb\<lparr>cb_recovery_records := recovery\<rparr>, st)
        else
          case categorizeRecordsAccordingToSequenceRanges recovery (cb_missing cb) max_committed of
            None \<Rightarrow> None
          | Some buckets \<Rightarrow>
              map_option (Pair (cb\<lparr>cb_recovery_records := [], cb_missing := []\<rparr>))
                (commit_buckets max_ids okl okr buckets st))"

text \<open>\<^verbatim>\<open>consumeCallback\<close>: an empty batch is the timer.\<close>

definition consumeCallback ::
    "nat \<Rightarrow> bool \<Rightarrow> bool \<Rightarrow> int \<Rightarrow> 'v block wal_record list \<Rightarrow> 'v callback_data \<times> 'v storage
      \<Rightarrow> ('v callback_data \<times> 'v storage) option" where
  "consumeCallback max_ids okl okr max_committed records s =
     (if records = [] then Some (fst s, lift_sns (periodicallyCommit okl okr) (snd s))
      else callback_commit max_ids okl okr max_committed records s)"

section \<open>What the buckets hold\<close>

lemma find_range_Some:
  "find_range sn ms = Some i \<longleftrightarrow> i < length ms \<and> in_range sn (ms ! i) \<and> (\<forall>j<i. \<not> in_range sn (ms ! j))"
proof (induction ms arbitrary: i)
  case (Cons m ms)
  show ?case
  proof (cases i)
    case 0
    then show ?thesis by auto
  next
    case (Suc k)
    have "(\<forall>j<Suc k. \<not> in_range sn ((m # ms) ! j)) \<longleftrightarrow> \<not> in_range sn m \<and> (\<forall>j<k. \<not> in_range sn (ms ! j))"
      by (auto simp: less_Suc_eq_0_disj)
    then show ?thesis using Cons.IH [of k] Suc by auto
  qed
qed simp

lemma find_range_None: "find_range sn ms = None \<longleftrightarrow> \<not> covers ms sn"
  by (induction ms) (auto simp: in_range_def covers_def)

definition routed :: "sequence_range list \<Rightarrow> int \<Rightarrow> nat \<Rightarrow> 'b wal_record \<Rightarrow> bool" where
  "routed ms max_committed i r \<longleftrightarrow> rec_sn r \<le> max_committed \<and> find_range (rec_sn r) ms = Some i"

definition bucket_of :: "sequence_range list \<Rightarrow> int \<Rightarrow> 'b wal_record list \<Rightarrow> nat \<Rightarrow> 'b bucket" where
  "bucket_of ms max_committed rs i =
     (let xs = filter (routed ms max_committed i) rs
      in (xs, if xs = [] then [] else filter (\<lambda>m. start_sn m = start_sn (ms ! i)) (drop i ms)))"

definition new_bucket :: "int \<Rightarrow> 'b wal_record list \<Rightarrow> 'b bucket" where
  "new_bucket max_committed rs = (filter (\<lambda>r. rec_sn r > max_committed) rs, [])"

definition buckets_of :: "sequence_range list \<Rightarrow> int \<Rightarrow> 'b wal_record list \<Rightarrow> 'b bucket list" where
  "buckets_of ms max_committed rs = map (bucket_of ms max_committed rs) [0..<length ms] @ [new_bucket max_committed rs]"

lemma collect_same_start_eq:
  assumes "distinct ms"
  shows "collect_same_start s ms acc = acc @ filter (\<lambda>m. start_sn m = s \<and> m \<notin> set acc) ms"
  using assms
proof (induction ms arbitrary: acc)
  case (Cons m ms)
  have "filter (\<lambda>x. start_sn x = s \<and> x \<noteq> m \<and> x \<notin> set acc) ms = filter (\<lambda>x. start_sn x = s \<and> x \<notin> set acc) ms"
    using Cons.prems by (intro filter_cong) auto
  then show ?case using Cons by auto
qed simp

lemma bucket_of_snoc:
  assumes "distinct ms" "i < length ms"
  shows "bucket_of ms mc (rs @ [r]) i =
    (if routed ms mc i r
     then (fst (bucket_of ms mc rs i) @ [r],
           collect_same_start (start_sn (ms ! i)) (drop i ms) (snd (bucket_of ms mc rs i)))
     else bucket_of ms mc rs i)"
proof -
  have "filter (\<lambda>m. start_sn m = start_sn (ms ! i) \<and> m \<notin> set (drop i ms)) (drop i ms) = []"
    by (auto simp: filter_empty_conv)
  then have "filter (\<lambda>m. start_sn m = start_sn (ms ! i)
       \<and> (m \<in> set (drop i ms) \<longrightarrow> start_sn m \<noteq> start_sn (ms ! i))) (drop i ms) = []"
    by (auto simp: filter_empty_conv)
  then show ?thesis
    using assms by (auto simp: bucket_of_def Let_def collect_same_start_eq)
qed

definition ordered_missing :: "sequence_range list \<Rightarrow> bool" where
  "ordered_missing ms \<longleftrightarrow> sorted_wrt missing_before ms \<and> (\<forall>m\<in>set ms. start_sn m \<le> end_sn m)"

lemma ordered_missing_nth:
  assumes "ordered_missing ms" "i < j" "j < length ms"
  shows "end_sn (ms ! i) < start_sn (ms ! j)
    \<or> start_sn (ms ! i) = start_sn (ms ! j) \<and> end_sn (ms ! i) = end_sn (ms ! j)"
  using assms by (auto simp: ordered_missing_def missing_before_def dest: sorted_wrt_nthD)

lemma ordered_missing_distinct: "ordered_missing ms \<Longrightarrow> distinct ms"
  unfolding ordered_missing_def by (induction ms) (force simp: missing_before_def)+

lemma ordered_missing_last:
  assumes "ordered_missing ms" "m \<in> set ms"
  shows "end_sn m \<le> end_sn (last ms)"
proof -
  obtain i where i: "i < length ms" "m = ms ! i" using assms(2) by (auto simp: in_set_conv_nth)
  have ne: "ms \<noteq> []" using assms(2) by auto
  then have l: "last ms = ms ! (length ms - 1)" by (rule last_conv_nth)
  have "start_sn (last ms) \<le> end_sn (last ms)" using assms(1) last_in_set [OF ne] by (simp add: ordered_missing_def)
  moreover have "i < length ms - 1 \<or> i = length ms - 1" "length ms - 1 < length ms" using i(1) ne by auto
  ultimately show ?thesis
    using ordered_missing_nth [OF assms(1), of i "length ms - 1"] unfolding i(2) l by fastforce
qed

lemma categorize_record_buckets:
  assumes "ordered_missing ms" "ms \<noteq> []"
  shows "categorize_record ms mc (buckets_of ms mc rs) r = Some (buckets_of ms mc (rs @ [r]))"
proof -
  let ?B = "buckets_of ms mc rs" and ?k = "length ms"
  have len: "length ?B = Suc ?k" by (simp add: buckets_of_def)
  have nth: "?B ! i = bucket_of ms mc rs i" if "i < ?k" for i using that by (simp add: buckets_of_def nth_append)
  have nth_new: "?B ! ?k = new_bucket mc rs" by (simp add: buckets_of_def nth_append)
  have snoc: "buckets_of ms mc (rs @ [r]) ! i =
      (if i = ?k then new_bucket mc (rs @ [r]) else bucket_of ms mc (rs @ [r]) i)" if "i \<le> ?k" for i
    using that by (simp add: buckets_of_def nth_append)
  have unrouted: "bucket_of ms mc (rs @ [r]) i = bucket_of ms mc rs i" if "i < ?k" "\<not> routed ms mc i r" for i
    using that(2) by (simp add: bucket_of_snoc [OF ordered_missing_distinct [OF assms(1)] that(1)])
  show ?thesis
  proof (cases "rec_sn r > mc")
    case True
    have "buckets_of ms mc (rs @ [r]) = ?B[?k := (fst (new_bucket mc rs) @ [r], snd (new_bucket mc rs))]"
      using True unrouted
      by (intro nth_equalityI) (auto simp: len nth_list_update snoc nth routed_def new_bucket_def buckets_of_def nth_append less_Suc_eq)
    then show ?thesis using True nth_new len by (simp add: categorize_record_def case_prod_beta)
  next
    case False
    then have same_new: "new_bucket mc (rs @ [r]) = new_bucket mc rs" by (simp add: new_bucket_def)
    show ?thesis
    proof (cases "find_range (rec_sn r) ms")
      case None
      then have "buckets_of ms mc (rs @ [r]) = ?B"
        using unrouted same_new by (simp add: buckets_of_def routed_def)
      then show ?thesis using False None assms(2) by (simp add: categorize_record_def)
    next
      case (Some i)
      then have i: "i < ?k" "in_range (rec_sn r) (ms ! i)" by (simp_all add: find_range_Some)
      have "rec_sn r \<le> end_sn (last ms)"
        using i ordered_missing_last [OF assms(1), of "ms ! i"] by (simp add: in_range_def)
      moreover have "buckets_of ms mc (rs @ [r]) = ?B[i := (fst (bucket_of ms mc rs i) @ [r],
          collect_same_start (start_sn (ms ! i)) (drop i ms) (snd (bucket_of ms mc rs i)))]" (is "?L = ?R")
      proof (rule nth_equalityI)
        fix j assume "j < length ?L"
        then have j: "j \<le> ?k" by (simp add: buckets_of_def)
        consider "j = i" | "j \<noteq> i" "j < ?k" | "j = ?k" using j by linarith
        then show "?L ! j = ?R ! j"
        proof cases
          case 1
          then show ?thesis
            using False Some i len snoc [OF j]
            by (simp add: routed_def bucket_of_snoc [OF ordered_missing_distinct [OF assms(1)] i(1)])
        next
          case 2
          then show ?thesis using unrouted [of j] Some snoc [OF j] nth [of j] by (simp add: routed_def)
        next
          case 3
          then show ?thesis using same_new i(1) nth_new snoc [OF j] by simp
        qed
      qed (simp add: buckets_of_def)
      ultimately show ?thesis
        using False Some assms(2) nth [OF i(1)] by (simp add: categorize_record_def case_prod_beta)
    qed
  qed
qed

lemma categorize_loop_buckets:
  assumes "ordered_missing ms" "ms \<noteq> []"
  shows "categorize_loop ms mc (buckets_of ms mc xs) rs = Some (buckets_of ms mc (xs @ rs))"
proof (induction rs arbitrary: xs)
  case (Cons r rs)
  then show ?case using categorize_record_buckets [OF assms, of mc xs r] Cons.IH [of "xs @ [r]"] by simp
qed simp

lemma categorize_eq:
  fixes rs :: "'b wal_record list"
  assumes "ordered_missing ms" "ms \<noteq> []"
  shows "categorizeRecordsAccordingToSequenceRanges rs ms mc = Some (filter (\<lambda>b. fst b \<noteq> []) (buckets_of ms mc rs))"
proof -
  have empty: "bucket_of ms mc ([] :: 'b wal_record list) = (\<lambda>_. ([], []))" by (rule ext) (simp add: bucket_of_def)
  have "buckets_of ms mc ([] :: 'b wal_record list) = replicate (length ms + 1) ([], [])"
    unfolding buckets_of_def empty new_bucket_def by (simp add: map_replicate_const replicate_append_same)
  then show ?thesis
    using categorize_loop_buckets [OF assms, of mc "[]" rs] by (simp add: categorizeRecordsAccordingToSequenceRanges_def)
qed

section \<open>Recovery commits every lost record once\<close>

lemma scan_ordered:
  assumes "wf_ranges disk c" "scan_inv disk c mx n ms"
  shows "ordered_missing ms"
  using scan_invD(8) [OF assms(2)] scan_inv_end(1) [OF assms] by (auto simp: ordered_missing_def)

text \<open>A missing range that gets records at all is the first with its start, and gets all of them.\<close>

lemma routed_leader:
  assumes "ordered_missing ms" "find_range sn ms = Some i" "in_range sn' (ms ! i)"
  shows "find_range sn' ms = Some i"
proof -
  have i: "i < length ms" "in_range sn (ms ! i)" "\<forall>j<i. \<not> in_range sn (ms ! j)"
    using assms(2) by (simp_all add: find_range_Some)
  have "\<not> in_range sn' (ms ! j)" if "j < i" for j
    using ordered_missing_nth [OF assms(1) that i(1)] i(2,3) that assms(3) by (auto simp: in_range_def)
  then show ?thesis using i(1) assms(3) by (simp add: find_range_Some)
qed

lemma leader_same_start:
  assumes "ordered_missing ms" "find_range sn ms = Some i"
  shows "filter (\<lambda>m. start_sn m = start_sn (ms ! i)) (drop i ms) = filter (\<lambda>m. start_sn m = start_sn (ms ! i)) ms"
    and "hd (filter (\<lambda>m. start_sn m = start_sn (ms ! i)) (drop i ms)) = ms ! i"
proof -
  have i: "i < length ms" "in_range sn (ms ! i)" "\<forall>j<i. \<not> in_range sn (ms ! j)"
    using assms(2) by (simp_all add: find_range_Some)
  have "start_sn (ms ! j) \<noteq> start_sn (ms ! i)" if "j < i" for j
  proof
    assume eq: "start_sn (ms ! j) = start_sn (ms ! i)"
    have "start_sn (ms ! j) \<le> end_sn (ms ! j)"
      using assms(1) that i(1) by (simp add: ordered_missing_def)
    then have "end_sn (ms ! j) = end_sn (ms ! i)" using ordered_missing_nth [OF assms(1) that i(1)] eq by auto
    then show False using i(2,3) that eq by (auto simp: in_range_def)
  qed
  then have "filter (\<lambda>m. start_sn m = start_sn (ms ! i)) (take i ms) = []"
    by (auto simp: filter_empty_conv in_set_conv_nth)
  then show "filter (\<lambda>m. start_sn m = start_sn (ms ! i)) (drop i ms) = filter (\<lambda>m. start_sn m = start_sn (ms ! i)) ms"
    by (metis append_Nil append_take_drop_id filter_append)
  show "hd (filter (\<lambda>m. start_sn m = start_sn (ms ! i)) (drop i ms)) = ms ! i"
    using i(1) by (simp add: Cons_nth_drop_Suc [symmetric])
qed

lemma mset_disjoint_filters:
  assumes "\<And>r i j. P i r \<Longrightarrow> P j r \<Longrightarrow> i = (j :: nat)"
  shows "mset (concat (map (\<lambda>i. filter (P i) rs) [0..<k])) = filter_mset (\<lambda>r. \<exists>i<k. P i r) (mset rs)"
proof (induction k)
  case (Suc k)
  have "filter_mset (\<lambda>r. \<exists>i<Suc k. P i r) (mset rs)
      = filter_mset (\<lambda>r. \<exists>i<k. P i r) (mset rs) + filter_mset (P k) (mset rs)"
  proof (induction rs)
    case (Cons r rs)
    have "\<not> ((\<exists>i<k. P i r) \<and> P k r)" using assms by blast
    then show ?case using Cons by (auto simp: less_Suc_eq)
  qed simp
  then show ?case using Suc by (simp add: mset_filter)
qed simp

lemma concat_filter_ne: "concat (map fst (filter (\<lambda>b. fst b \<noteq> []) bs)) = concat (map fst bs)"
  by (induction bs) auto

lemma filter_upto:
  assumes "a \<le> s" "e \<le> (b :: int)"
  shows "filter (\<lambda>x. s \<le> x \<and> x \<le> e) [a..b] = [s..e]"
  by (rule sorted_distinct_set_unique) (use assms in \<open>auto simp: sorted_wrt_filter\<close>)

lemma filter_consecutive:
  assumes "map rec_sn rs = [a..b]" "a \<le> s" "e \<le> b"
  shows "map rec_sn (filter (\<lambda>r. s \<le> rec_sn r \<and> rec_sn r \<le> e) rs) = [s..e]"
proof -
  have "map rec_sn (filter (\<lambda>r. s \<le> rec_sn r \<and> rec_sn r \<le> e) rs) = filter (\<lambda>x. s \<le> x \<and> x \<le> e) (map rec_sn rs)"
    by (simp add: filter_map o_def)
  then show ?thesis using filter_upto [OF assms(2,3)] assms(1) by simp
qed

text \<open>The bounds a scan gives to the missing ranges.\<close>

lemma missing_bounds:
  assumes "wf_ranges disk c" "scan_inv disk c mx n ms" "m \<in> set ms"
  shows "n \<le> start_sn m" "start_sn m \<le> end_sn m" "end_sn m \<le> mx - 1"
proof -
  show le: "start_sn m \<le> end_sn m" by (rule scan_inv_end(1) [OF assms])
  show "end_sn m \<le> mx - 1" using scan_inv_end(2) [OF assms] by simp
  have "covers ms (start_sn m)" using le assms(3) by (auto simp: covers_iff)
  then have "c < start_sn m" "\<not> persisted disk (start_sn m)" using scan_invD(1) [OF assms(2)] by blast+
  then show "n \<le> start_sn m" using scan_invD(4) [OF assms(2)] by (meson not_le)
qed

lemma bucket_records:
  fixes rs :: "'b wal_record list"
  assumes "wf_ranges disk c" "scan_inv disk c mx n ms" "map rec_sn rs = [n..b]" "mx - 1 \<le> b"
    and "i < length ms" "fst (bucket_of ms (mx - 1) rs i) \<noteq> []"
  shows "map rec_sn (fst (bucket_of ms (mx - 1) rs i)) = [start_sn (ms ! i)..end_sn (ms ! i)]"
    and "hd (snd (bucket_of ms (mx - 1) rs i)) = ms ! i"
    and "snd (bucket_of ms (mx - 1) rs i) = filter (\<lambda>m. start_sn m = start_sn (ms ! i)) ms"
    and "\<exists>sn. find_range sn ms = Some i"
proof -
  note ord = scan_ordered [OF assms(1,2)]
  obtain r where "r \<in> set rs" "routed ms (mx - 1) i r"
    using assms(6) by (auto simp: bucket_of_def filter_empty_conv)
  then have f: "find_range (rec_sn r) ms = Some i" by (simp add: routed_def)
  note mb = missing_bounds [OF assms(1,2) nth_mem [OF assms(5)]]
  have "routed ms (mx - 1) i x \<longleftrightarrow> start_sn (ms ! i) \<le> rec_sn x \<and> rec_sn x \<le> end_sn (ms ! i)" for x :: "'b wal_record"
    using routed_leader [OF ord f, of "rec_sn x"] mb(3) unfolding routed_def
    by (auto simp: find_range_Some in_range_def)
  then have "fst (bucket_of ms (mx - 1) rs i)
      = filter (\<lambda>x. start_sn (ms ! i) \<le> rec_sn x \<and> rec_sn x \<le> end_sn (ms ! i)) rs"
    by (simp add: bucket_of_def Let_def cong: filter_cong)
  then show "map rec_sn (fst (bucket_of ms (mx - 1) rs i)) = [start_sn (ms ! i)..end_sn (ms ! i)]"
    using filter_consecutive [OF assms(3) mb(1)] mb(3) assms(4) by simp
  have snd: "snd (bucket_of ms (mx - 1) rs i) = filter (\<lambda>m. start_sn m = start_sn (ms ! i)) (drop i ms)"
    using assms(6) by (simp add: bucket_of_def Let_def)
  then show "hd (snd (bucket_of ms (mx - 1) rs i)) = ms ! i"
    "snd (bucket_of ms (mx - 1) rs i) = filter (\<lambda>m. start_sn m = start_sn (ms ! i)) ms"
    using leader_same_start [OF ord f] by simp_all
  show "\<exists>sn. find_range sn ms = Some i" using f by blast
qed

definition bucket_seq :: "'b bucket \<Rightarrow> sequence_pair" where
  "bucket_seq b = (rec_sn (hd (fst b)), rec_sn (last (fst b)))"

lemma seq_of_upto:
  assumes "map rec_sn xs = [s..e]" "xs \<noteq> []"
  shows "rec_sn (hd xs) = s" "rec_sn (last xs) = e" "s \<le> e"
proof -
  have ne: "[s..e] \<noteq> []" using assms by (metis map_is_Nil_conv)
  then show le: "s \<le> e" by simp
  show "rec_sn (hd xs) = s" using assms le by (metis hd_map list.sel(1) upto_Cons)
  have "last [s..e] = e" using le by (simp add: upto_rec2)
  then show "rec_sn (last xs) = e" using assms last_map by metis
qed

lemma bucket_order:
  assumes "wf_ranges disk c" "scan_inv disk c mx n ms" "map rec_sn rs = [n..b]" "mx - 1 \<le> b"
    and "i < j" "j < length ms"
    and "fst (bucket_of ms (mx - 1) rs i) \<noteq> []" "fst (bucket_of ms (mx - 1) rs j) \<noteq> []"
  shows "end_sn (ms ! i) < start_sn (ms ! j)"
proof -
  have i: "i < length ms" using assms(5,6) by simp
  obtain sn where "find_range sn ms = Some j" using bucket_records(4) [OF assms(1-4,6,8)] by blast
  then have "in_range sn (ms ! j)" "\<not> in_range sn (ms ! i)" using assms(5) by (simp_all add: find_range_Some)
  then show ?thesis
    using ordered_missing_nth [OF scan_ordered [OF assms(1,2)] assms(5,6)] by (auto simp: in_range_def)
qed

lemma routed_persisted:
  assumes "wf_ranges disk c" "scan_inv disk c mx n ms" "n \<le> rec_sn r"
  shows "(\<exists>i<length ms. routed ms (mx - 1) i r) \<longleftrightarrow> rec_sn r < mx \<and> \<not> persisted disk (rec_sn r)"
proof -
  have "c < rec_sn r" using assms(3) scan_invD(2) [OF assms(2)] by simp
  then have "covers ms (rec_sn r) \<longleftrightarrow> rec_sn r < mx \<and> \<not> persisted disk (rec_sn r)"
    using scan_invD(1) [OF assms(2)] by blast
  moreover have "(\<exists>i<length ms. find_range (rec_sn r) ms = Some i) \<longleftrightarrow> covers ms (rec_sn r)"
    using find_range_None [of "rec_sn r" ms] by (cases "find_range (rec_sn r) ms") (auto simp: find_range_Some)
  ultimately show ?thesis by (auto simp: routed_def)
qed

lemma buckets_cover:
  assumes "wf_ranges disk c" "scan_inv disk c mx n ms" "map rec_sn rs = [n..b]"
  shows "mset (concat (map fst (buckets_of ms (mx - 1) rs)))
    = filter_mset (\<lambda>r. mx \<le> rec_sn r \<or> \<not> persisted disk (rec_sn r)) (mset rs)"
proof -
  let ?P = "routed ms (mx - 1)"
  have fst_eq: "map fst (map (bucket_of ms (mx - 1) rs) [0..<length ms]) = map (\<lambda>i. filter (?P i) rs) [0..<length ms]"
    by (simp add: bucket_of_def Let_def)
  have "mset (concat (map (\<lambda>i. filter (?P i) rs) [0..<length ms]))
      = filter_mset (\<lambda>r. \<exists>i<length ms. ?P i r) (mset rs)"
    by (rule mset_disjoint_filters) (simp add: routed_def)
  also have "\<dots> = filter_mset (\<lambda>r. rec_sn r < mx \<and> \<not> persisted disk (rec_sn r)) (mset rs)"
  proof (rule filter_mset_cong [OF refl])
    fix r assume "r \<in># mset rs"
    then have "rec_sn r \<in> set [n..b]" unfolding assms(3) [symmetric] by simp
    then show "(\<exists>i<length ms. ?P i r) = (rec_sn r < mx \<and> \<not> persisted disk (rec_sn r))"
      using routed_persisted [OF assms(1,2), of r] by simp
  qed
  finally have "mset (concat (map fst (buckets_of ms (mx - 1) rs)))
      = filter_mset (\<lambda>r. rec_sn r < mx \<and> \<not> persisted disk (rec_sn r)) (mset rs)
        + filter_mset (\<lambda>r. mx - 1 < rec_sn r) (mset rs)"
    unfolding buckets_of_def map_append fst_eq by (simp add: new_bucket_def mset_filter)
  also have "\<dots> = filter_mset (\<lambda>r. mx \<le> rec_sn r \<or> \<not> persisted disk (rec_sn r)) (mset rs)"
  proof (induction rs)
    case (Cons r rs)
    then show ?case by (cases "rec_sn r < mx") auto
  qed simp
  finally show ?thesis .
qed

lemma buckets_increasing:
  assumes "wf_ranges disk c" "scan_inv disk c mx n ms" "map rec_sn rs = [n..b]" "mx - 1 \<le> b"
  shows "increasing (n - 1) (map bucket_seq (filter (\<lambda>x. fst x \<noteq> []) (buckets_of ms (mx - 1) rs)))"
proof -
  let ?B = "bucket_of ms (mx - 1) rs" and ?N = "new_bucket (mx - 1) rs"
  let ?I = "filter (\<lambda>i. fst (?B i) \<noteq> []) [0..<length ms]"
  have seq: "bucket_seq (?B i) = (start_sn (ms ! i), end_sn (ms ! i))" if "i \<in> set ?I" for i
    using seq_of_upto [OF bucket_records(1) [OF assms(1-4), of i]] that by (simp add: bucket_seq_def)
  have mb: "n \<le> start_sn (ms ! i)" "start_sn (ms ! i) \<le> end_sn (ms ! i)" "end_sn (ms ! i) \<le> mx - 1" if "i \<in> set ?I" for i
    using missing_bounds [OF assms(1,2) nth_mem, of i] that by simp_all
  have "map rec_sn (filter (\<lambda>r. mx \<le> rec_sn r \<and> rec_sn r \<le> b) rs) = [mx..b]"
    using filter_consecutive [OF assms(3), of mx b] scan_invD(3) [OF assms(2)] by simp
  moreover have "filter (\<lambda>r. mx \<le> rec_sn r \<and> rec_sn r \<le> b) rs = fst ?N"
  proof -
    have "rec_sn r \<le> b" if "r \<in> set rs" for r
    proof -
      have "rec_sn r \<in> set (map rec_sn rs)" using that by simp
      then show ?thesis unfolding assms(3) by simp
    qed
    then show ?thesis by (auto simp: new_bucket_def intro!: filter_cong)
  qed
  ultimately have new: "map rec_sn (fst ?N) = [mx..b]" by simp
  have split: "map bucket_seq (filter (\<lambda>x. fst x \<noteq> []) (buckets_of ms (mx - 1) rs))
      = map (\<lambda>i. (start_sn (ms ! i), end_sn (ms ! i))) ?I @ (if fst ?N = [] then [] else [(mx, b)])"
    using seq seq_of_upto [OF new] by (auto simp: buckets_of_def filter_map o_def bucket_seq_def)
  have "sorted_wrt (\<lambda>i j. end_sn (ms ! i) < start_sn (ms ! j)) ?I"
  proof (rule sorted_wrt_mono_rel)
    show "sorted_wrt (<) ?I" by (simp add: sorted_wrt_filter)
    show "end_sn (ms ! i) < start_sn (ms ! j)" if "i \<in> set ?I" "j \<in> set ?I" "i < j" for i j
      using bucket_order [OF assms] that by simp
  qed
  moreover have "\<forall>i\<in>set ?I. n - 1 < start_sn (ms ! i) \<and> start_sn (ms ! i) \<le> end_sn (ms ! i) \<and> end_sn (ms ! i) < mx"
    using mb by fastforce
  moreover have "fst ?N \<noteq> [] \<Longrightarrow> mx \<le> b" using seq_of_upto(3) [OF new] by simp
  moreover have "n - 1 < mx" using scan_invD(3) [OF assms(2)] by simp
  ultimately show ?thesis
    unfolding split increasing_def by (auto simp: sorted_wrt_append sorted_wrt_map list_all_iff)
qed

text \<open>
  C16.  Recovery commits every lost record once and nothing else.  After a start that found missing
  ranges, the consumer reads the log from the next expected number on.  When the highest number on
  disk is passed, the buffered records are sorted into buckets such that: together the buckets hold
  exactly the records that were not persisted or are new, each once; the bucket of a missing range
  holds all records of that range, from its first to its last number, together with all missing
  parts of the range; the new records are in a bucket without missing ranges; and the pairs of
  first and last numbers of the buckets are increasing, as the bookkeeping of sequence numbers
  requires.
\<close>

theorem recovery_routing:
  assumes "wf_ranges disk c" "missingSequenceRanges disk c = Some (ms, n, mx)" "ms \<noteq> []"
    and "map rec_sn rs = [n..b]" "mx - 1 \<le> b"
  shows "\<exists>bs. categorizeRecordsAccordingToSequenceRanges rs ms (mx - 1) = Some bs
    \<and> mset (concat (map fst bs)) = filter_mset (\<lambda>r. mx \<le> rec_sn r \<or> \<not> persisted disk (rec_sn r)) (mset rs)
    \<and> (\<forall>(xs, qs)\<in>set bs. xs \<noteq> [] \<and>
         (if qs = [] then \<forall>x\<in>set xs. mx \<le> rec_sn x
          else map rec_sn xs = [start_sn (hd qs)..end_sn (hd qs)]
            \<and> qs = filter (\<lambda>m. start_sn m = start_sn (hd qs)) ms))
    \<and> increasing (n - 1) (map bucket_seq bs)"
proof -
  have inv: "scan_inv disk c mx n ms" using scan_result [OF assms(1)] assms(2) by auto
  let ?bs = "filter (\<lambda>x. fst x \<noteq> []) (buckets_of ms (mx - 1) rs)"
  have cat: "categorizeRecordsAccordingToSequenceRanges rs ms (mx - 1) = Some ?bs"
    by (rule categorize_eq [OF scan_ordered [OF assms(1) inv] assms(3)])
  have cover: "mset (concat (map fst ?bs)) = filter_mset (\<lambda>r. mx \<le> rec_sn r \<or> \<not> persisted disk (rec_sn r)) (mset rs)"
    unfolding concat_filter_ne by (rule buckets_cover [OF assms(1) inv assms(4)])
  have incr: "increasing (n - 1) (map bucket_seq ?bs)"
    by (rule buckets_increasing [OF assms(1) inv assms(4,5)])
  have each: "fst x \<noteq> [] \<and> (if snd x = [] then \<forall>y\<in>set (fst x). mx \<le> rec_sn y
      else map rec_sn (fst x) = [start_sn (hd (snd x))..end_sn (hd (snd x))]
        \<and> snd x = filter (\<lambda>m. start_sn m = start_sn (hd (snd x))) ms)" if x: "x \<in> set ?bs" for x
  proof (cases "x = new_bucket (mx - 1) rs")
    case True
    then show ?thesis using x by (auto simp: new_bucket_def)
  next
    case False
    then obtain i where i: "i < length ms" "x = bucket_of ms (mx - 1) rs i" using x by (auto simp: buckets_of_def split: if_splits)
    note br = bucket_records [OF assms(1) inv assms(4,5) i(1)]
    have ne: "fst x \<noteq> []" using x by simp
    then have "ms ! i \<in> set (snd x)" using br(3) i by auto
    then have "snd x \<noteq> []" by auto
    then show ?thesis using br(1-3) ne i(2) by simp
  qed
  have "\<forall>(xs, qs)\<in>set ?bs. xs \<noteq> [] \<and>
         (if qs = [] then \<forall>x\<in>set xs. mx \<le> rec_sn x
          else map rec_sn xs = [start_sn (hd qs)..end_sn (hd qs)]
            \<and> qs = filter (\<lambda>m. start_sn m = start_sn (hd qs)) ms)"
  proof (intro ballI, unfold case_prod_beta)
    fix x assume "x \<in> set ?bs"
    then show "fst x \<noteq> [] \<and> (if snd x = [] then \<forall>y\<in>set (fst x). mx \<le> rec_sn y
      else map rec_sn (fst x) = [start_sn (hd (snd x))..end_sn (hd (snd x))]
        \<and> snd x = filter (\<lambda>m. start_sn m = start_sn (hd (snd x))) ms)" by (rule each)
  qed
  with cat cover incr show ?thesis by blast
qed

abbreviation log_record :: "int \<Rightarrow> unit wal_record" where
  "log_record sn \<equiv> (wal_record_new ADD_DATA_BLOCK ())\<lparr>rec_sn := sn\<rparr>"

theorem recovery_routing_witness:
  "\<exists>bs. categorizeRecordsAccordingToSequenceRanges (map log_record [5..10])
        [SequenceRange2 5 6, SequenceRange 8 9 1 2] 9 = Some bs
     \<and> mset (concat (map fst bs)) = mset (map log_record [5, 6, 8, 9, 10]) \<and> increasing 4 (map bucket_seq bs)"
proof -
  let ?disk = "[SequenceRange 7 7 0 1, SequenceRange 8 9 0 2]" and ?ms = "[SequenceRange2 5 6, SequenceRange 8 9 1 2]"
  have wf: "wf_ranges ?disk 4" by (simp add: wf_ranges_def SequenceRange_def range_key_def)
  have scan: "missingSequenceRanges ?disk 4 = Some (?ms, 5, 10)" by code_simp
  have sns: "map rec_sn (map log_record [5..10]) = [5..10]" by (simp add: o_def)
  have p: "\<not> persisted ?disk 5" "\<not> persisted ?disk 6" "persisted ?disk 7" "\<not> persisted ?disk 8" "\<not> persisted ?disk 9"
    by code_simp+
  have count: "filter_mset (\<lambda>r. 10 \<le> rec_sn r \<or> \<not> persisted ?disk (rec_sn r)) (mset (map log_record [5..10]))
      = mset (map log_record [5, 6, 8, 9, 10])"
    using p by (simp add: upto.simps)
  obtain bs where "categorizeRecordsAccordingToSequenceRanges (map log_record [5..10]) ?ms (10 - 1) = Some bs"
    "mset (concat (map fst bs)) = mset (map log_record [5, 6, 8, 9, 10])" "increasing (5 - 1) (map bucket_seq bs)"
    using recovery_routing [OF wf scan _ sns] count by auto
  then show ?thesis by auto
qed

section \<open>Deduplication against recovery\<close>

text \<open>
  A block that was written in part can be lost.  All parts of a block carry the keys of its
  records, so after a crash between two parts the keys are loaded from the first part, and the
  record that recovery reads again for the second part is dropped as a duplicate.  Here the disk
  holds part 0 of 2 of record 5 with key \<open>k\<close>: the start reports part 1 missing, the callback gets
  record 5 again, and afterwards the storage has moved past 5 without a task that would write the
  missing part.
\<close>

theorem recovery_deduplicates_missing_part:
  "\<exists>mt cb st. populateCommittedSNFromParts [part_of 5 5 0 2 (Some [(5, ''k'')])] 10
       (merge_tree_init\<lparr>committed_sn := 4\<rparr>) = Some mt
     \<and> missing_sequence_ranges mt = [SequenceRange 5 5 1 2]
     \<and> callback_commit 10 True True (max_committed_sn mt)
         [(setIdempotentKey ''k'' (ex_record 5))]
         (callback_init (missing_sequence_ranges mt),
          storage_init (committed_sn mt) (last_idempotent_keys mt) \<lparr>file_sn = 4, remote_sn = 4\<rparr>) = Some (cb, st)
     \<and> finishRecovery cb \<and> last_sn (st_sns st) = 5 \<and> tasks st = [] \<and> st_persisted st = []"
proof -
  let ?mt = "\<lparr>committed_sn = 4, max_committed_sn = 5, missing_sequence_ranges = [SequenceRange 5 5 1 2],
     last_idempotent_keys = [''k''], sn_file = ([], 0)\<rparr>"
  have 1: "populateCommittedSNFromParts [part_of 5 5 0 2 (Some [(5, ''k'')])] 10
       (merge_tree_init\<lparr>committed_sn := 4\<rparr>) = Some ?mt"
    by code_simp
  have 2: "\<exists>cb st. callback_commit 10 True True 5 [(setIdempotentKey ''k'' (ex_record 5))]
         (callback_init [SequenceRange 5 5 1 2], storage_init 4 [''k''] \<lparr>file_sn = 4, remote_sn = 4\<rparr>) = Some (cb, st)
     \<and> finishRecovery cb \<and> last_sn (st_sns st) = 5 \<and> tasks st = [] \<and> st_persisted st = []"
    by (simp add: callback_commit_def callback_init_def finishRecovery_def categorizeRecordsAccordingToSequenceRanges_def
        categorize_record_def in_range_def SequenceRange_def ex_record_def setIdempotentKey_def wal_record_new_def
        callback_doCommit_def commit_def dedupBlock_def hasIdempotentKey_def idempotentKey_def buildIdempotentKeysIndex_def
        doCommit_def push_outstanding_def progressSequencesWithoutLock_def storage_init_def sns_init_def tasks_def)
  show ?thesis by (rule exI [of _ ?mt]) (use 1 2 in simp)
qed

end
