(* ===== verification/Commit_Blocks.thy ===== *)
theory Commit_Blocks
  imports Commit_Pipeline
begin

text \<open>
  What \<^verbatim>\<open>mergeBlocks\<close> computes when the blocks of a batch are merged, and what is left behind when it
  throws.
\<close>

section \<open>Merging blocks\<close>

definition block_names :: "'v block \<Rightarrow> string list" where
  "block_names b = map col_name b"

lemma block_names_notin: "name \<notin> set (block_names b) \<Longrightarrow> c \<in> set b \<Longrightarrow> col_name c \<noteq> name"
  unfolding block_names_def by (metis image_eqI list.set_map)

lemma append_cells_map:
  assumes "distinct (block_names b)"
  shows "append_cells name vs b = map (\<lambda>c. if col_name c = name then c\<lparr>col_cells := col_cells c @ vs\<rparr> else c) b"
  using assms
proof (induction b)
  case (Cons c b)
  have "col_name x \<noteq> col_name c" if "x \<in> set b" for x
    using Cons.prems that by (intro block_names_notin) (simp_all add: block_names_def)
  then have "map (\<lambda>x. if col_name x = name then x\<lparr>col_cells := col_cells x @ vs\<rparr> else x) b = b" if "col_name c = name"
    using that by (intro map_idI) simp
  then show ?case using Cons by (auto simp: block_names_def)
qed simp

lemma findByName_None: "findByName name b = None \<longleftrightarrow> name \<notin> set (block_names b)"
  by (auto simp: findByName_def find_None_iff block_names_def)

lemma findByName_Some: "findByName name b = Some d \<Longrightarrow> d \<in> set b \<and> col_name d = name"
  by (auto simp: findByName_def find_Some_iff)

definition merged_cells :: "'v block \<Rightarrow> 'v column \<Rightarrow> 'v list" where
  "merged_cells rhs c = (case findByName (col_name c) rhs of None \<Rightarrow> [] | Some d \<Rightarrow> col_cells d)"

lemma merged_cells_update [simp]: "merged_cells rhs (c\<lparr>col_cells := vs\<rparr>) = merged_cells rhs c"
  by (simp add: merged_cells_def)

definition merge_spec :: "nat \<Rightarrow> 'v block \<Rightarrow> 'v block \<Rightarrow> 'v block" where
  "merge_spec n lhs rhs =
     map (\<lambda>c. c\<lparr>col_cells := col_cells c @ merged_cells rhs c\<rparr>) lhs
     @ map (\<lambda>d. d\<lparr>col_cells := replicate n (col_default d) @ col_cells d\<rparr>)
         (filter (\<lambda>d. col_name d \<notin> set (block_names lhs)) rhs)"

lemma merge_column_spec:
  assumes "distinct (block_names lhs)"
  shows "merge_column n d lhs =
    (if col_name d \<in> set (block_names lhs)
     then map (\<lambda>c. if col_name c = col_name d then c\<lparr>col_cells := col_cells c @ col_cells d\<rparr> else c) lhs
     else lhs @ [d\<lparr>col_cells := replicate n (col_default d) @ col_cells d\<rparr>])"
proof (cases "col_name d \<in> set (block_names lhs)")
  case True
  then have "findByName (col_name d) lhs \<noteq> None" by (simp add: findByName_None)
  then show ?thesis using True append_cells_map [OF assms] by (auto simp: merge_column_def Let_def)
next
  case False
  have "append_cells (col_name d) vs (lhs @ [d\<lparr>col_cells := ws\<rparr>]) = lhs @ [d\<lparr>col_cells := ws @ vs\<rparr>]" for vs ws
    using False by (induction lhs) (auto simp: block_names_def)
  moreover have "findByName (col_name d) lhs = None" using False by (simp add: findByName_None)
  ultimately show ?thesis using False by (simp add: merge_column_def)
qed

lemma block_names_merge_column:
  "distinct (block_names lhs) \<Longrightarrow>
   block_names (merge_column n d lhs) = (if col_name d \<in> set (block_names lhs) then block_names lhs else block_names lhs @ [col_name d])"
  by (auto simp: merge_column_spec block_names_def)

lemma fold_merge_column:
  assumes "distinct (block_names lhs)" "distinct (block_names rhs)"
  shows "fold (merge_column n) rhs lhs = merge_spec n lhs rhs"
  using assms
proof (induction rhs arbitrary: lhs)
  case Nil
  then show ?case by (simp add: merge_spec_def merged_cells_def findByName_def)
next
  case (Cons d rhs)
  let ?m = "merge_column n d lhs"
  have d: "col_name d \<notin> set (block_names rhs)" and rhs: "distinct (block_names rhs)"
    using Cons.prems(2) by (simp_all add: block_names_def)
  have "distinct (block_names ?m)" using Cons.prems(1) by (simp add: block_names_merge_column)
  from Cons.IH [OF this rhs] have IH: "fold (merge_column n) rhs ?m = merge_spec n ?m rhs" .
  have cells_d: "merged_cells (d # rhs) c = (if col_name c = col_name d then col_cells d else merged_cells rhs c)" for c
    by (simp add: merged_cells_def findByName_def)
  have no: "merged_cells rhs c = []" if "col_name c = col_name d" for c
    using that d findByName_None [of "col_name c" rhs] by (simp add: merged_cells_def)
  have flt: "filter (\<lambda>e. col_name e \<notin> set (block_names ?m)) rhs = filter (\<lambda>e. col_name e \<notin> set (block_names lhs)) rhs"
  proof (intro filter_cong refl)
    fix e assume "e \<in> set rhs"
    then have "col_name e \<noteq> col_name d" using d by (intro block_names_notin)
    then show "(col_name e \<notin> set (block_names ?m)) = (col_name e \<notin> set (block_names lhs))"
      unfolding block_names_merge_column [OF Cons.prems(1)] by simp
  qed
  show ?case
  proof (cases "col_name d \<in> set (block_names lhs)")
    case True
    have "map (\<lambda>c. c\<lparr>col_cells := col_cells c @ merged_cells rhs c\<rparr>) ?m
        = map (\<lambda>c. c\<lparr>col_cells := col_cells c @ merged_cells (d # rhs) c\<rparr>) lhs"
      using no by (auto simp: merge_column_spec [OF Cons.prems(1)] True cells_d)
    then show ?thesis using True IH flt by (simp add: merge_spec_def)
  next
    case False
    have "map (\<lambda>c. c\<lparr>col_cells := col_cells c @ merged_cells rhs c\<rparr>) lhs
        = map (\<lambda>c. c\<lparr>col_cells := col_cells c @ merged_cells (d # rhs) c\<rparr>) lhs"
      using block_names_notin [OF False] by (simp add: cells_d)
    then show ?thesis using False IH flt no [of d]
      by (simp add: merge_spec_def merge_column_spec [OF Cons.prems(1)])
  qed
qed

lemma merge_spec_rows:
  assumes "checkNumberOfRows lhs" "checkNumberOfRows rhs" "lhs \<noteq> []" "rhs \<noteq> []" "block_rows rhs > 0"
  shows "checkNumberOfRows (merge_spec (block_rows lhs) lhs rhs) \<longleftrightarrow> set (block_names lhs) \<subseteq> set (block_names rhs)"
proof -
  let ?n = "block_rows lhs" and ?m = "block_rows rhs" and ?b = "merge_spec (block_rows lhs) lhs rhs"
  have l: "length (col_cells c) = ?n" if "c \<in> set lhs" for c using assms(1) that by (auto simp: checkNumberOfRows_def list_all_iff)
  have r: "length (col_cells d) = ?m" if "d \<in> set rhs" for d using assms(2) that by (auto simp: checkNumberOfRows_def list_all_iff)
  have cells: "length (merged_cells rhs c) = (if col_name c \<in> set (block_names rhs) then ?m else 0)" for c
  proof (cases "findByName (col_name c) rhs")
    case None
    then show ?thesis using findByName_None [of "col_name c" rhs] by (simp add: merged_cells_def)
  next
    case (Some d)
    then have "col_name c \<in> set (block_names rhs)" using findByName_None [of "col_name c" rhs] by (metis option.distinct(1))
    then show ?thesis using Some r findByName_Some [OF Some] by (simp add: merged_cells_def)
  qed
  obtain c0 cs where lhs: "lhs = c0 # cs" using assms(3) by (cases lhs) auto
  have rows: "block_rows ?b = ?n + length (merged_cells rhs c0)" by (simp add: merge_spec_def lhs)
  show ?thesis
  proof
    assume ok: "checkNumberOfRows ?b"
    then have each: "length (col_cells e) = block_rows ?b" if "e \<in> set ?b" for e
      using that unfolding checkNumberOfRows_def list_all_iff by blast
    have all: "length (merged_cells rhs c) = length (merged_cells rhs c0)" if "c \<in> set lhs" for c
    proof -
      have "c\<lparr>col_cells := col_cells c @ merged_cells rhs c\<rparr> \<in> set ?b" using that by (simp add: merge_spec_def)
      from each [OF this] show ?thesis using l [OF that] rows by simp
    qed
    have "col_name c0 \<in> set (block_names rhs)"
    proof (rule ccontr)
      assume no: "col_name c0 \<notin> set (block_names rhs)"
      have "hd rhs \<in> set rhs" using assms(4) by simp
      then obtain d where d: "d \<in> set rhs" by blast
      have zero: "length (merged_cells rhs c0) = 0" using cells [of c0] no by simp
      show False
      proof (cases "col_name d \<in> set (block_names lhs)")
        case True
        then obtain c where c: "c \<in> set lhs" "col_name c = col_name d" by (auto simp: block_names_def)
        have "col_name c \<in> set (block_names rhs)" using c(2) d by (simp add: block_names_def)
        then have "length (merged_cells rhs c) = ?m" using cells by simp
        then show False using all [OF c(1)] zero assms(5) by linarith
      next
        case False
        then have "d\<lparr>col_cells := replicate ?n (col_default d) @ col_cells d\<rparr> \<in> set ?b"
          using d by (simp add: merge_spec_def)
        from each [OF this] have "?n + length (col_cells d) = block_rows ?b" by simp
        then show False using rows zero r [OF d] assms(5) by linarith
      qed
    qed
    then have "length (merged_cells rhs c0) = ?m" using cells by simp
    then have "col_name c \<in> set (block_names rhs)" if "c \<in> set lhs" for c
      using all [OF that] cells [of c] assms(5) by (metis less_numeral_extra(3))
    then show "set (block_names lhs) \<subseteq> set (block_names rhs)" by (auto simp: block_names_def)
  next
    assume sub: "set (block_names lhs) \<subseteq> set (block_names rhs)"
    have "length (merged_cells rhs c) = ?m" if "c \<in> set lhs" for c
    proof -
      have "col_name c \<in> set (block_names rhs)" using sub that by (auto simp: block_names_def)
      then show ?thesis using cells by simp
    qed
    then have "length (col_cells e) = ?n + ?m" if "e \<in> set ?b" for e
      using that l r by (auto simp: merge_spec_def)
    moreover have "block_rows ?b = ?n + ?m"
      using rows \<open>\<And>c. c \<in> set lhs \<Longrightarrow> length (merged_cells rhs c) = ?m\<close> [of c0] lhs by simp
    ultimately show "checkNumberOfRows ?b" unfolding checkNumberOfRows_def list_all_iff by simp
  qed
qed

text \<open>
  C31.  Merging the blocks of a batch.  For two blocks with consistent columns, of which the second
  has rows, \<^verbatim>\<open>mergeBlocks\<close> succeeds exactly when every column of the first also occurs in the second;
  then every column of the first is continued by the cells of the second, and a column that only
  the second has starts with default values for the rows of the first.  In the other direction (a
  column only the first has) the code adds no defaults, and the consistency check throws.
\<close>

theorem mergeBlocks_exact:
  assumes "checkNumberOfRows lhs" "checkNumberOfRows rhs" "lhs \<noteq> []" "rhs \<noteq> []" "block_rows rhs > 0"
    and "distinct (block_names lhs)" "distinct (block_names rhs)"
  shows "mergeBlocks lhs rhs =
    (if set (block_names lhs) \<subseteq> set (block_names rhs) then Inr (merge_spec (block_rows lhs) lhs rhs)
     else Inl SIZES_OF_COLUMNS_DOESNT_MATCH)"
  using merge_spec_rows [OF assms(1-5)] fold_merge_column [OF assms(6,7), of "block_rows lhs"]
  by (simp add: mergeBlocks_def Let_def)

theorem mergeBlocks_exact_witness:
  "mergeBlocks [\<lparr>col_name = ''a'', col_default = 0, col_cells = [1, 2]\<rparr>]
       [\<lparr>col_name = ''b'', col_default = 9, col_cells = [3 :: nat]\<rparr>, \<lparr>col_name = ''a'', col_default = 0, col_cells = [4]\<rparr>]
     = Inr [\<lparr>col_name = ''a'', col_default = 0, col_cells = [1, 2, 4]\<rparr>, \<lparr>col_name = ''b'', col_default = 9, col_cells = [9, 9, 3]\<rparr>]"
  using mergeBlocks_exact [of "[\<lparr>col_name = ''a'', col_default = 0, col_cells = [1, 2]\<rparr>]"
      "[\<lparr>col_name = ''b'', col_default = 9, col_cells = [3 :: nat]\<rparr>, \<lparr>col_name = ''a'', col_default = 0, col_cells = [4]\<rparr>]"]
  by (simp add: checkNumberOfRows_def block_names_def merge_spec_def merged_cells_def findByName_def numeral_2_eq_2)

section \<open>A failed batch\<close>

definition keyed_record :: "int \<Rightarrow> string \<Rightarrow> string list \<Rightarrow> int block wal_record" where
  "keyed_record sn key names = (setIdempotentKey key (wal_record_new ADD_DATA_BLOCK
     (map (\<lambda>n. \<lparr>col_name = n, col_default = 0, col_cells = [1]\<rparr>) names)))\<lparr>rec_sn := sn\<rparr>"

text \<open>
  A batch that fails leaves its keys behind.  When the second block of a batch lacks a column
  of the first, \<^verbatim>\<open>commit\<close> throws, the batch is neither scheduled nor counted as consumed, but the
  keys of its records are in the index; when the client sends the first record again under the same
  key, it is dropped as a duplicate although its data was never written.
\<close>

theorem failed_batch_keeps_keys:
  "\<exists>st1 st2. commit 10 True True [keyed_record 5 ''k'' [''a'', ''b''], keyed_record 6 ''l'' [''a'']] [] ex_start
       = Some (Some SIZES_OF_COLUMNS_DOESNT_MATCH, st1)
     \<and> tasks st1 = [] \<and> st_consumed st1 = []
     \<and> commit 10 True True [keyed_record 7 ''k'' [''a'', ''b'']] [] st1 = Some (None, st2)
     \<and> st_deduped st2 = [(7, 7)] \<and> tasks st2 = []"
proof -
  let ?st1 = "ex_start\<lparr>st_dedup := \<lparr>idempotent_keys_deque = [''k'', ''l''], idempotent_keys_index = {''k'', ''l''}\<rparr>\<rparr>"
  have 1: "commit 10 True True [keyed_record 5 ''k'' [''a'', ''b''], keyed_record 6 ''l'' [''a'']] [] ex_start
       = Some (Some SIZES_OF_COLUMNS_DOESNT_MATCH, ?st1)"
    by (simp add: commit_def keyed_record_def setIdempotentKey_def wal_record_new_def dedupBlock_def hasIdempotentKey_def
        idempotentKey_def addIdempotentKey_def buildIdempotentKeysIndex_def mergeBlocks_def merge_column_def findByName_def
        checkNumberOfRows_def ex_start_def storage_init_def insert_commute)
  have 2: "commit_loop 10 [keyed_record 7 ''k'' [''a'', ''b'']] ([], [], st_dedup ?st1) = Some (None, ([], [], st_dedup ?st1))"
    by (simp add: keyed_record_def setIdempotentKey_def wal_record_new_def dedupBlock_def hasIdempotentKey_def idempotentKey_def)
  have 3: "\<exists>st2. commit 10 True True [keyed_record 7 ''k'' [''a'', ''b'']] [] ?st1 = Some (None, st2)
     \<and> st_deduped st2 = [(7, 7)] \<and> tasks st2 = []"
    unfolding commit_def 2
    by (simp add: doCommit_def progressSequencesWithoutLock_def push_outstanding_def keyed_record_def ex_start_def
        storage_init_def sns_init_def tasks_def)
  have 4: "tasks ?st1 = []" "st_consumed ?st1 = []" by (simp_all add: ex_start_def storage_init_def tasks_def)
  show ?thesis using 1 3 4 by blast
qed

end
