(* ===== verification/Block_Sharding.thy ===== *)
theory Block_Sharding
  imports Commit_Blocks
begin

text \<open>
  Splitting an inserted block over the shards of a table: \<^verbatim>\<open>createBlockSelector\<close>
  (\<^verbatim>\<open>src/src/Interpreters/createBlockSelector.cpp\<close>), \<^verbatim>\<open>IColumn::scatterImpl\<close>, the two
  \<^verbatim>\<open>createSelector\<close> functions of \<^verbatim>\<open>StorageDistributedMergeTree.cpp\<close>, and \<^verbatim>\<open>doShardBlock\<close> and
  \<^verbatim>\<open>shardBlock\<close> of \<^verbatim>\<open>DistributedMergeTreeBlockOutputStream.cpp\<close>.  The sharding expression belongs to the
  table definition; it is an argument of the model.
\<close>

section \<open>Selectors\<close>

datatype int_type = UInt8 | UInt16 | UInt32 | UInt64 | Int8 | Int16 | Int32 | Int64

fun type_bits :: "int_type \<Rightarrow> nat" where
  "type_bits UInt8 = 8" | "type_bits UInt16 = 16" | "type_bits UInt32 = 32" | "type_bits UInt64 = 64"
| "type_bits Int8 = 8" | "type_bits Int16 = 16" | "type_bits Int32 = 32" | "type_bits Int64 = 64"

fun type_signed :: "int_type \<Rightarrow> bool" where
  "type_signed Int8 = True" | "type_signed Int16 = True" | "type_signed Int32 = True" | "type_signed Int64 = True"
| "type_signed _ = False"

definition in_type :: "int_type \<Rightarrow> int \<Rightarrow> bool" where
  "in_type ty x \<longleftrightarrow> (if type_signed ty then - (2 ^ (type_bits ty - 1)) \<le> x \<and> x < 2 ^ (type_bits ty - 1)
     else 0 \<le> x \<and> x < 2 ^ type_bits ty)"

text \<open>The column of key values: a constant with a number of rows, or a vector.\<close>

datatype key_column = Const_column int nat | Vector_column "int list"

fun column_rows :: "key_column \<Rightarrow> nat" where
  "column_rows (Const_column _ n) = n"
| "column_rows (Vector_column xs) = length xs"

text \<open>
  The index of a row's slot.  A constant is cast to the unsigned type of the same width; an entry of a
  vector is cast to \<^verbatim>\<open>UInt32\<close> or \<^verbatim>\<open>UInt64\<close>.  The divider is built from the number of slots cast to
  that type, the multiplication is in \<^verbatim>\<open>size_t\<close>.  \<open>None\<close> is a division by zero or an index out of range.
\<close>

definition const_slot :: "int_type \<Rightarrow> nat list \<Rightarrow> int \<Rightarrow> nat option" where
  "const_slot ty slots x =
     (if slots = [] then None else Some (slots ! nat (x mod 2 ^ type_bits ty mod int (length slots))))"

definition wide_bits :: "int_type \<Rightarrow> nat" where
  "wide_bits ty = (if type_bits ty \<le> 32 then 32 else 64)"

definition vector_slot :: "int_type \<Rightarrow> nat list \<Rightarrow> int \<Rightarrow> nat option" where
  "vector_slot ty slots x =
     (let a = x mod 2 ^ wide_bits ty;
          d = int (length slots) mod 2 ^ wide_bits ty;
          i = (a - a div d * int (length slots)) mod 2 ^ 64
      in if d = 0 \<or> int (length slots) \<le> i then None else Some (slots ! nat i))"

fun vector_slots :: "int_type \<Rightarrow> nat list \<Rightarrow> int list \<Rightarrow> nat list option" where
  "vector_slots ty slots [] = Some []"
| "vector_slots ty slots (x # xs) =
     (case vector_slot ty slots x of None \<Rightarrow> None | Some s \<Rightarrow> map_option ((#) s) (vector_slots ty slots xs))"

fun createBlockSelector :: "int_type \<Rightarrow> key_column \<Rightarrow> nat list \<Rightarrow> nat list option" where
  "createBlockSelector ty (Const_column x n) slots = map_option (replicate n) (const_slot ty slots x)"
| "createBlockSelector ty (Vector_column xs) slots = vector_slots ty slots xs"

definition slot_to_shard :: "int \<Rightarrow> nat list" where
  "slot_to_shard shards = [0..<nat shards]"

text \<open>The type of the key column: an integer type, the same inside \<^verbatim>\<open>LowCardinality\<close>, or another type.\<close>

datatype key_type = Plain int_type | Low_cardinality int_type | Other_type

datatype insert_error =
    TYPE_MISMATCH
  | INSERT_SIZES_OF_COLUMNS_DOESNT_MATCH
  | UNSUPPORTED_PARAMETER string
  | INSERT_FAILED int

fun createSelector_column :: "int \<Rightarrow> key_type \<times> key_column \<Rightarrow> (insert_error, nat list) result option" where
  "createSelector_column shards (Plain ty, c) = map_option Inr (createBlockSelector ty c (slot_to_shard shards))"
| "createSelector_column shards (Low_cardinality ty, c) = map_option Inr (createBlockSelector ty c (slot_to_shard shards))"
| "createSelector_column shards (Other_type, c) = Some (Inl TYPE_MISMATCH)"

definition createSelector ::
    "int \<Rightarrow> ('v block \<Rightarrow> key_type \<times> key_column) \<Rightarrow> 'v block \<Rightarrow> (insert_error, nat list) result option" where
  "createSelector shards key_expr block = createSelector_column shards (key_expr block)"

section \<open>Splitting a block\<close>

fun scatter_rows :: "'v list \<Rightarrow> nat list \<Rightarrow> 'v list list \<Rightarrow> 'v list list option" where
  "scatter_rows (x # xs) (s # ss) cols =
     (if s < length cols then scatter_rows xs ss (cols[s := cols ! s @ [x]]) else None)"
| "scatter_rows _ _ cols = Some cols"

definition scatterImpl :: "nat \<Rightarrow> nat list \<Rightarrow> 'v list \<Rightarrow> (insert_error, 'v list list) result option" where
  "scatterImpl num_columns selector xs =
     (if length xs \<noteq> length selector then Some (Inl INSERT_SIZES_OF_COLUMNS_DOESNT_MATCH)
      else map_option Inr (scatter_rows xs selector (replicate num_columns [])))"

text \<open>The loop over the columns: each scattered column is put into the blocks of its shards.\<close>

fun scatter_columns ::
    "nat \<Rightarrow> nat list \<Rightarrow> 'v block \<Rightarrow> 'v block list \<Rightarrow> (insert_error, 'v block list) result option" where
  "scatter_columns n selector [] sharded = Some (Inr sharded)"
| "scatter_columns n selector (c # cs) sharded =
     (case scatterImpl n selector (col_cells c) of
        None \<Rightarrow> None
      | Some (Inl e) \<Rightarrow> Some (Inl e)
      | Some (Inr pieces) \<Rightarrow>
          scatter_columns n selector cs (map2 (\<lambda>b part. b @ [c\<lparr>col_cells := part\<rparr>]) sharded pieces))"

definition doShardBlock ::
    "int \<Rightarrow> ('v block \<Rightarrow> key_type \<times> key_column) \<Rightarrow> 'v block \<Rightarrow> (insert_error, ('v block \<times> nat) list) result option" where
  "doShardBlock shards key_expr block =
     (case createSelector shards key_expr block of
        None \<Rightarrow> None
      | Some (Inl e) \<Rightarrow> Some (Inl e)
      | Some (Inr selector) \<Rightarrow>
          (case scatter_columns (nat shards) selector block (replicate (nat shards) []) of
             None \<Rightarrow> None
           | Some (Inl e) \<Rightarrow> Some (Inl e)
           | Some (Inr sharded) \<Rightarrow>
               Some (Inr (filter (\<lambda>(b, s). block_rows b \<noteq> 0) (zip sharded [0..<length sharded])))))"

text \<open>\<open>rnd\<close> is the shard that \<^verbatim>\<open>getRandomShardIndex\<close> draws.\<close>

definition shardBlock ::
    "int \<Rightarrow> ('v block \<Rightarrow> key_type \<times> key_column) option \<Rightarrow> nat \<Rightarrow> 'v block
      \<Rightarrow> (insert_error, ('v block \<times> nat) list) result option" where
  "shardBlock shards key_expr rnd block =
     (if shards > 1 then
        (case key_expr of
           Some ke \<Rightarrow> doShardBlock shards ke block
         | None \<Rightarrow> Some (Inr [(block, rnd)]))
      else Some (Inr [(block, 0)]))"

section \<open>Lemmas\<close>

text \<open>The rows of a column that a selector sends to a shard, in order.\<close>

definition rows_of :: "nat list \<Rightarrow> nat \<Rightarrow> 'v list \<Rightarrow> 'v list" where
  "rows_of selector s xs = map fst (filter (\<lambda>p. snd p = s) (zip xs selector))"

definition shard_part :: "nat list \<Rightarrow> nat \<Rightarrow> 'v block \<Rightarrow> 'v block" where
  "shard_part selector s b = map (\<lambda>c. c\<lparr>col_cells := rows_of selector s (col_cells c)\<rparr>) b"

lemma scatter_rows_spec:
  assumes "length xs = length sel" "\<forall>s\<in>set sel. s < length cols"
  shows "scatter_rows xs sel cols = Some (map (\<lambda>s. cols ! s @ rows_of sel s xs) [0..<length cols])"
  using assms
proof (induction xs sel cols rule: scatter_rows.induct)
  case (1 x xs s ss cols)
  have "scatter_rows xs ss (cols[s := cols ! s @ [x]])
      = Some (map (\<lambda>t. cols[s := cols ! s @ [x]] ! t @ rows_of ss t xs) [0..<length cols])"
    using 1 by simp
  moreover have "cols[s := cols ! s @ [x]] ! t @ rows_of ss t xs = cols ! t @ rows_of (s # ss) t (x # xs)"
    if "t < length cols" for t using that by (simp add: rows_of_def nth_list_update)
  ultimately show ?case using 1(3) by simp
qed (simp_all add: rows_of_def map_nth)

lemma scatterImpl_spec:
  assumes "length xs = length sel" "\<forall>s\<in>set sel. s < n"
  shows "scatterImpl n sel xs = Some (Inr (map (\<lambda>s. rows_of sel s xs) [0..<n]))"
proof -
  have "map (\<lambda>s. replicate n [] ! s @ rows_of sel s xs) [0..<n] = map (\<lambda>s. rows_of sel s xs) [0..<n]" by simp
  then show ?thesis using scatter_rows_spec[of xs sel "replicate n []"] assms by (simp add: scatterImpl_def)
qed

lemma scatter_columns_spec:
  assumes "\<forall>c\<in>set b. length (col_cells c) = length sel" "\<forall>s\<in>set sel. s < n" "length acc = n"
  shows "scatter_columns n sel b acc = Some (Inr (map (\<lambda>s. acc ! s @ shard_part sel s b) [0..<n]))"
  using assms
proof (induction b arbitrary: acc)
  case Nil
  then show ?case using map_nth[of acc] by (auto simp: shard_part_def)
next
  case (Cons c b)
  let ?acc = "map2 (\<lambda>b part. b @ [c\<lparr>col_cells := part\<rparr>]) acc (map (\<lambda>s. rows_of sel s (col_cells c)) [0..<n])"
  have "scatter_columns n sel b ?acc = Some (Inr (map (\<lambda>s. ?acc ! s @ shard_part sel s b) [0..<n]))"
    by (rule Cons.IH) (use Cons.prems in simp_all)
  moreover have "scatterImpl n sel (col_cells c) = Some (Inr (map (\<lambda>s. rows_of sel s (col_cells c)) [0..<n]))"
    by (rule scatterImpl_spec) (use Cons.prems in simp_all)
  ultimately show ?case using Cons.prems(3) by (simp add: shard_part_def)
qed


lemma rows_of_Cons: "rows_of (s # ss) t (x # xs) = (if s = t then [x] else []) @ rows_of ss t xs"
  by (simp add: rows_of_def)

lemma mset_concat_upt: "mset (concat (map f [0..<n])) = (\<Sum>t<n. mset (f t))"
  by (induction n) (simp_all add: add.commute)

lemma rows_of_mset:
  assumes "length xs = length sel" "\<forall>s\<in>set sel. s < n"
  shows "mset (concat (map (\<lambda>s. rows_of sel s xs) [0..<n])) = mset xs"
  using assms
proof (induction xs sel rule: list_induct2)
  case Nil
  then show ?case by (simp add: rows_of_def mset_concat_upt)
next
  case (Cons x xs s ss)
  have "(\<Sum>t<n. mset (if s = t then [x] else [])) = (\<Sum>t<n. if t = s then {#x#} else {#})"
    by (rule sum.cong) auto
  also have "\<dots> = {#x#}" using Cons.prems by (simp add: sum.delta')
  finally show ?case using Cons by (simp add: mset_concat_upt rows_of_Cons sum.distrib)
qed

lemma rows_of_Nil_iff: "length xs = length sel \<Longrightarrow> rows_of sel s xs = [] \<longleftrightarrow> s \<notin> set sel"
  by (induction xs sel rule: list_induct2) (auto simp: rows_of_def)

lemma block_rows_shard_part:
  assumes "\<forall>c\<in>set b. length (col_cells c) = length sel" "length sel = block_rows b"
  shows "block_rows (shard_part sel s b) \<noteq> 0 \<longleftrightarrow> s \<in> set sel"
proof (cases b)
  case Nil
  then show ?thesis using assms by (simp add: shard_part_def)
next
  case (Cons c cs)
  then show ?thesis using assms rows_of_Nil_iff[of "col_cells c" sel s] by (simp add: shard_part_def)
qed

lemma vector_slot_mod:
  assumes "slots \<noteq> []" "length slots < 2 ^ 32"
  shows "vector_slot ty slots x = Some (slots ! nat (x mod 2 ^ wide_bits ty mod int (length slots)))"
proof -
  define n where "n = int (length slots)"
  have n: "0 < n" "n < 2 ^ 32" using assms by (simp_all add: n_def)
  have w: "(2::int) ^ 32 \<le> 2 ^ wide_bits ty" by (simp add: wide_bits_def)
  define a where "a = x mod 2 ^ wide_bits ty"
  have d: "n mod 2 ^ wide_bits ty = n" using n w by (intro mod_pos_pos_trivial) linarith+
  have i: "a - a div n * n = a mod n" by (simp add: minus_div_mult_eq_mod)
  have "0 \<le> a mod n" "a mod n < n" using n by simp_all
  then have m: "(a mod n) mod 2 ^ 64 = a mod n" using n(2) by (intro mod_pos_pos_trivial) simp_all
  show ?thesis
    unfolding vector_slot_def Let_def n_def[symmetric] a_def[symmetric] d i m using n by (simp add: not_le)
qed

lemma vector_slots_map:
  assumes "slots \<noteq> []" "length slots < 2 ^ 32"
  shows "vector_slots ty slots xs = Some (map (\<lambda>x. slots ! nat (x mod 2 ^ wide_bits ty mod int (length slots))) xs)"
  by (induction xs) (simp_all add: vector_slot_mod[OF assms])

lemma nat_mod_less: "xs \<noteq> [] \<Longrightarrow> nat (y mod int (length xs)) < length xs"
  by (simp add: nat_less_iff)

lemma createBlockSelector_ok:
  assumes "slots \<noteq> []" "length slots < 2 ^ 32"
  shows "\<exists>sel. createBlockSelector ty c slots = Some sel \<and> length sel = column_rows c \<and> set sel \<subseteq> set slots"
proof (cases c)
  case (Const_column x n)
  then show ?thesis using assms nat_mod_less[OF assms(1)] by (auto simp: const_slot_def)
next
  case (Vector_column xs)
  then show ?thesis using nat_mod_less[OF assms(1)] by (auto simp: vector_slots_map[OF assms])
qed

lemma const_vector_agree:
  assumes "in_type ty x" "0 \<le> x \<or> 32 \<le> type_bits ty"
  shows "x mod 2 ^ wide_bits ty = x mod 2 ^ type_bits ty"
  using assms by (cases ty) (auto simp: in_type_def wide_bits_def)

section \<open>Claims\<close>

text \<open>
  C19.  Sharding loses, repeats and reorders nothing.  For a table with shards, an integer sharding key and
  a block whose columns have the same number of rows, there is a shard below the number of shards for every
  row, and \<^verbatim>\<open>doShardBlock\<close> returns exactly one non-empty block for each shard that some row belongs to,
  in increasing order, which holds in every column the rows of that shard in their order; together
  the blocks hold every cell of every column exactly once.
\<close>

theorem sharding_partitions_rows:
  assumes "0 < shards" "shards < 2 ^ 31" "key_expr block = (kt, c)" "kt \<noteq> Other_type"
    "column_rows c = block_rows block" "checkNumberOfRows block"
  shows "\<exists>sel. createSelector shards key_expr block = Some (Inr sel) \<and> length sel = block_rows block
    \<and> (\<forall>s\<in>set sel. s < nat shards)
    \<and> doShardBlock shards key_expr block
        = Some (Inr (map (\<lambda>s. (shard_part sel s block, s)) (filter (\<lambda>s. s \<in> set sel) [0..<nat shards])))
    \<and> (\<forall>col\<in>set block. mset (concat (map (\<lambda>s. rows_of sel s (col_cells col)) [0..<nat shards])) = mset (col_cells col))"
proof -
  have sl: "slot_to_shard shards \<noteq> []" "length (slot_to_shard shards) < 2 ^ 32" "set (slot_to_shard shards) = {..<nat shards}"
    using assms(1,2) by (auto simp: slot_to_shard_def)
  obtain ty where ty: "kt = Plain ty \<or> kt = Low_cardinality ty" using assms(4) by (cases kt) auto
  from createBlockSelector_ok[OF sl(1,2), of ty c] obtain sel where
    sel: "createBlockSelector ty c (slot_to_shard shards) = Some sel" "length sel = column_rows c" "set sel \<subseteq> {..<nat shards}"
    using sl(3) by auto
  have cs: "createSelector shards key_expr block = Some (Inr sel)"
    using ty sel(1) assms(3) by (auto simp: createSelector_def)
  have lt: "\<forall>s\<in>set sel. s < nat shards" using sel(3) by auto
  have len: "length sel = block_rows block" using sel(2) assms(5) by simp
  have cols: "\<forall>c\<in>set block. length (col_cells c) = length sel"
    using assms(6) len by (simp add: checkNumberOfRows_def list_all_iff)
  have sc: "scatter_columns (nat shards) sel block (replicate (nat shards) [])
      = Some (Inr (map (\<lambda>s. shard_part sel s block) [0..<nat shards]))"
    using scatter_columns_spec[OF cols lt, of "replicate (nat shards) []"] by simp
  have z: "zip (map f [0..<n]) [0..<n] = map (\<lambda>s. (f s, s)) [0..<n]" for f :: "nat \<Rightarrow> 'a block" and n
    by (rule nth_equalityI) simp_all
  have "doShardBlock shards key_expr block
      = Some (Inr (map (\<lambda>s. (shard_part sel s block, s)) (filter (\<lambda>s. s \<in> set sel) [0..<nat shards])))"
    by (simp add: doShardBlock_def cs sc z filter_map o_def block_rows_shard_part[OF cols len, simplified])
  then show ?thesis using cs len lt cols rows_of_mset[OF _ lt] by (intro exI[of _ sel]) auto
qed

definition ex_block :: "int block" where
  "ex_block = [\<lparr>col_name = ''k'', col_default = 0, col_cells = [4, 7, 1, 4]\<rparr>,
     \<lparr>col_name = ''v'', col_default = 0, col_cells = [10, 20, 30, 40]\<rparr>]"

definition ex_key :: "int block \<Rightarrow> key_type \<times> key_column" where
  "ex_key b = (Plain Int64, Vector_column (case findByName ''k'' b of None \<Rightarrow> [] | Some c \<Rightarrow> col_cells c))"

theorem sharding_partitions_rows_witness:
  "\<exists>sel. createSelector 3 ex_key ex_block = Some (Inr sel) \<and> length sel = 4
    \<and> doShardBlock 3 ex_key ex_block = Some (Inr [(shard_part [1, 1, 1, 1] 1 ex_block, 1)])"
proof -
  have "column_rows (Vector_column [4, 7, 1, 4]) = block_rows ex_block" "checkNumberOfRows ex_block"
    "ex_key ex_block = (Plain Int64, Vector_column [4, 7, 1, 4])"
    by code_simp+
  from sharding_partitions_rows[of 3 ex_key ex_block, OF _ _ this(3) _ this(1,2)]
  have "\<exists>sel. createSelector 3 ex_key ex_block = Some (Inr sel) \<and> length sel = block_rows ex_block" by auto
  moreover have "block_rows ex_block = 4"
    "doShardBlock 3 ex_key ex_block = Some (Inr [(shard_part [1, 1, 1, 1] 1 ex_block, 1)])"
    by code_simp+
  ultimately show ?thesis by simp
qed

text \<open>
  A constant key column selects the same shards as a vector of that constant (the first is what a
  constant condition of a query evaluates to, the second what an insert sees) when the value is not
  negative or its type has at least 32 bits.
\<close>

theorem const_selects_as_vector:
  assumes "slots \<noteq> []" "length slots < 2 ^ 32" "in_type ty x" "0 \<le> x \<or> 32 \<le> type_bits ty"
  shows "createBlockSelector ty (Const_column x n) slots = createBlockSelector ty (Vector_column (replicate n x)) slots"
  using assms(1) by (simp add: vector_slots_map[OF assms(1,2)] const_slot_def const_vector_agree[OF assms(3,4)])

theorem const_selects_as_vector_witness:
  "createBlockSelector Int64 (Const_column (- 5) 3) [0, 1, 2, 3] = createBlockSelector Int64 (Vector_column (replicate 3 (- 5))) [0, 1, 2, 3]"
proof -
  have "in_type Int64 (- 5)" "32 \<le> type_bits Int64" by code_simp+
  then show ?thesis using const_selects_as_vector[of "[0, 1, 2, 3]" Int64 "- 5" 3] by simp
qed

text \<open>
  For a negative key of a type with 8 or 16 bits the two paths of \<^verbatim>\<open>createBlockSelector\<close> differ: the constant is cast
  to the unsigned type of its own width, the vector's entry is sign-extended to 32 bits.  With 11 shards, rows
  inserted with the \<^verbatim>\<open>Int8\<close> key -1 are in shard 3, and a query with that constant is sent to shard 2.
\<close>

theorem const_selects_other_shard:
  "createSelector_column 11 (Plain Int8, Const_column (- 1) 1) = Some (Inr [2])
   \<and> createSelector_column 11 (Plain Int8, Vector_column [- 1]) = Some (Inr [3])"
  by code_simp

end
