(* ===== verification/Ingesting_Blocks.thy ===== *)
theory Ingesting_Blocks
  imports Daisy_Prelude "HOL-Library.AList"
begin

text \<open>
  The status of asynchronous inserts, \<^verbatim>\<open>src/src/Storages/DistributedMergeTree/IngestingBlocks.cpp\<close>:
  for each query id the blocks that are not acknowledged yet, the number of blocks, and an error
  code.  The counters have their widths (\<^verbatim>\<open>UInt16\<close> for \<^verbatim>\<open>total\<close>, \<^verbatim>\<open>err\<close> and block ids, \<^verbatim>\<open>size_t\<close> for the
  computation, \<^verbatim>\<open>Int32\<close> for the result); a time is a number of nanoseconds.
\<close>

section \<open>State\<close>

record block_id_info =
  bi_total :: "16 word"
  bi_err :: "16 word"
  bi_ids :: "16 word list"

definition block_id_info_new :: block_id_info where
  "block_id_info_new = \<lparr>bi_total = 0, bi_err = 0, bi_ids = []\<rparr>"

record ingesting_blocks =
  ib_blockIds :: "(string \<times> block_id_info) list"
  ib_timed :: "(int \<times> string) list"
  ib_timeout_sec :: int

definition ingesting_blocks_new :: "int \<Rightarrow> ingesting_blocks" where
  "ingesting_blocks_new timeout = \<lparr>ib_blockIds = [], ib_timed = [], ib_timeout_sec = timeout\<rparr>"

section \<open>Operations\<close>

text \<open>The map and the set part of \<^verbatim>\<open>add\<close>: \<^verbatim>\<open>blockIds[id]\<close> creates an empty entry.\<close>

definition add_block_id :: "string \<Rightarrow> 16 word \<Rightarrow> ingesting_blocks \<Rightarrow> bool \<times> ingesting_blocks" where
  "add_block_id qid block_id st =
     (let info = (case map_of (ib_blockIds st) qid of None \<Rightarrow> block_id_info_new | Some i \<Rightarrow> i);
          added = block_id \<notin> set (bi_ids info);
          info' = (if added then info\<lparr>bi_total := bi_total info + 1, bi_ids := block_id # bi_ids info\<rparr> else info)
      in (added, st\<lparr>ib_blockIds := AList.update qid info' (ib_blockIds st)\<rparr>))"

text \<open>
  \<^verbatim>\<open>removeExpiredBlockIds\<close> takes expired stamps from the front.  Erasing a missing entry would be
  undefined; \<open>None\<close> stands for it.  \<open>seconds\<close> is the \<^verbatim>\<open>duration_cast\<close>, which truncates.
\<close>

definition seconds :: "int \<Rightarrow> int" where
  "seconds d = sgn d * (\<bar>d\<bar> div 1000000000)"

fun remove_expired :: "int \<Rightarrow> int \<Rightarrow> (int \<times> string) list \<Rightarrow> (string \<times> block_id_info) list
    \<Rightarrow> ((int \<times> string) list \<times> (string \<times> block_id_info) list) option" where
  "remove_expired now timeout [] m = Some ([], m)"
| "remove_expired now timeout ((t, qid) # ts) m =
     (if seconds (now - t) \<ge> timeout then
        (case map_of m qid of
           None \<Rightarrow> None
         | Some _ \<Rightarrow> remove_expired now timeout ts (AList.delete qid m))
      else Some ((t, qid) # ts, m))"

definition removeExpiredBlockIds :: "int \<Rightarrow> ingesting_blocks \<Rightarrow> ingesting_blocks option" where
  "removeExpiredBlockIds now st =
     map_option (\<lambda>(ts, m). st\<lparr>ib_timed := ts, ib_blockIds := m\<rparr>)
       (remove_expired now (ib_timeout_sec st) (ib_timed st) (ib_blockIds st))"

text \<open>\<open>now\<close> and \<open>now'\<close> are the two readings of the clock.\<close>

definition ingest_add :: "int \<Rightarrow> int \<Rightarrow> string \<Rightarrow> 16 word \<Rightarrow> ingesting_blocks \<Rightarrow> (bool \<times> ingesting_blocks) option" where
  "ingest_add now now' qid block_id st =
     (let hasId = map_of (ib_blockIds st) qid \<noteq> None;
          (added, st1) = add_block_id qid block_id st;
          st2 = (if hasId then st1 else st1\<lparr>ib_timed := ib_timed st1 @ [(now, qid)]\<rparr>)
      in map_option (Pair added) (removeExpiredBlockIds now' st2))"

definition ingest_remove :: "string \<Rightarrow> 16 word \<Rightarrow> ingesting_blocks \<Rightarrow> bool \<times> ingesting_blocks" where
  "ingest_remove qid block_id st =
     (case map_of (ib_blockIds st) qid of
        None \<Rightarrow> (False, st)
      | Some info \<Rightarrow>
          if block_id \<in> set (bi_ids info)
          then (True, st\<lparr>ib_blockIds := AList.update qid (info\<lparr>bi_ids := removeAll block_id (bi_ids info)\<rparr>) (ib_blockIds st)\<rparr>)
          else (False, st))"

definition ingest_fail :: "string \<Rightarrow> 16 word \<Rightarrow> ingesting_blocks \<Rightarrow> ingesting_blocks" where
  "ingest_fail qid err st =
     (case map_of (ib_blockIds st) qid of
        None \<Rightarrow> st
      | Some info \<Rightarrow> st\<lparr>ib_blockIds := AList.update qid (info\<lparr>bi_err := err\<rparr>) (ib_blockIds st)\<rparr>)"

datatype ingest_state = Unknown | Failed | Processing | Succeeded

text \<open>\<^verbatim>\<open>(total - ids.size()) * 100 / total\<close> in 64-bit arithmetic, cut to 32 bits; a division by zero is
  undefined.\<close>

definition ingest_progress :: "block_id_info \<Rightarrow> int option" where
  "ingest_progress info =
     (let total = (ucast (bi_total info) :: 64 word);
          q = (total - of_nat (length (bi_ids info))) * 100 div total
      in if total = 0 then None else Some (sint (ucast q :: 32 word)))"

definition ingest_status :: "string \<Rightarrow> ingesting_blocks \<Rightarrow> (ingest_state \<times> int) option" where
  "ingest_status qid st =
     (case map_of (ib_blockIds st) qid of
        None \<Rightarrow> Some (Unknown, -1)
      | Some info \<Rightarrow>
          (case ingest_progress info of
             None \<Rightarrow> None
           | Some progress \<Rightarrow>
               if bi_err info \<noteq> 0 then Some (Failed, progress)
               else if progress < 100 then Some (Processing, progress)
               else Some (Succeeded, progress)))"

fun getStatuses :: "string list \<Rightarrow> ingesting_blocks \<Rightarrow> (string \<times> ingest_state \<times> int) list
    \<Rightarrow> (string \<times> ingest_state \<times> int) list option" where
  "getStatuses [] st statuses = Some statuses"
| "getStatuses (qid # ids) st statuses =
     (case map_of (ib_blockIds st) qid of
        None \<Rightarrow> getStatuses ids st (statuses @ [(qid, Unknown, -1)])
      | Some info \<Rightarrow>
          (case ingest_progress info of
             None \<Rightarrow> None
           | Some progress \<Rightarrow>
               getStatuses ids st
                 (statuses @ (if bi_err info \<noteq> 0 then [(qid, Failed, progress)] else [])
                  @ [(qid, if progress < 100 then Processing else Succeeded, progress)])))"

definition outstandingBlocks :: "ingesting_blocks \<Rightarrow> nat" where
  "outstandingBlocks st = sum_list (map (\<lambda>p. length (bi_ids (snd p))) (ib_blockIds st))"

section \<open>Invariant\<close>

text \<open>
  Every entry is stamped once, an entry holds each outstanding block once, and no more blocks are
  outstanding than were added.
\<close>

definition info_ok :: "block_id_info \<Rightarrow> bool" where
  "info_ok info \<longleftrightarrow> distinct (bi_ids info) \<and> length (bi_ids info) \<le> unat (bi_total info) \<and> 0 < unat (bi_total info)"

definition ingest_inv :: "ingesting_blocks \<Rightarrow> bool" where
  "ingest_inv st \<longleftrightarrow> distinct (map fst (ib_blockIds st))
     \<and> distinct (map snd (ib_timed st))
     \<and> set (map snd (ib_timed st)) = set (map fst (ib_blockIds st))
     \<and> (\<forall>p\<in>set (ib_blockIds st). info_ok (snd p))"

lemma ingest_invD:
  assumes "ingest_inv st"
  shows "distinct (map fst (ib_blockIds st))" "distinct (map snd (ib_timed st))"
    "set (map snd (ib_timed st)) = set (map fst (ib_blockIds st))"
    "map_of (ib_blockIds st) qid = Some info \<Longrightarrow> info_ok info"
  using assms unfolding ingest_inv_def by (blast, blast, blast, metis map_of_SomeD snd_conv)

lemma ingest_invI:
  assumes "distinct (map fst (ib_blockIds st))" "distinct (map snd (ib_timed st))"
    "set (map snd (ib_timed st)) = set (map fst (ib_blockIds st))"
    "\<And>qid info. map_of (ib_blockIds st) qid = Some info \<Longrightarrow> info_ok info"
  shows "ingest_inv st"
proof -
  have "info_ok (snd p)" if "p \<in> set (ib_blockIds st)" for p
    using that assms(1,4) by (metis map_of_eq_Some_iff prod.collapse)
  then show ?thesis using assms(1-3) unfolding ingest_inv_def by blast
qed


lemma map_of_delete_notin: "map_of (AList.delete k m) k' = (if k' = k then None else map_of m k')"
  by (simp add: AList.delete_conv)

lemma remove_expired_ok:
  assumes "distinct (map snd ts)" "distinct (map fst m)" "set (map snd ts) = set (map fst m)"
  shows "\<exists>ts' m'. remove_expired now timeout ts m = Some (ts', m')
    \<and> distinct (map snd ts') \<and> distinct (map fst m') \<and> set (map snd ts') = set (map fst m')
    \<and> (\<forall>k info. map_of m' k = Some info \<longrightarrow> map_of m k = Some info)"
  using assms
proof (induction now timeout ts m rule: remove_expired.induct)
  case (2 now timeout t qid ts m)
  show ?case
  proof (cases "seconds (now - t) \<ge> timeout")
    case True
    have "qid \<in> set (map fst m)" using 2(4) by auto
    then obtain info where info: "map_of m qid = Some info"
      by (metis map_of_eq_None_iff not_None_eq set_map)
    have d: "distinct (map fst (AList.delete qid m))" "distinct (map snd ts)"
      using 2(2,3) by (simp_all add: distinct_delete)
    have s: "set (map snd ts) = set (map fst (AList.delete qid m))"
    proof -
      have "set (map fst (AList.delete qid m)) = set (map fst m) - {qid}"
        by (simp add: delete_keys)
      then show ?thesis using 2(2,4) by auto
    qed
    from 2(1)[OF True info d(2) d(1) s] obtain ts' m' where
      r: "remove_expired now timeout ts (AList.delete qid m) = Some (ts', m')"
      "distinct (map snd ts')" "distinct (map fst m')" "set (map snd ts') = set (map fst m')"
      and k: "\<And>k i. map_of m' k = Some i \<Longrightarrow> map_of (AList.delete qid m) k = Some i" by blast
    have "map_of m' k = Some i \<Longrightarrow> map_of m k = Some i" for k i
      using k[of k i] by (simp add: map_of_delete_notin split: if_splits)
    then show ?thesis using True info r by simp
  qed (use 2 in simp)
qed simp

lemma removeExpired_inv:
  assumes "ingest_inv st"
  shows "\<exists>st'. removeExpiredBlockIds now st = Some st' \<and> ingest_inv st'
    \<and> ib_timeout_sec st' = ib_timeout_sec st
    \<and> (\<forall>k info. map_of (ib_blockIds st') k = Some info \<longrightarrow> map_of (ib_blockIds st) k = Some info)"
proof -
  note d = ingest_invD[OF assms]
  from remove_expired_ok[OF d(2) d(1) d(3), of now "ib_timeout_sec st"] obtain ts m where
    r: "remove_expired now (ib_timeout_sec st) (ib_timed st) (ib_blockIds st) = Some (ts, m)"
    and o: "distinct (map snd ts)" "distinct (map fst m)" "set (map snd ts) = set (map fst m)"
    and k: "\<And>k info. map_of m k = Some info \<Longrightarrow> map_of (ib_blockIds st) k = Some info" by blast
  have "ingest_inv (st\<lparr>ib_timed := ts, ib_blockIds := m\<rparr>)"
  proof (rule ingest_invI)
    fix k info
    assume "map_of (ib_blockIds (st\<lparr>ib_timed := ts, ib_blockIds := m\<rparr>)) k = Some info"
    then have "map_of m k = Some info" by simp
    then show "info_ok info" using k d(4) by blast
  qed (use o in simp_all)
  then show ?thesis using r k by (simp add: removeExpiredBlockIds_def)
qed

section \<open>Runs of operations\<close>

datatype ingest_op =
    Ingest_add int int string "16 word"
  | Ingest_remove string "16 word"
  | Ingest_fail string "16 word"

fun ingest_apply :: "ingest_op \<Rightarrow> ingesting_blocks \<Rightarrow> ingesting_blocks option" where
  "ingest_apply (Ingest_add now now' qid b) st = map_option snd (ingest_add now now' qid b st)"
| "ingest_apply (Ingest_remove qid b) st = Some (snd (ingest_remove qid b st))"
| "ingest_apply (Ingest_fail qid e) st = Some (ingest_fail qid e st)"

fun ingest_run :: "ingest_op list \<Rightarrow> ingesting_blocks \<Rightarrow> ingesting_blocks option" where
  "ingest_run [] st = Some st"
| "ingest_run (x # xs) st = (case ingest_apply x st of None \<Rightarrow> None | Some st' \<Rightarrow> ingest_run xs st')"

fun adds_of :: "string \<Rightarrow> ingest_op list \<Rightarrow> nat" where
  "adds_of qid [] = 0"
| "adds_of qid (Ingest_add _ _ k _ # xs) = (if k = qid then 1 else 0) + adds_of qid xs"
| "adds_of qid (_ # xs) = adds_of qid xs"

text \<open>The totals are bounded by \<open>f\<close>, a bound on the number of additions so far for each query.\<close>

definition totals_le :: "(string \<Rightarrow> nat) \<Rightarrow> ingesting_blocks \<Rightarrow> bool" where
  "totals_le f st \<longleftrightarrow> (\<forall>k info. map_of (ib_blockIds st) k = Some info \<longrightarrow> unat (bi_total info) \<le> f k)"

lemma totals_leD: "totals_le f st \<Longrightarrow> map_of (ib_blockIds st) k = Some info \<Longrightarrow> unat (bi_total info) \<le> f k"
  unfolding totals_le_def by blast

lemma ingest_inv_update:
  assumes "ingest_inv st" "map_of (ib_blockIds st) qid = Some i0" "info_ok i"
  shows "ingest_inv (st\<lparr>ib_blockIds := AList.update qid i (ib_blockIds st)\<rparr>)"
proof -
  note d = ingest_invD[OF assms(1)]
  have "qid \<in> set (map fst (ib_blockIds st))" using assms(2) by (metis map_of_eq_None_iff option.distinct(1) set_map)
  then have k: "map fst (AList.update qid i (ib_blockIds st)) = map fst (ib_blockIds st)"
    by (simp add: update_keys)
  show ?thesis
    by (rule ingest_invI) (use d k assms(3) in \<open>auto simp: AList.update_conv' split: if_splits\<close>)
qed

lemma ingest_inv_insert:
  assumes "ingest_inv st" "map_of (ib_blockIds st) qid = None" "info_ok i"
  shows "ingest_inv (st\<lparr>ib_blockIds := AList.update qid i (ib_blockIds st), ib_timed := ib_timed st @ [(now, qid)]\<rparr>)"
proof -
  note d = ingest_invD[OF assms(1)]
  have n: "qid \<notin> set (map fst (ib_blockIds st))" using assms(2) by (metis map_of_eq_None_iff set_map)
  then have k: "map fst (AList.update qid i (ib_blockIds st)) = map fst (ib_blockIds st) @ [qid]"
    by (simp add: update_keys)
  have t: "qid \<notin> set (map snd (ib_timed st))" using n d(3) by blast
  show ?thesis
  proof (rule ingest_invI)
    show "distinct (map snd (ib_timed (st\<lparr>ib_blockIds := AList.update qid i (ib_blockIds st), ib_timed := ib_timed st @ [(now, qid)]\<rparr>)))"
      using d(2) t by simp
  qed (use d k n assms(3) in \<open>auto simp: AList.update_conv' split: if_splits\<close>)
qed

lemma unat_Suc16:
  fixes w :: "16 word"
  assumes "unat w < 65535"
  shows "unat (w + 1) = unat w + 1"
  using assms by (simp add: unat_word_ariths)


lemma ingest_add_inv:
  assumes "ingest_inv st" "totals_le f st" "f qid < 65535"
  shows "\<exists>a st'. ingest_add now now' qid b st = Some (a, st') \<and> ingest_inv st'
    \<and> totals_le (f(qid := f qid + 1)) st'"
proof -
  define info where "info = (case map_of (ib_blockIds st) qid of None \<Rightarrow> block_id_info_new | Some i \<Rightarrow> i)"
  define i where "i = (if b \<notin> set (bi_ids info) then info\<lparr>bi_total := bi_total info + 1, bi_ids := b # bi_ids info\<rparr> else info)"
  define st2 where "st2 = (if map_of (ib_blockIds st) qid \<noteq> None
      then st\<lparr>ib_blockIds := AList.update qid i (ib_blockIds st)\<rparr>
      else st\<lparr>ib_blockIds := AList.update qid i (ib_blockIds st), ib_timed := ib_timed st @ [(now, qid)]\<rparr>)"
  have u: "unat (bi_total info) \<le> f qid"
    using assms(2) by (auto simp: info_def block_id_info_new_def totals_le_def split: option.split)
  have u1: "unat (bi_total info + 1) = unat (bi_total info) + 1"
    by (rule unat_Suc16) (use u assms(3) in simp)
  have ok: "info_ok i"
  proof (cases "map_of (ib_blockIds st) qid")
    case None
    then show ?thesis by (simp add: i_def info_def info_ok_def block_id_info_new_def)
  next
    case (Some j)
    then have "info_ok info" using ingest_invD(4)[OF assms(1)] by (simp add: info_def)
    then show ?thesis using u1 by (simp add: i_def info_ok_def)
  qed
  have bound: "unat (bi_total i) \<le> f qid + 1" using u u1 by (simp add: i_def)
  have inv2: "ingest_inv st2"
    using ingest_inv_update[OF assms(1) _ ok] ingest_inv_insert[OF assms(1) _ ok, of qid now]
    unfolding st2_def by (cases "map_of (ib_blockIds st) qid") simp_all
  have m2: "map_of (ib_blockIds st2) k = (if k = qid then Some i else map_of (ib_blockIds st) k)" for k
    by (simp add: st2_def AList.update_conv')
  from removeExpired_inv[OF inv2, of now'] obtain st' where
    r: "removeExpiredBlockIds now' st2 = Some st'" "ingest_inv st'"
    and k: "\<And>k info. map_of (ib_blockIds st') k = Some info \<Longrightarrow> map_of (ib_blockIds st2) k = Some info" by blast
  have "totals_le (f(qid := f qid + 1)) st'"
    unfolding totals_le_def
  proof (intro allI impI)
    fix k j
    assume "map_of (ib_blockIds st') k = Some j"
    from k[OF this] show "unat (bi_total j) \<le> (f(qid := f qid + 1)) k"
      using totals_leD[OF assms(2), of k j] bound by (auto simp: m2 split: if_splits)
  qed
  moreover have "ingest_add now now' qid b st = Some (b \<notin> set (bi_ids info), st')"
    using r(1) unfolding ingest_add_def add_block_id_def st2_def i_def info_def
    by (simp add: Let_def split: if_splits)
  ultimately show ?thesis using r(2) by blast
qed

lemma ingest_update_keeps:
  assumes "ingest_inv st" "totals_le f st" "map_of (ib_blockIds st) qid = Some info"
    "info_ok i" "bi_total i = bi_total info"
  shows "ingest_inv (st\<lparr>ib_blockIds := AList.update qid i (ib_blockIds st)\<rparr>)"
    "totals_le f (st\<lparr>ib_blockIds := AList.update qid i (ib_blockIds st)\<rparr>)"
  using ingest_inv_update[OF assms(1,3,4)] totals_leD[OF assms(2)] assms(3,5)
  by (auto simp: totals_le_def AList.update_conv')

lemma ingest_remove_inv:
  assumes "ingest_inv st" "totals_le f st"
  shows "ingest_inv (snd (ingest_remove qid b st)) \<and> totals_le f (snd (ingest_remove qid b st))"
proof (cases "map_of (ib_blockIds st) qid")
  case (Some info)
  have "info_ok info" using ingest_invD(4)[OF assms(1) Some] .
  then have "info_ok (info\<lparr>bi_ids := removeAll b (bi_ids info)\<rparr>)"
    by (auto simp: info_ok_def distinct_removeAll intro: le_trans[OF length_removeAll_less_eq])
  from ingest_update_keeps[OF assms Some this] show ?thesis
    using assms Some by (simp add: ingest_remove_def)
qed (use assms in \<open>simp add: ingest_remove_def\<close>)

lemma ingest_fail_inv:
  assumes "ingest_inv st" "totals_le f st"
  shows "ingest_inv (ingest_fail qid e st) \<and> totals_le f (ingest_fail qid e st)"
proof (cases "map_of (ib_blockIds st) qid")
  case (Some info)
  have "info_ok (info\<lparr>bi_err := e\<rparr>)" using ingest_invD(4)[OF assms(1) Some] by (simp add: info_ok_def)
  from ingest_update_keeps[OF assms Some this] show ?thesis
    using Some by (simp add: ingest_fail_def)
qed (use assms in \<open>simp add: ingest_fail_def\<close>)

lemma ingest_run_inv:
  assumes "ingest_inv st" "totals_le f st" "\<And>k. f k + adds_of k ops < 65536"
  shows "\<exists>st'. ingest_run ops st = Some st' \<and> ingest_inv st'"
  using assms
proof (induction ops arbitrary: st f)
  case (Cons x xs)
  show ?case
  proof (cases x)
    case (Ingest_add now now' qid b)
    have "f qid < 65535" using Cons.prems(3)[of qid] by (simp add: Ingest_add)
    from ingest_add_inv[OF Cons.prems(1,2) this, of now now' b] obtain a st' where
      r: "ingest_add now now' qid b st = Some (a, st')" "ingest_inv st'" "totals_le (f(qid := f qid + 1)) st'" by blast
    have "(f(qid := f qid + 1)) k + adds_of k xs < 65536" for k
      using Cons.prems(3)[of k] by (auto simp: Ingest_add split: if_splits)
    from Cons.IH[OF r(2,3) this] show ?thesis by (simp add: Ingest_add r(1))
  next
    case (Ingest_remove qid b)
    have "f k + adds_of k xs < 65536" for k using Cons.prems(3)[of k] by (simp add: Ingest_remove)
    from Cons.IH[OF _ _ this] ingest_remove_inv[OF Cons.prems(1,2)] show ?thesis by (simp add: Ingest_remove)
  next
    case (Ingest_fail qid e)
    have "f k + adds_of k xs < 65536" for k using Cons.prems(3)[of k] by (simp add: Ingest_fail)
    from Cons.IH[OF _ _ this] ingest_fail_inv[OF Cons.prems(1,2)] show ?thesis by (simp add: Ingest_fail)
  qed
qed simp

section \<open>Progress\<close>

lemma unat64_of_nat: "n < 2 ^ 64 \<Longrightarrow> unat (of_nat n :: 64 word) = n"
  by (simp add: unsigned_of_nat take_bit_nat_eq_self)

lemma progress_value:
  assumes "info_ok info"
  shows "ingest_progress info = Some (int ((unat (bi_total info) - length (bi_ids info)) * 100 div unat (bi_total info)))"
proof -
  define T where "T = unat (bi_total info)"
  define n where "n = length (bi_ids info)"
  define k where "k = (T - n) * 100 div T"
  have T: "0 < T" "n \<le> T" using assms by (simp_all add: T_def n_def info_ok_def)
  have T16: "T < 65536" unfolding T_def using unsigned_less[where ?'a = nat, of "bi_total info"] by simp
  have t: "(ucast (bi_total info) :: 64 word) = of_nat T" by (simp add: T_def)
  have uT: "unat (of_nat T :: 64 word) = T" by (rule unat64_of_nat) (use T16 in simp)
  have e: "((of_nat T :: 64 word) - of_nat n) * 100 = of_nat ((T - n) * 100)"
    using T(2) by (simp add: of_nat_diff)
  have ue: "unat (of_nat ((T - n) * 100) :: 64 word) = (T - n) * 100"
    by (rule unat64_of_nat) (use T16 in simp)
  have q: "((of_nat T :: 64 word) - of_nat n) * 100 div of_nat T = of_nat k"
    unfolding e k_def by (simp only: word_arith_nat_div ue uT)
  have k100: "k \<le> 100"
  proof -
    have "(T - n) * 100 \<le> T * 100" by simp
    then have "k \<le> T * 100 div T" unfolding k_def by (rule div_le_mono)
    then show ?thesis using T(1) by simp
  qed
  have uk: "(ucast (of_nat k :: 64 word) :: 32 word) = of_nat k"
    using k100 by (simp add: unsigned_of_nat take_bit_nat_eq_self)
  have s: "sint (of_nat k :: 32 word) = int k"
    using k100 by (simp add: signed_of_nat signed_take_bit_int_eq_self)
  have "(of_nat T :: 64 word) \<noteq> 0" using uT T(1) by (metis less_numeral_extra(3) unat_0)
  then show ?thesis
    unfolding ingest_progress_def t Let_def n_def[symmetric] q uk s T_def[symmetric] by (simp add: k_def)
qed


lemma progress_100:
  assumes "info_ok info" "ingest_progress info = Some p"
  shows "0 \<le> p" "p \<le> 100" "p = 100 \<longleftrightarrow> bi_ids info = []"
proof -
  define T where "T = unat (bi_total info)"
  define n where "n = length (bi_ids info)"
  have T: "0 < T" "n \<le> T" using assms(1) by (simp_all add: T_def n_def info_ok_def)
  have p: "p = int ((T - n) * 100 div T)"
    using assms(2) unfolding progress_value[OF assms(1)] T_def n_def by simp
  have lt: "(T - n) * 100 div T < 100" if "0 < n"
    using T that by (simp add: div_less_iff_less_mult)
  have eq: "(T - n) * 100 div T = 100" if "n = 0" using T that by simp
  show "0 \<le> p" using p by simp
  show "p \<le> 100" using lt eq unfolding p by (cases "n = 0") (simp_all add: less_imp_le)
  show "p = 100 \<longleftrightarrow> bi_ids info = []"
    using lt eq unfolding p by (cases "n = 0") (auto simp: n_def)
qed

section \<open>Claims\<close>


definition ex_ingest_ops :: "ingest_op list" where
  "ex_ingest_ops = [Ingest_add 0 1 ''q'' 1, Ingest_add 2 3 ''q'' 2, Ingest_remove ''q'' 1, Ingest_add 5 6 ''r'' 1,
     Ingest_remove ''r'' 1]"


text \<open>
  The block counter is 16 bits wide.  A query that adds and has acknowledged one block 65536 times (the
  block ids may repeat, an id is free again once it is acknowledged) has a total of zero, and asking for its
  status divides by zero.
\<close>

theorem ingest_total_wraps:
  assumes "0 < timeout"
  shows "\<exists>st. ingest_run (concat (replicate 65536 [Ingest_add 0 0 qid b, Ingest_remove qid b]))
      (ingesting_blocks_new timeout) = Some st \<and> ingest_status qid st = None \<and> getStatuses [qid] st [] = None"
proof -
  define S where "S n = \<lparr>ib_blockIds = [(qid, \<lparr>bi_total = of_nat n, bi_err = 0, bi_ids = []\<rparr>)],
     ib_timed = [(0, qid)], ib_timeout_sec = timeout\<rparr>" for n
  have first: "ingest_run ([Ingest_add 0 0 qid b, Ingest_remove qid b] @ xs) (ingesting_blocks_new timeout) = ingest_run xs (S 1)" for xs
    using assms by (simp add: ingesting_blocks_new_def S_def ingest_add_def add_block_id_def block_id_info_new_def
        removeExpiredBlockIds_def seconds_def ingest_remove_def)
  have step: "ingest_run ([Ingest_add 0 0 qid b, Ingest_remove qid b] @ xs) (S n) = ingest_run xs (S (Suc n))" for xs n
    using assms by (simp add: S_def ingest_add_def add_block_id_def add.commute
        removeExpiredBlockIds_def seconds_def ingest_remove_def)
  have many: "ingest_run (concat (replicate m [Ingest_add 0 0 qid b, Ingest_remove qid b])) (S n) = Some (S (m + n))" for m n
  proof (induction m arbitrary: n)
    case (Suc m)
    show ?case using Suc[of "Suc n"] step[of "concat (replicate m [Ingest_add 0 0 qid b, Ingest_remove qid b])" n] by simp
  qed simp
  define N :: nat where "N = 65535"
  have N: "(65536 :: nat) = Suc N" by (simp add: N_def)
  have "ingest_run (concat (replicate (Suc N) [Ingest_add 0 0 qid b, Ingest_remove qid b]))
      (ingesting_blocks_new timeout) = Some (S (Suc N))"
    using first[of "concat (replicate N [Ingest_add 0 0 qid b, Ingest_remove qid b])"] many[of N 1] by simp
  then have "ingest_run (concat (replicate 65536 [Ingest_add 0 0 qid b, Ingest_remove qid b]))
      (ingesting_blocks_new timeout) = Some (S 65536)" unfolding N .
  moreover have "ingest_status qid (S 65536) = None" "getStatuses [qid] (S 65536) [] = None"
    by (simp_all add: S_def ingest_status_def ingest_progress_def)
  ultimately show ?thesis by blast
qed

theorem ingest_total_wraps_witness:
  "\<exists>st. ingest_run (concat (replicate 65536 [Ingest_add 0 0 ''q'' 7, Ingest_remove ''q'' 7]))
      (ingesting_blocks_new 120) = Some st \<and> ingest_status ''q'' st = None"
  using ingest_total_wraps[of 120 "''q''" 7] by auto

text \<open>
  The batch interface agrees with \<^verbatim>\<open>status\<close> on every id without an error, and reports a failed id twice: once as
  \<^verbatim>\<open>Failed\<close> and once, with the same progress, as \<^verbatim>\<open>Processing\<close> or \<^verbatim>\<open>Succeeded\<close>.
\<close>

theorem getStatuses_failed_twice:
  "getStatuses [qid] st acc =
     (case ingest_status qid st of
        None \<Rightarrow> None
      | Some (s, p) \<Rightarrow> Some (acc @ [(qid, s, p)]
          @ (if s = Failed then [(qid, if p < 100 then Processing else Succeeded, p)] else [])))"
  by (simp add: ingest_status_def split: option.split)

end
