(* ===== verification/Block_Output.thy ===== *)
theory Block_Output
  imports Block_Sharding Ingesting_Blocks
begin

text \<open>
  The stream that an \<^verbatim>\<open>INSERT\<close> writes its blocks to,
  \<^verbatim>\<open>src/src/Storages/DistributedMergeTree/DistributedMergeTreeBlockOutputStream.cpp\<close>, with the callbacks for
  asynchronous inserts of \<^verbatim>\<open>StorageDistributedMergeTree.cpp\<close>.  The write-ahead log is outside: the
  return codes of its \<^verbatim>\<open>append\<close>, the results that it later passes to the callbacks, and the readings of
  the clock are arguments.
\<close>

section \<open>State\<close>

text \<open>What is called when a record is acknowledged.\<close>

datatype append_callback =
    No_callback
  | Stream_callback
  | Poll_callback string "16 word"

text \<open>
  The members of the stream, the status of asynchronous inserts, and as a history variable the records
  that the log accepted, with their callbacks.
\<close>

record 'v out_stream =
  os_committed :: "32 word"
  os_outstanding :: "32 word"
  os_errcode :: int
  os_ingesting :: ingesting_blocks
  os_log :: "('v block wal_record \<times> append_callback) list"

record 'v insert_context =
  ic_shards :: int
  ic_key_expr :: "('v block \<Rightarrow> key_type \<times> key_column) option"
  ic_default_mode :: string
  ic_mode :: string
  ic_idempotent_key :: string
  ic_poll_id :: string

definition out_stream_new :: "ingesting_blocks \<Rightarrow> 'v out_stream" where
  "out_stream_new ib = \<lparr>os_committed = 0, os_outstanding = 0, os_errcode = 0, os_ingesting = ib, os_log = []\<rparr>"

section \<open>Operations\<close>

definition getIngestMode :: "'v insert_context \<Rightarrow> string" where
  "getIngestMode ctx =
     (if ic_mode ctx \<noteq> [] then ic_mode ctx
      else if ic_default_mode ctx \<noteq> [] then ic_default_mode ctx
      else ''async'')"

text \<open>\<^verbatim>\<open>writeCallbackData\<close>: the block id is \<^verbatim>\<open>UInt16\<close>.\<close>

definition writeCallbackData ::
    "int \<Rightarrow> int \<Rightarrow> string \<Rightarrow> 16 word \<Rightarrow> ingesting_blocks \<Rightarrow> ingesting_blocks option" where
  "writeCallbackData now now' poll_id block_id ib = map_option snd (ingest_add now now' poll_id block_id ib)"

definition storage_writeCallback :: "int \<Rightarrow> string \<Rightarrow> 16 word \<Rightarrow> ingesting_blocks \<Rightarrow> ingesting_blocks" where
  "storage_writeCallback err poll_id block_id ib =
     (if err \<noteq> 0 then ingest_fail poll_id (of_int err) ib else snd (ingest_remove poll_id block_id ib))"

definition stream_writeCallback :: "int \<Rightarrow> 'v out_stream \<Rightarrow> 'v out_stream" where
  "stream_writeCallback err st =
     st\<lparr>os_committed := os_committed st + 1, os_errcode := (if err \<noteq> 0 then err else os_errcode st)\<rparr>"

definition make_record :: "'v insert_context \<Rightarrow> 'v block \<Rightarrow> nat \<Rightarrow> 'v block wal_record" where
  "make_record ctx block shard =
     (let r = (wal_record_new ADD_DATA_BLOCK block)\<lparr>rec_partition_key := shard\<rparr>
      in if ic_idempotent_key ctx \<noteq> [] then setIdempotentKey (ic_idempotent_key ctx) r else r)"

text \<open>
  One turn of the loop in \<^verbatim>\<open>write\<close>: \<open>ret\<close> is what \<^verbatim>\<open>append\<close> returns, \<open>now\<close> and \<open>now'\<close> are the readings of the clock.
  The inner result is the exception, if any; the state has been changed up to it.
\<close>

definition accept_record :: "'v block wal_record \<Rightarrow> append_callback \<Rightarrow> int \<Rightarrow> 'v out_stream \<Rightarrow> insert_error option \<times> 'v out_stream" where
  "accept_record r cb ret st =
     (if ret \<noteq> 0 then (Some (INSERT_FAILED ret), st)
      else (None, st\<lparr>os_outstanding := os_outstanding st + 1, os_log := os_log st @ [(r, cb)]\<rparr>))"

definition write_one ::
    "'v insert_context \<Rightarrow> int \<Rightarrow> int \<Rightarrow> int \<Rightarrow> 'v block \<times> nat \<Rightarrow> 'v out_stream
      \<Rightarrow> (insert_error option \<times> 'v out_stream) option" where
  "write_one ctx now now' ret bs st =
     (let r = make_record ctx (fst bs) (snd bs);
          mode = getIngestMode ctx
      in if mode = ''async'' then
           (case writeCallbackData now now' (ic_poll_id ctx) (ucast (os_outstanding st)) (os_ingesting st) of
              None \<Rightarrow> None
            | Some ib \<Rightarrow>
                Some (accept_record r (Poll_callback (ic_poll_id ctx) (ucast (os_outstanding st))) ret
                  (st\<lparr>os_ingesting := ib\<rparr>)))
         else if mode = ''sync'' then Some (accept_record r Stream_callback ret st)
         else if mode = ''fire_and_forget'' then Some (accept_record r No_callback ret st)
         else if mode = ''ordered'' then Some (accept_record r No_callback ret st)
         else Some (Some (UNSUPPORTED_PARAMETER mode), st))"

text \<open>\<open>env\<close> has for every turn of the loop the two readings of the clock and the result of \<^verbatim>\<open>append\<close>.\<close>

fun write_all ::
    "'v insert_context \<Rightarrow> (nat \<Rightarrow> int \<times> int \<times> int) \<Rightarrow> ('v block \<times> nat) list \<Rightarrow> 'v out_stream
      \<Rightarrow> (insert_error option \<times> 'v out_stream) option" where
  "write_all ctx env [] st = Some (None, st)"
| "write_all ctx env (b # bs) st =
     (case env 0 of (now, now', ret) \<Rightarrow>
       (case write_one ctx now now' ret b st of
          None \<Rightarrow> None
        | Some (Some e, st') \<Rightarrow> Some (Some e, st')
        | Some (None, st') \<Rightarrow> write_all ctx (\<lambda>k. env (Suc k)) bs st'))"

definition stream_write ::
    "'v insert_context \<Rightarrow> nat \<Rightarrow> (nat \<Rightarrow> int \<times> int \<times> int) \<Rightarrow> 'v block \<Rightarrow> 'v out_stream
      \<Rightarrow> (insert_error option \<times> 'v out_stream) option" where
  "stream_write ctx rnd env block st =
     (if block_rows block = 0 then Some (None, st)
      else
        case shardBlock (ic_shards ctx) (ic_key_expr ctx) rnd block of
          None \<Rightarrow> None
        | Some (Inl e) \<Rightarrow> Some (Some e, st)
        | Some (Inr blocks) \<Rightarrow> write_all ctx env blocks st)"

text \<open>
  \<^verbatim>\<open>flush\<close>.  Each element of \<open>polls\<close> is the list of results that one call of \<^verbatim>\<open>poll\<close> passes to the callback of this
  stream.  \<open>None\<close> means that it still waits when the list is exhausted.
\<close>

fun flush_loop :: "int list list \<Rightarrow> 'v out_stream \<Rightarrow> (insert_error option \<times> 'v out_stream) option" where
  "flush_loop polls st =
     (if os_committed st = os_outstanding st then
        Some (if os_errcode st \<noteq> 0 then Some (INSERT_FAILED (os_errcode st)) else None, st)
      else
        (case polls of
           [] \<Rightarrow> None
         | p # ps \<Rightarrow> flush_loop ps (fold stream_writeCallback p st)))"

definition flush :: "'v insert_context \<Rightarrow> int list list \<Rightarrow> 'v out_stream \<Rightarrow> (insert_error option \<times> 'v out_stream) option" where
  "flush ctx polls st = (if ic_mode ctx \<noteq> ''sync'' then Some (None, st) else flush_loop polls st)"

text \<open>All blocks of one \<^verbatim>\<open>INSERT\<close>, each with its random shard and its environment.\<close>

fun stream_writes ::
    "'v insert_context \<Rightarrow> (nat \<times> (nat \<Rightarrow> int \<times> int \<times> int) \<times> 'v block) list \<Rightarrow> 'v out_stream
      \<Rightarrow> (insert_error option \<times> 'v out_stream) option" where
  "stream_writes ctx [] st = Some (None, st)"
| "stream_writes ctx ((rnd, env, block) # ws) st =
     (case stream_write ctx rnd env block st of
        None \<Rightarrow> None
      | Some (Some e, st') \<Rightarrow> Some (Some e, st')
      | Some (None, st') \<Rightarrow> stream_writes ctx ws st')"

text \<open>The log passes the result of a record to the callback that was registered with it.\<close>

fun deliver :: "append_callback \<times> int \<Rightarrow> ingesting_blocks \<Rightarrow> ingesting_blocks" where
  "deliver (Poll_callback poll_id block_id, err) ib = storage_writeCallback err poll_id block_id ib"
| "deliver (_, err) ib = ib"

section \<open>Lemmas\<close>

text \<open>A property of the stream that every accepted record preserves holds after a successful insert.\<close>

lemma write_all_induct:
  assumes "write_all ctx env bs st = Some (None, st')" "P st" "\<And>k. E (env k)"
    "\<And>now now' ret b s s'. P s \<Longrightarrow> E (now, now', ret) \<Longrightarrow> write_one ctx now now' ret b s = Some (None, s') \<Longrightarrow> P s'"
  shows "P st'"
  using assms(1-3)
proof (induction bs arbitrary: env st)
  case (Cons b bs)
  obtain now now' ret where e: "env 0 = (now, now', ret)" by (metis prod_cases3)
  from Cons.prems(1) e obtain s where s: "write_one ctx now now' ret b st = Some (None, s)"
    and w: "write_all ctx (\<lambda>k. env (Suc k)) bs s = Some (None, st')"
    by (auto split: option.splits prod.splits)
  have "P s" using assms(4)[OF Cons.prems(2) _ s] Cons.prems(3)[of 0] e by simp
  from Cons.IH[OF w this] Cons.prems(3) show ?case by simp
qed simp

lemma stream_writes_induct:
  assumes "stream_writes ctx ws st = Some (None, st')" "P st" "\<And>rnd env b k. (rnd, env, b) \<in> set ws \<Longrightarrow> E (env k)"
    "\<And>now now' ret b s s'. P s \<Longrightarrow> E (now, now', ret) \<Longrightarrow> write_one ctx now now' ret b s = Some (None, s') \<Longrightarrow> P s'"
  shows "P st'"
  using assms(1-3)
proof (induction ws arbitrary: st)
  case (Cons w ws)
  obtain rnd env b where w: "w = (rnd, env, b)" by (metis prod_cases3)
  from Cons.prems(1) w obtain s where s: "stream_write ctx rnd env b st = Some (None, s)"
    and r: "stream_writes ctx ws s = Some (None, st')"
    by (auto split: option.splits prod.splits)
  have "P s"
  proof (cases "block_rows b = 0")
    case True
    then show ?thesis using s Cons.prems(2) by (simp add: stream_write_def)
  next
    case False
    then obtain bs where "write_all ctx env bs st = Some (None, s)"
      using s by (auto simp: stream_write_def split: option.splits sum.splits)
    then show ?thesis
      by (rule write_all_induct[where P = P and E = E]) (use Cons.prems(2,3) assms(4) w in auto)
  qed
  then show ?case by (rule Cons.IH[OF r]) (use Cons.prems(3) in auto)
qed simp

lemma write_one_log:
  assumes "write_one ctx now now' ret b st = Some (None, st')"
  shows "\<exists>cb. os_log st' = os_log st @ [(make_record ctx (fst b) (snd b), cb)]"
    "os_outstanding st' = os_outstanding st + 1" "os_committed st' = os_committed st" "os_errcode st' = os_errcode st"
  using assms
  by (auto simp: write_one_def accept_record_def Let_def split: if_splits option.splits)

subsection \<open>Waiting\<close>

lemma stream_writeCallback_simps [simp]:
  "os_committed (stream_writeCallback r st) = os_committed st + 1"
  "os_outstanding (stream_writeCallback r st) = os_outstanding st"
  "os_errcode (stream_writeCallback r st) = (if r \<noteq> 0 then r else os_errcode st)"
  by (simp_all add: stream_writeCallback_def)

lemma stream_writeCallback_fold:
  "os_committed (fold stream_writeCallback rs st) = os_committed st + of_nat (length rs)"
  "os_outstanding (fold stream_writeCallback rs st) = os_outstanding st"
  "os_errcode (fold stream_writeCallback rs st) = 0 \<longleftrightarrow> os_errcode st = 0 \<and> (\<forall>r\<in>set rs. r = 0)"
  by (induction rs arbitrary: st) (auto simp: add.assoc)

text \<open>What is left to be acknowledged.\<close>

definition waiting :: "'v out_stream \<Rightarrow> nat" where
  "waiting st = unat (os_outstanding st - os_committed st)"

lemma waiting_0: "waiting st = 0 \<longleftrightarrow> os_committed st = os_outstanding st"
  by (auto simp: waiting_def unat_eq_0)

lemma waiting_fold:
  assumes "length rs \<le> waiting st"
  shows "waiting (fold stream_writeCallback rs st) = waiting st - length rs"
proof -
  define d where "d = os_outstanding st - os_committed st"
  have l: "length rs \<le> unat d" using assms by (simp add: waiting_def d_def)
  have "waiting (fold stream_writeCallback rs st) = unat (d - of_nat (length rs))"
    by (simp add: waiting_def stream_writeCallback_fold d_def algebra_simps)
  also have "\<dots> = unat d - length rs"
  proof -
    have u: "unat (of_nat (length rs) :: 32 word) = length rs"
      using l unsigned_less[where ?'a = nat, of d] by (simp add: unsigned_of_nat take_bit_nat_eq_self)
    then have "of_nat (length rs) \<le> d" using l by (simp add: word_le_nat_alt)
    then show ?thesis using u by (simp add: unat_sub)
  qed
  finally show ?thesis by (simp add: waiting_def d_def)
qed

declare flush_loop.simps [simp del]

lemma flush_loop_all:
  assumes "length (concat polls) = waiting st"
  shows "\<exists>e st'. flush_loop polls st = Some (e, st') \<and> os_committed st' = os_outstanding st'
    \<and> (e = None \<longleftrightarrow> os_errcode st = 0 \<and> (\<forall>r\<in>set (concat polls). r = 0))"
  using assms
proof (induction polls arbitrary: st)
  case Nil
  then show ?case by (simp add: flush_loop.simps waiting_0[symmetric])
next
  case (Cons p ps)
  show ?case
  proof (cases "waiting st = 0")
    case True
    then show ?thesis using Cons.prems by (fastforce simp: flush_loop.simps waiting_0[symmetric])
  next
    case False
    have "waiting (fold stream_writeCallback p st) = waiting st - length p"
      by (rule waiting_fold) (use Cons.prems in simp)
    then have "length (concat ps) = waiting (fold stream_writeCallback p st)" using Cons.prems by simp
    from Cons.IH[OF this] False show ?thesis
      by (auto simp: flush_loop.simps[of "p # ps" st] waiting_0 stream_writeCallback_fold)
  qed
qed

lemma flush_loop_waits: "length (concat polls) < waiting st \<Longrightarrow> flush_loop polls st = None"
proof (induction polls arbitrary: st)
  case Nil
  then show ?case by (simp add: flush_loop.simps waiting_0[symmetric])
next
  case (Cons p ps)
  have "waiting (fold stream_writeCallback p st) = waiting st - length p"
    by (rule waiting_fold) (use Cons.prems in simp)
  then have "flush_loop ps (fold stream_writeCallback p st) = None" using Cons by simp
  moreover have "waiting st \<noteq> 0" using Cons.prems by simp
  ultimately show ?case by (simp add: flush_loop.simps[of "p # ps" st] waiting_0)
qed

lemma writes_waiting:
  assumes "stream_writes ctx ws (out_stream_new ib) = Some (None, st)" "length (os_log st) < 2 ^ 32"
  shows "waiting st = length (os_log st)" "os_errcode st = 0"
proof -
  let ?P = "\<lambda>s. os_outstanding s = of_nat (length (os_log s)) \<and> os_committed s = 0 \<and> os_errcode s = 0"
  have P: "?P st"
  proof (rule stream_writes_induct[OF assms(1), where P = ?P and E = "\<lambda>_. True"])
    fix now now' ret :: int and b and s s' :: "'a out_stream"
    assume a: "?P s" and w: "write_one ctx now now' ret b s = Some (None, s')"
    show "?P s'" using a write_one_log[OF w] by auto
  qed (simp_all add: out_stream_new_def)
  then show "os_errcode st = 0" by simp
  show "waiting st = length (os_log st)"
    using P assms(2) by (simp add: waiting_def unsigned_of_nat take_bit_nat_eq_self)
qed

section \<open>Claims\<close>


definition ex_ctx :: "string \<Rightarrow> string \<Rightarrow> string \<Rightarrow> int insert_context" where
  "ex_ctx default_mode mode key = \<lparr>ic_shards = 1, ic_key_expr = None, ic_default_mode = default_mode, ic_mode = mode,
     ic_idempotent_key = key, ic_poll_id = ''poll''\<rparr>"

definition ex_writes :: "(nat \<times> (nat \<Rightarrow> int \<times> int \<times> int) \<times> int block) list" where
  "ex_writes = [(0, \<lambda>_. (0, 0, 0), ex_block), (0, \<lambda>_. (5, 6, 0), ex_block)]"

definition ex_log :: "int insert_context \<Rightarrow> append_callback list \<Rightarrow> (int block wal_record \<times> append_callback) list" where
  "ex_log ctx cbs = map (Pair (make_record ctx ex_block 0)) cbs"

lemma ex_block_rows [simp]: "block_rows ex_block = 4"
  by (simp add: ex_block_def)

lemma ex_writes_sync:
  "stream_writes (ex_ctx dm ''sync'' key) ex_writes (out_stream_new ib) =
    Some (None, \<lparr>os_committed = 0, os_outstanding = 2, os_errcode = 0, os_ingesting = ib,
      os_log = ex_log (ex_ctx dm ''sync'' key) [Stream_callback, Stream_callback]\<rparr>)"
  by (simp add: ex_writes_def stream_write_def shardBlock_def ex_ctx_def write_one_def getIngestMode_def
      accept_record_def out_stream_new_def ex_log_def)


text \<open>
  When \<^verbatim>\<open>sync\<close> is the default of the table and the query names no mode, the records are appended with
  the stream as the target of their callbacks, and \<^verbatim>\<open>flush\<close> (which also ends the stream) returns at once without
  an error, although none of the records is acknowledged.
\<close>

theorem default_sync_not_waited:
  assumes "ic_mode ctx = []" "ic_default_mode ctx = ''sync''" "ic_shards ctx = 1" "block_rows block \<noteq> 0" "env 0 = (now, now', 0)"
  shows "\<exists>st. stream_write ctx rnd env block (out_stream_new ib) = Some (None, st)
    \<and> os_log st = [(make_record ctx block 0, Stream_callback)]
    \<and> os_committed st \<noteq> os_outstanding st \<and> flush ctx polls st = Some (None, st)"
  using assms
  by (simp add: stream_write_def shardBlock_def write_one_def getIngestMode_def accept_record_def out_stream_new_def flush_def)

theorem default_sync_not_waited_witness:
  "\<exists>st. stream_write (ex_ctx ''sync'' [] []) 0 (\<lambda>_. (0, 0, 0)) ex_block (out_stream_new (ingesting_blocks_new 120)) = Some (None, st)
    \<and> os_committed st \<noteq> os_outstanding st \<and> flush (ex_ctx ''sync'' [] []) [] st = Some (None, st)"
  using default_sync_not_waited[of "ex_ctx ''sync'' [] []" ex_block "\<lambda>_. (0, 0, 0)" 0 0 0 "ingesting_blocks_new 120" "[]"]
  by (auto simp: ex_ctx_def)

lemma key_of_make_record: "ic_idempotent_key ctx \<noteq> [] \<Longrightarrow> key_of (make_record ctx b s) = Some (ic_idempotent_key ctx)"
  by (simp add: make_record_def key_of_def setIdempotentKey_def wal_record_new_def)

lemma dedup_same_key:
  assumes "\<forall>r\<in>set rs. key_of r = Some k" "k \<in> idempotent_keys_index d"
  shows "dedup_run n rs d = Some (replicate (length rs) True, d)"
  using assms
proof (induction rs)
  case (Cons r rs)
  have "key_of r = Some k" using Cons.prems by simp
  then have "hasIdempotentKey r" "idempotentKey r = Some k"
    by (auto simp: key_of_def hasIdempotentKey_def idempotentKey_def split: option.splits if_splits)
  then show ?case using Cons by (simp add: dedupBlock_def)
qed simp

text \<open>
  Every record of an insert carries the idempotent key of the query.  When the insert has a key
  and sends more than one record to a shard (two blocks to a table with one shard, say), the consumer of the
  shard keeps the first record and drops all others as duplicates.
\<close>

theorem one_key_many_blocks:
  assumes "ic_idempotent_key ctx \<noteq> []" "stream_writes ctx ws (out_stream_new ib) = Some (None, st)" "0 < max_ids"
    "os_log st \<noteq> []"
  shows "\<exists>d. dedup_run max_ids (map fst (os_log st)) (buildIdempotentKeysIndex [])
    = Some (False # replicate (length (os_log st) - 1) True, d)"
proof -
  let ?P = "\<lambda>s. \<forall>r\<in>set (map fst (os_log s)). key_of r = Some (ic_idempotent_key ctx)"
  have P: "?P st"
  proof (rule stream_writes_induct[OF assms(2), where P = ?P and E = "\<lambda>_. True"])
    fix now now' ret :: int and b and s s' :: "'a out_stream"
    assume "?P s" and "write_one ctx now now' ret b s = Some (None, s')"
    then show "?P s'" using write_one_log(1)[of ctx now now' ret b s s'] key_of_make_record[OF assms(1)] by auto
  qed (simp_all add: out_stream_new_def)
  obtain r rs where l: "map fst (os_log st) = r # rs" using assms(4) by (cases "os_log st") auto
  have n: "length (os_log st) - 1 = length rs" using arg_cong[OF l, of length] by simp
  have "key_of r = Some (ic_idempotent_key ctx)" using P l by simp
  then have "hasIdempotentKey r" "idempotentKey r = Some (ic_idempotent_key ctx)"
    by (auto simp: key_of_def hasIdempotentKey_def idempotentKey_def split: option.splits if_splits)
  then have f: "dedupBlock max_ids r (buildIdempotentKeysIndex [])
      = Some (False, buildIdempotentKeysIndex [ic_idempotent_key ctx])"
    using assms(3) by (simp add: dedupBlock_def buildIdempotentKeysIndex_def addIdempotentKey_def)
  have "dedup_run max_ids rs (buildIdempotentKeysIndex [ic_idempotent_key ctx])
      = Some (replicate (length rs) True, buildIdempotentKeysIndex [ic_idempotent_key ctx])"
    by (rule dedup_same_key[where k = "ic_idempotent_key ctx"]) (use P l in \<open>simp_all add: buildIdempotentKeysIndex_def\<close>)
  then show ?thesis unfolding l n by (simp add: f)
qed

theorem one_key_many_blocks_witness:
  "\<exists>st d. stream_writes (ex_ctx [] ''sync'' ''key'') ex_writes (out_stream_new (ingesting_blocks_new 120)) = Some (None, st)
    \<and> dedup_run 1000 (map fst (os_log st)) (buildIdempotentKeysIndex []) = Some ([False, True], d)"
proof -
  have "ic_idempotent_key (ex_ctx [] ''sync'' ''key'') \<noteq> []" by (simp add: ex_ctx_def)
  from one_key_many_blocks[OF this ex_writes_sync, of 1000] show ?thesis
    unfolding ex_writes_sync by (auto simp: ex_log_def)
qed

section \<open>Asynchronous inserts\<close>

lemma remove_expired_keeps:
  assumes "remove_expired now timeout ts m = Some (ts', m')" "distinct (map snd ts)" "(t, q) \<in> set ts" "seconds (now - t) < timeout"
  shows "(t, q) \<in> set ts' \<and> map_of m' q = map_of m q"
  using assms
proof (induction now timeout ts m rule: remove_expired.induct)
  case (2 now timeout t1 q1 ts m)
  show ?case
  proof (cases "seconds (now - t1) \<ge> timeout")
    case True
    then have ts: "(t, q) \<in> set ts" using 2(4,5) by auto
    then have ne: "q \<noteq> q1" using 2(3) by force
    from 2(2) True obtain i where i: "map_of m q1 = Some i"
      "remove_expired now timeout ts (AList.delete q1 m) = Some (ts', m')"
      by (auto split: option.splits)
    have "(t, q) \<in> set ts' \<and> map_of m' q = map_of (AList.delete q1 m) q"
      by (rule 2(1)[OF True i(1) i(2)]) (use 2(3,5) ts in simp_all)
    then show ?thesis using ne by (simp add: map_of_delete_notin)
  qed (use 2 in auto)
qed simp

lemma seconds_within:
  assumes "T \<le> t" "now < T + timeout * 1000000000" "0 < timeout"
  shows "seconds (now - t) < timeout"
proof (cases "0 \<le> now - t")
  case True
  have "now - t < timeout * 1000000000" using assms by linarith
  then have "(now - t) div 1000000000 < timeout" by (simp add: div_less_iff_less_mult)
  then show ?thesis using True by (cases "now - t = 0") (simp_all add: seconds_def assms(3))
next
  case False
  then have "seconds (now - t) \<le> 0" by (simp add: seconds_def sgn_if pos_imp_zdiv_nonneg_iff)
  then show ?thesis using assms(3) by linarith
qed

text \<open>After \<open>n\<close> accepted records the query's entry has the block ids below \<open>n\<close>.\<close>

definition async_entry :: "nat \<Rightarrow> block_id_info" where
  "async_entry n = \<lparr>bi_total = of_nat n, bi_err = 0, bi_ids = rev (map of_nat [0..<n])\<rparr>"

definition async_state :: "string \<Rightarrow> int \<Rightarrow> int \<Rightarrow> 'v out_stream \<Rightarrow> bool" where
  "async_state q T timeout st \<longleftrightarrow>
     (let n = length (os_log st); ib = os_ingesting st in
       ingest_inv ib \<and> ib_timeout_sec ib = timeout \<and> os_outstanding st = of_nat n
       \<and> map snd (os_log st) = map (\<lambda>k. Poll_callback q (of_nat k)) [0..<n]
       \<and> map_of (ib_blockIds ib) q = (if n = 0 then None else Some (async_entry n))
       \<and> (n \<noteq> 0 \<longrightarrow> (\<exists>t\<ge>T. (t, q) \<in> set (ib_timed ib))))"

lemma unat16_of_nat: "n < 65536 \<Longrightarrow> unat (of_nat n :: 16 word) = n"
  by (simp add: unsigned_of_nat take_bit_nat_eq_self)

lemma of_nat16_inj: "m < 65536 \<Longrightarrow> n < 65536 \<Longrightarrow> (of_nat m :: 16 word) = of_nat n \<longleftrightarrow> m = n"
  using unat16_of_nat[of m] unat16_of_nat[of n] by metis

lemma async_entry_ok:
  assumes "0 < n" "n < 65536"
  shows "info_ok (async_entry n)"
  using assms of_nat16_inj
  by (auto simp: async_entry_def info_ok_def unat16_of_nat distinct_map inj_on_def)

lemma async_entry_add:
  assumes "n < 65535" "info = (if n = 0 then block_id_info_new else async_entry n)"
  shows "of_nat n \<notin> set (bi_ids info)"
    "info\<lparr>bi_total := bi_total info + 1, bi_ids := of_nat n # bi_ids info\<rparr> = async_entry (Suc n)"
proof -
  have "(of_nat k :: 16 word) \<noteq> of_nat n" if "k < n" for k
    using of_nat16_inj[of k n] that assms(1) by simp
  then have "of_nat n \<notin> (of_nat :: nat \<Rightarrow> 16 word) ` {0..<n}" by (metis atLeastLessThan_iff imageE)
  then show "of_nat n \<notin> set (bi_ids info)" using assms(2) by (simp add: async_entry_def block_id_info_new_def)
  show "info\<lparr>bi_total := bi_total info + 1, bi_ids := of_nat n # bi_ids info\<rparr> = async_entry (Suc n)"
    using assms(2) by (simp add: async_entry_def block_id_info_new_def add.commute)
qed

lemma ingest_add_async:
  assumes "ingest_inv ib" "map_of (ib_blockIds ib) q = (if n = 0 then None else Some (async_entry n))" "n < 65535"
    "n \<noteq> 0 \<Longrightarrow> \<exists>t\<ge>T. (t, q) \<in> set (ib_timed ib)" "T \<le> now" "now' < T + ib_timeout_sec ib * 1000000000" "0 < ib_timeout_sec ib"
  shows "\<exists>ib'. ingest_add now now' q (of_nat n) ib = Some (True, ib') \<and> ingest_inv ib' \<and> ib_timeout_sec ib' = ib_timeout_sec ib
    \<and> map_of (ib_blockIds ib') q = Some (async_entry (Suc n)) \<and> (\<exists>t\<ge>T. (t, q) \<in> set (ib_timed ib'))"
proof -
  define i where "i = async_entry (Suc n)"
  define st2 where "st2 = (if n \<noteq> 0 then ib\<lparr>ib_blockIds := AList.update q i (ib_blockIds ib)\<rparr>
      else ib\<lparr>ib_blockIds := AList.update q i (ib_blockIds ib), ib_timed := ib_timed ib @ [(now, q)]\<rparr>)"
  have ok: "info_ok i" unfolding i_def by (rule async_entry_ok) (use assms(3) in simp_all)
  have inv2: "ingest_inv st2"
    using ingest_inv_update[OF assms(1) _ ok, of q] ingest_inv_insert[OF assms(1) _ ok, of q now] assms(2)
    unfolding st2_def by (cases "n = 0") simp_all
  have m2: "map_of (ib_blockIds st2) q = Some i" by (simp add: st2_def AList.update_conv')
  obtain t where t: "T \<le> t" "(t, q) \<in> set (ib_timed st2)"
    using assms(4,5) unfolding st2_def by (cases "n = 0") auto
  from removeExpired_inv[OF inv2, of now'] obtain ib' where
    r: "removeExpiredBlockIds now' st2 = Some ib'" "ingest_inv ib'" "ib_timeout_sec ib' = ib_timeout_sec st2" by blast
  have to: "ib_timeout_sec st2 = ib_timeout_sec ib" by (simp add: st2_def)
  have "seconds (now' - t) < ib_timeout_sec st2"
    unfolding to by (rule seconds_within[OF t(1) assms(6,7)])
  then have "(t, q) \<in> set (ib_timed ib') \<and> map_of (ib_blockIds ib') q = Some i"
    using r(1) remove_expired_keeps[OF _ ingest_invD(2)[OF inv2] t(2)] m2
    by (auto simp: removeExpiredBlockIds_def)
  moreover have "ingest_add now now' q (of_nat n) ib = Some (True, ib')"
    using r(1) assms(2) async_entry_add[OF assms(3) refl]
    unfolding ingest_add_def add_block_id_def st2_def i_def
    by (cases "n = 0") (simp_all add: Let_def)
  ultimately show ?thesis using r to t(1) unfolding i_def by auto
qed

lemma async_step:
  assumes "getIngestMode ctx = ''async''" "async_state (ic_poll_id ctx) T timeout s" "length (os_log s) < 65535"
    "T \<le> now" "now' < T + timeout * 1000000000" "0 < timeout" "write_one ctx now now' ret b s = Some (None, s')"
  shows "async_state (ic_poll_id ctx) T timeout s'"
proof -
  define n where "n = length (os_log s)"
  have u: "(ucast (of_nat n :: 32 word) :: 16 word) = of_nat n"
    using assms(3) by (simp add: unsigned_of_nat take_bit_nat_eq_self n_def)
  from assms(2) have a: "ingest_inv (os_ingesting s)" "ib_timeout_sec (os_ingesting s) = timeout" "os_outstanding s = of_nat n"
    "map snd (os_log s) = map (\<lambda>k. Poll_callback (ic_poll_id ctx) (of_nat k)) [0..<n]"
    "map_of (ib_blockIds (os_ingesting s)) (ic_poll_id ctx) = (if n = 0 then None else Some (async_entry n))"
    "n \<noteq> 0 \<Longrightarrow> \<exists>t\<ge>T. (t, ic_poll_id ctx) \<in> set (ib_timed (os_ingesting s))"
    unfolding async_state_def Let_def n_def[symmetric] by blast+
  from ingest_add_async[OF a(1,5) _ a(6) assms(4), of now'] assms(3,5,6) a(2) obtain ib' where
    ib: "ingest_add now now' (ic_poll_id ctx) (of_nat n) (os_ingesting s) = Some (True, ib')" "ingest_inv ib'"
    "ib_timeout_sec ib' = timeout" "map_of (ib_blockIds ib') (ic_poll_id ctx) = Some (async_entry (Suc n))"
    "\<exists>t\<ge>T. (t, ic_poll_id ctx) \<in> set (ib_timed ib')"
    unfolding n_def by auto
  have "s' = s\<lparr>os_ingesting := ib', os_outstanding := os_outstanding s + 1,
      os_log := os_log s @ [(make_record ctx (fst b) (snd b), Poll_callback (ic_poll_id ctx) (of_nat n))]\<rparr>"
    using assms(1,7) ib(1) by (auto simp: write_one_def Let_def writeCallbackData_def a(3) u accept_record_def split: if_splits)
  then show ?thesis
    using ib(2-5) a(3,4) by (simp add: async_state_def Let_def n_def[symmetric] add.commute)
qed

lemma async_writes_state:
  assumes "getIngestMode ctx = ''async''" "ingest_inv ib" "map_of (ib_blockIds ib) (ic_poll_id ctx) = None"
    "0 < ib_timeout_sec ib"
    "\<forall>(rnd, env, b)\<in>set ws. \<forall>k. T \<le> fst (env k) \<and> fst (snd (env k)) < T + ib_timeout_sec ib * 1000000000"
    "stream_writes ctx ws (out_stream_new ib) = Some (None, st)" "length (os_log st) \<le> 65535"
  shows "async_state (ic_poll_id ctx) T (ib_timeout_sec ib) st"
proof -
  let ?P = "\<lambda>s. length (os_log s) \<le> 65535 \<longrightarrow> async_state (ic_poll_id ctx) T (ib_timeout_sec ib) s"
  let ?E = "\<lambda>(now, now', ret :: int). T \<le> now \<and> now' < T + ib_timeout_sec ib * 1000000000"
  have "?P st"
  proof (rule stream_writes_induct[OF assms(6), where P = ?P and E = ?E])
    show "?P (out_stream_new ib)" using assms(2,3) by (simp add: async_state_def out_stream_new_def)
  next
    fix rnd env b k
    assume "(rnd, env, b) \<in> set ws"
    then have "T \<le> fst (env k) \<and> fst (snd (env k)) < T + ib_timeout_sec ib * 1000000000" using assms(5) by blast
    then show "?E (env k)" by (simp add: case_prod_beta)
  next
    fix now now' ret :: int and b and s s' :: "'a out_stream"
    assume a: "?P s" "?E (now, now', ret)" and w: "write_one ctx now now' ret b s = Some (None, s')"
    from write_one_log(1)[OF w] have "length (os_log s') = Suc (length (os_log s))" by auto
    then show "?P s'" using a async_step[OF assms(1) _ _ _ _ assms(4) w, of T] by auto
  qed
  then show ?thesis using assms(7) by simp
qed

lemma deliver_entry:
  assumes "map_of (ib_blockIds ib) q = Some info"
  shows "map_of (ib_blockIds (deliver (Poll_callback q b, e) ib)) q =
    Some (if e \<noteq> 0 then info\<lparr>bi_err := of_int e\<rparr> else info\<lparr>bi_ids := removeAll b (bi_ids info)\<rparr>)"
  using assms by (auto simp: storage_writeCallback_def ingest_fail_def ingest_remove_def AList.update_conv' removeAll_id)

lemma err16_nonzero: "e \<noteq> 0 \<Longrightarrow> 0 \<le> e \<Longrightarrow> e < 65536 \<Longrightarrow> (of_int e :: 16 word) \<noteq> 0"
  using unsigned_of_int[where ?'a = int and ?'b = 16, of e] by (auto simp: take_bit_int_eq_self)

lemma fold_deliver_entry:
  assumes "map_of (ib_blockIds ib) q = Some info"
    "\<forall>x\<in>set cbs. (\<exists>b. fst x = Poll_callback q b) \<and> 0 \<le> snd x \<and> snd x < 65536"
  shows "\<exists>info'. map_of (ib_blockIds (fold deliver cbs ib)) q = Some info' \<and> bi_total info' = bi_total info
    \<and> bi_ids info' = filter (\<lambda>b. (Poll_callback q b, 0) \<notin> set cbs) (bi_ids info)
    \<and> (bi_err info' = 0 \<longleftrightarrow> bi_err info = 0 \<and> (\<forall>x\<in>set cbs. snd x = 0))"
  using assms
proof (induction cbs arbitrary: ib info)
  case (Cons x cbs)
  from Cons.prems(2) obtain b e where x: "x = (Poll_callback q b, e)" "0 \<le> e" "e < 65536"
    by (cases x) auto
  let ?i = "if e \<noteq> 0 then info\<lparr>bi_err := of_int e\<rparr> else info\<lparr>bi_ids := removeAll b (bi_ids info)\<rparr>"
  have m: "map_of (ib_blockIds (deliver x ib)) q = Some ?i" unfolding x(1) by (rule deliver_entry[OF Cons.prems(1)])
  from Cons.IH[OF m] Cons.prems(2) obtain i' where
    i: "map_of (ib_blockIds (fold deliver cbs (deliver x ib))) q = Some i'" "bi_total i' = bi_total ?i"
    "bi_ids i' = filter (\<lambda>b. (Poll_callback q b, 0) \<notin> set cbs) (bi_ids ?i)"
    "bi_err i' = 0 \<longleftrightarrow> bi_err ?i = 0 \<and> (\<forall>x\<in>set cbs. snd x = 0)" by auto
  have "bi_ids i' = filter (\<lambda>b. (Poll_callback q b, 0) \<notin> set (x # cbs)) (bi_ids info)"
    unfolding i(3) x(1) by (auto simp: removeAll_filter_not_eq intro!: filter_cong)
  moreover have "bi_err i' = 0 \<longleftrightarrow> bi_err info = 0 \<and> (\<forall>y\<in>set (x # cbs). snd y = 0)"
    unfolding i(4) x(1) using err16_nonzero[OF _ x(2,3)] by auto
  moreover have "bi_total i' = bi_total info" using i(2) by simp
  ultimately show ?case using i(1) by simp
qed simp

text \<open>
  C24.  The status of an asynchronous insert tells the truth.  For an insert in asynchronous mode whose
  records were all accepted within the timeout, once the log has passed a result for each of
  its records, in any order, the status of its poll id is \<^verbatim>\<open>Succeeded\<close> with 100 percent if all
  results are good and \<^verbatim>\<open>Failed\<close> otherwise.
\<close>

theorem async_insert_status:
  assumes "getIngestMode ctx = ''async''" "ingest_inv ib" "map_of (ib_blockIds ib) (ic_poll_id ctx) = None"
    "0 < ib_timeout_sec ib"
    "\<forall>(rnd, env, b)\<in>set ws. \<forall>k. T \<le> fst (env k) \<and> fst (snd (env k)) < T + ib_timeout_sec ib * 1000000000"
    "stream_writes ctx ws (out_stream_new ib) = Some (None, st)" "length (os_log st) \<le> 65535" "os_log st \<noteq> []"
    "mset (map fst cbs) = mset (map snd (os_log st))" "\<forall>x\<in>set cbs. 0 \<le> snd x \<and> snd x < 65536"
  shows "\<exists>p. ingest_status (ic_poll_id ctx) (fold deliver cbs (os_ingesting st)) =
      Some (if \<forall>x\<in>set cbs. snd x = 0 then Succeeded else Failed, p)
    \<and> ((\<forall>x\<in>set cbs. snd x = 0) \<longrightarrow> p = 100)"
proof -
  define q where "q = ic_poll_id ctx"
  define n where "n = length (os_log st)"
  have n: "0 < n" "n < 65536" using assms(7,8) by (auto simp: n_def)
  have "async_state q T (ib_timeout_sec ib) st"
    unfolding q_def by (rule async_writes_state[OF assms(1-7)])
  then have
    a: "map snd (os_log st) = map (\<lambda>k. Poll_callback q (of_nat k)) [0..<n]"
    "map_of (ib_blockIds (os_ingesting st)) q = Some (async_entry n)"
    using n(1) unfolding async_state_def Let_def n_def[symmetric] by auto
  have cb: "fst ` set cbs = (\<lambda>k. Poll_callback q (of_nat k)) ` {0..<n}"
    using arg_cong[OF assms(9), of set_mset] by (simp add: a(1))
  have "\<forall>x\<in>set cbs. (\<exists>b. fst x = Poll_callback q b) \<and> 0 \<le> snd x \<and> snd x < 65536"
    using assms(10) cb by blast
  from fold_deliver_entry[OF a(2) this] obtain i where
    i: "map_of (ib_blockIds (fold deliver cbs (os_ingesting st))) q = Some i" "bi_total i = of_nat n"
    "bi_ids i = filter (\<lambda>b. (Poll_callback q b, 0) \<notin> set cbs) (rev (map of_nat [0..<n]))"
    "bi_err i = 0 \<longleftrightarrow> (\<forall>x\<in>set cbs. snd x = 0)" by (auto simp: async_entry_def)
  have ok: "info_ok i"
  proof -
    have "length (bi_ids i) \<le> n"
      using length_filter_le[of "\<lambda>b. (Poll_callback q b, 0) \<notin> set cbs" "rev (map of_nat [0..<n])"] by (simp add: i(3))
    then show ?thesis using async_entry_ok[OF n] by (auto simp: info_ok_def i(2,3) async_entry_def)
  qed
  obtain p where p: "ingest_progress i = Some p" using progress_value[OF ok] by blast
  have e: "bi_ids i = []" if "\<forall>x\<in>set cbs. snd x = 0"
  proof -
    have "(Poll_callback q (of_nat k), 0) \<in> set cbs" if "k < n" for k
    proof -
      from \<open>k < n\<close> have "Poll_callback q (of_nat k) \<in> fst ` set cbs" unfolding cb by auto
      then show ?thesis using \<open>\<forall>x\<in>set cbs. snd x = 0\<close> by force
    qed
    then show ?thesis by (auto simp: i(3) filter_empty_conv)
  qed
  show ?thesis
    using progress_100[OF ok p] e i(1,4) p unfolding q_def[symmetric] by (auto simp: ingest_status_def)
qed

definition ex_async :: "int insert_context" where
  "ex_async = ex_ctx [] [] []"

theorem async_insert_status_witness:
  "\<exists>st p. stream_writes ex_async ex_writes (out_stream_new (ingesting_blocks_new 120)) = Some (None, st)
    \<and> ingest_status ''poll'' (fold deliver [(Poll_callback ''poll'' 1, 0), (Poll_callback ''poll'' 0, 0)] (os_ingesting st))
      = Some (Succeeded, 100)
    \<and> ingest_status ''poll'' (fold deliver [(Poll_callback ''poll'' 1, 7), (Poll_callback ''poll'' 0, 0)] (os_ingesting st))
      = Some (Failed, p)"
proof -
  let ?ib = "ingesting_blocks_new 120"
  have m: "getIngestMode ex_async = ''async''" "ic_poll_id ex_async = ''poll''" "ingest_inv ?ib"
    "map_of (ib_blockIds ?ib) (ic_poll_id ex_async) = None" "0 < ib_timeout_sec ?ib"
    by (simp_all add: ex_async_def ex_ctx_def getIngestMode_def ingesting_blocks_new_def ingest_inv_def)
  have env: "\<forall>(rnd, env, b)\<in>set ex_writes. \<forall>k. 0 \<le> fst (env k) \<and> fst (snd (env k)) < 0 + ib_timeout_sec ?ib * 1000000000"
    by (simp add: ex_writes_def ingesting_blocks_new_def)
  have "map_option (\<lambda>(e, st). (e, map snd (os_log st))) (stream_writes ex_async ex_writes (out_stream_new ?ib))
      = Some (None, [Poll_callback ''poll'' 0, Poll_callback ''poll'' 1])"
    by code_simp
  then obtain st where st: "stream_writes ex_async ex_writes (out_stream_new ?ib) = Some (None, st)"
    "map snd (os_log st) = [Poll_callback ''poll'' 0, Poll_callback ''poll'' 1]" by auto
  have l: "length (os_log st) \<le> 65535" "os_log st \<noteq> []" using arg_cong[OF st(2), of length] by auto
  note t = async_insert_status[OF m(1,3-5) env st(1) l]
  show ?thesis
    using t[of "[(Poll_callback ''poll'' 1, 0), (Poll_callback ''poll'' 0, 0)]"]
      t[of "[(Poll_callback ''poll'' 1, 7), (Poll_callback ''poll'' 0, 0)]"] st m(2) by auto
qed

end
