(* ===== verification/Shard_Pruning.thy ===== *)
theory Shard_Pruning
  imports Block_Sharding
begin

text \<open>
  Which shards a query with constant conditions on the sharding key is sent to:
  \<^verbatim>\<open>evaluateExpressionOverConstantCondition\<close> and the analysis under it
  (\<^verbatim>\<open>src/src/Interpreters/evaluateConstantExpression.cpp\<close>), \<^verbatim>\<open>replaceConstantExpressions\<close> and
  \<^verbatim>\<open>skipUnusedShards\<close> (\<^verbatim>\<open>StorageDistributedMergeTree.cpp\<close>), and sub-clusters (\<^verbatim>\<open>Cluster.cpp\<close>).
  The SQL functions, the conversion of a literal to the type of a column and the result of
  constant folding are arguments.
\<close>

section \<open>Expressions\<close>

datatype field =
    Field_Null
  | Field_UInt64 int
  | Field_Int64 int
  | Field_String string
  | Field_Tuple "field list"
  | Field_Other string

datatype ast = AST_Identifier string | AST_Literal field | AST_Function string "ast list"

text \<open>The sharding expression: the columns it needs with their types, the type and the value of its result for
  values of these columns, and whether its result for constants is a constant column.\<close>

record 'ty sharding_expr =
  se_required :: "(string \<times> 'ty) list"
  se_type :: key_type
  se_value :: "field list \<Rightarrow> int"
  se_folds :: bool

type_synonym conjunction = "(string \<times> field) list"

section \<open>The analysis of a condition\<close>

fun identifier_name :: "ast \<Rightarrow> string option" where
  "identifier_name (AST_Identifier c) = Some c"
| "identifier_name _ = None"

fun literal_value :: "ast \<Rightarrow> field option" where
  "literal_value (AST_Literal v) = Some v"
| "literal_value _ = None"

definition analyzeEquals_value ::
    "(field \<Rightarrow> 'ty \<Rightarrow> field) \<Rightarrow> 'ty sharding_expr \<Rightarrow> string option \<Rightarrow> field \<Rightarrow> conjunction list" where
  "analyzeEquals_value conv expr identifier value =
     (case identifier of
        None \<Rightarrow> []
      | Some name \<Rightarrow>
          if value = Field_Null then []
          else (case map_of (se_required expr) name of
                  None \<Rightarrow> []
                | Some ty \<Rightarrow> if conv value ty = Field_Null then [] else [[(name, conv value ty)]]))"

definition analyzeEquals ::
    "(field \<Rightarrow> 'ty \<Rightarrow> field) \<Rightarrow> 'ty sharding_expr \<Rightarrow> string option \<Rightarrow> field option \<Rightarrow> conjunction list" where
  "analyzeEquals conv expr identifier literal =
     (case literal of None \<Rightarrow> [] | Some v \<Rightarrow> analyzeEquals_value conv expr identifier v)"

definition andDNF :: "conjunction list \<Rightarrow> conjunction list \<Rightarrow> conjunction list" where
  "andDNF left right = (if left = [] then right else concat (map (\<lambda>c1. map (\<lambda>c2. c1 @ c2) right) left))"

text \<open>The elements of the right side of \<^verbatim>\<open>in\<close>; \<open>None\<close> stands for an element that is not a literal.\<close>

fun in_elements :: "ast \<Rightarrow> field option list option" where
  "in_elements (AST_Function f xs) = (if f = ''tuple'' then Some (map literal_value xs) else None)"
| "in_elements (AST_Literal (Field_Tuple vs)) = Some (map Some vs)"
| "in_elements _ = None"

fun in_loop ::
    "(field \<Rightarrow> 'ty \<Rightarrow> field) \<Rightarrow> 'ty sharding_expr \<Rightarrow> string option \<Rightarrow> field option list \<Rightarrow> conjunction list \<Rightarrow> nat
      \<Rightarrow> conjunction list \<times> nat" where
  "in_loop conv expr identifier [] acc limit = (acc, limit)"
| "in_loop conv expr identifier (v # vs) acc limit =
     (let dnf = analyzeEquals conv expr identifier v
      in if dnf = [] \<or> length dnf > limit then ([], limit)
         else in_loop conv expr identifier vs (acc @ dnf) (limit - length dnf))"

definition or_else :: "'a option \<Rightarrow> 'a option \<Rightarrow> 'a option" where
  "or_else a b = (case a of None \<Rightarrow> b | Some _ \<Rightarrow> a)"

fun analyzeFunction :: "(field \<Rightarrow> 'ty \<Rightarrow> field) \<Rightarrow> 'ty sharding_expr \<Rightarrow> ast \<Rightarrow> nat \<Rightarrow> conjunction list \<times> nat"
and or_loop :: "(field \<Rightarrow> 'ty \<Rightarrow> field) \<Rightarrow> 'ty sharding_expr \<Rightarrow> ast list \<Rightarrow> conjunction list \<Rightarrow> nat \<Rightarrow> conjunction list \<times> nat"
and and_loop :: "(field \<Rightarrow> 'ty \<Rightarrow> field) \<Rightarrow> 'ty sharding_expr \<Rightarrow> ast list \<Rightarrow> conjunction list \<Rightarrow> nat \<Rightarrow> conjunction list \<times> nat" where
  "analyzeFunction conv expr (AST_Function f args) limit =
     (if limit = 0 then ([], limit)
      else if f = ''equals'' then
        (analyzeEquals conv expr
           (or_else (identifier_name (hd args)) (identifier_name (last args)))
           (or_else (literal_value (hd args)) (literal_value (last args))), limit - 1)
      else if f = ''in'' then
        (case in_elements (last args) of
           None \<Rightarrow> ([], limit)
         | Some vs \<Rightarrow> in_loop conv expr (identifier_name (hd args)) vs [] limit)
      else if f = ''or'' then or_loop conv expr args [] limit
      else if f = ''and'' then and_loop conv expr args [] limit
      else ([], limit))"
| "analyzeFunction conv expr (AST_Identifier c) limit = ([], limit)"
| "analyzeFunction conv expr (AST_Literal v) limit = ([], limit)"
| "or_loop conv expr [] acc limit = (acc, limit)"
| "or_loop conv expr (a # as) acc limit =
     (let (dnf, limit') = analyzeFunction conv expr a limit
      in if dnf = [] then ([], limit') else or_loop conv expr as (acc @ dnf) limit')"
| "and_loop conv expr [] acc limit = (acc, limit)"
| "and_loop conv expr (a # as) acc limit =
     (let (dnf, limit') = analyzeFunction conv expr a limit
      in and_loop conv expr as (if dnf = [] then acc else andDNF acc dnf) limit')"

text \<open>
  The key column for a conjunction: the first column of each name is used.  Every column of a conjunction is a
  constant of one row, so the block has one row.
\<close>

definition has_required_columns :: "'ty sharding_expr \<Rightarrow> conjunction \<Rightarrow> bool" where
  "has_required_columns expr cj \<longleftrightarrow> list_all (\<lambda>(name, ty). map_of cj name \<noteq> None) (se_required expr)"

definition key_of_conjunction :: "'ty sharding_expr \<Rightarrow> conjunction \<Rightarrow> key_type \<times> key_column" where
  "key_of_conjunction expr cj =
     (let k = se_value expr (map (\<lambda>(name, ty). the (map_of cj name)) (se_required expr))
      in (se_type expr, if se_folds expr then Const_column k 1 else Vector_column [k]))"

text \<open>The result: the key columns if there is a definite answer, and the limit that is left.\<close>

fun evaluateExpressionOverConstantCondition ::
    "(field \<Rightarrow> 'ty \<Rightarrow> field) \<Rightarrow> 'ty sharding_expr \<Rightarrow> ast \<Rightarrow> nat \<Rightarrow> (key_type \<times> key_column) list option \<times> nat" where
  "evaluateExpressionOverConstantCondition conv expr (AST_Function f args) limit =
     (let (dnf, limit') = analyzeFunction conv expr (AST_Function f args) limit
      in if dnf = [] \<or> limit' = 0 then (None, limit')
         else if list_all (has_required_columns expr) dnf then (Some (map (key_of_conjunction expr) dnf), limit')
         else (None, limit'))"
| "evaluateExpressionOverConstantCondition conv expr (AST_Literal v) limit =
     (if v = Field_UInt64 0 then Some [] else None, limit)"
| "evaluateExpressionOverConstantCondition conv expr (AST_Identifier c) limit = (Some [], limit)"

section \<open>Skipping shards\<close>

fun replaceConstantExpressions :: "(ast \<Rightarrow> field option) \<Rightarrow> ast \<Rightarrow> ast" where
  "replaceConstantExpressions consts (AST_Function f args) =
     (case consts (AST_Function f args) of
        Some v \<Rightarrow> AST_Literal v
      | None \<Rightarrow> AST_Function f (map (replaceConstantExpressions consts) args))"
| "replaceConstantExpressions consts a = a"

record shard_info =
  si_num :: nat
  si_local :: bool
  si_remote_connections :: bool

datatype route_error =
    ARGUMENT_OUT_OF_BOUND
  | SHARD_INDEX_OUT_OF_RANGE
  | SHARD_HAS_NO_CONNECTIONS
  | UNABLE_TO_SKIP_UNUSED_SHARDS
  | Route_insert insert_error

text \<open>\<^verbatim>\<open>getClusterWithMultipleShards\<close>, with the check of \<^verbatim>\<open>initMisc\<close>.\<close>

definition initMisc :: "shard_info list \<Rightarrow> (route_error, shard_info list) result" where
  "initMisc shards =
     (if list_all (\<lambda>s. si_local s \<or> si_remote_connections s) shards then Inr shards else Inl SHARD_HAS_NO_CONNECTIONS)"

definition getClusterWithMultipleShards :: "shard_info list \<Rightarrow> nat list \<Rightarrow> (route_error, shard_info list) result" where
  "getClusterWithMultipleShards cluster indices =
     (if list_all (\<lambda>i. i < length cluster) indices then initMisc (map (\<lambda>i. cluster ! i) indices)
      else Inl SHARD_INDEX_OUT_OF_RANGE)"

fun collect_shards :: "int \<Rightarrow> (key_type \<times> key_column) list \<Rightarrow> nat list \<Rightarrow> (route_error, nat list) result option" where
  "collect_shards shards [] ids = Some (Inr ids)"
| "collect_shards shards (b # bs) ids =
     (case createSelector_column shards b of
        None \<Rightarrow> None
      | Some (Inl e) \<Rightarrow> Some (Inl (Route_insert e))
      | Some (Inr selector) \<Rightarrow> collect_shards shards bs (ids @ selector))"

definition condition_ast :: "ast option \<Rightarrow> ast option \<Rightarrow> ast option" where
  "condition_ast prewhere wher =
     (case prewhere of
        None \<Rightarrow> wher
      | Some p \<Rightarrow> (case wher of None \<Rightarrow> Some p | Some w \<Rightarrow> Some (AST_Function ''and'' [p, w])))"

definition skipUnusedShards ::
    "(field \<Rightarrow> 'ty \<Rightarrow> field) \<Rightarrow> (ast \<Rightarrow> field option) \<Rightarrow> int \<Rightarrow> 'ty sharding_expr \<Rightarrow> nat \<Rightarrow> shard_info list \<Rightarrow> ast option \<Rightarrow> ast option
      \<Rightarrow> (route_error, shard_info list option) result option" where
  "skipUnusedShards conv consts shards expr limit cluster prewhere wher =
     (case condition_ast prewhere wher of
        None \<Rightarrow> Some (Inr None)
      | Some cond \<Rightarrow>
          if limit = 0 \<or> int limit > 2 ^ 63 - 1 then Some (Inl ARGUMENT_OUT_OF_BOUND)
          else
            (let (blocks, limit') =
                   evaluateExpressionOverConstantCondition conv expr (replaceConstantExpressions consts cond) (limit + 1)
             in if limit' = 0 then Some (Inr None)
                else
                  case blocks of
                    None \<Rightarrow> Some (Inr None)
                  | Some bs \<Rightarrow>
                      map_option (\<lambda>r. bind_result r (\<lambda>ids.
                          bind_result (getClusterWithMultipleShards cluster (sort (remdups ids))) (\<lambda>c. Inr (Some c))))
                        (collect_shards shards bs [])))"

section \<open>The meaning of a condition\<close>

text \<open>
  \<open>sql\<close> interprets the functions; \<open>row\<close> gives the value of each column.  A row is selected when the value of
  the condition is a number other than zero.
\<close>

fun ast_value :: "(string \<Rightarrow> field list \<Rightarrow> field) \<Rightarrow> (string \<Rightarrow> field) \<Rightarrow> ast \<Rightarrow> field" where
  "ast_value sql row (AST_Identifier c) = row c"
| "ast_value sql row (AST_Literal v) = v"
| "ast_value sql row (AST_Function f args) = sql f (map (ast_value sql row) args)"

fun truthy :: "field \<Rightarrow> bool" where
  "truthy (Field_UInt64 x) = (x \<noteq> 0)"
| "truthy (Field_Int64 x) = (x \<noteq> 0)"
| "truthy _ = False"

definition selects :: "(string \<Rightarrow> field list \<Rightarrow> field) \<Rightarrow> (string \<Rightarrow> field) \<Rightarrow> ast option \<Rightarrow> bool" where
  "selects sql row a = (case a of None \<Rightarrow> True | Some c \<Rightarrow> truthy (ast_value sql row c))"

text \<open>The laws of the four functions that the analysis knows.\<close>

definition sql_laws :: "(string \<Rightarrow> field list \<Rightarrow> field) \<Rightarrow> bool" where
  "sql_laws sql \<longleftrightarrow>
     (\<forall>vs. truthy (sql ''and'' vs) \<longrightarrow> list_all truthy vs)
   \<and> (\<forall>vs. truthy (sql ''or'' vs) \<longrightarrow> list_ex truthy vs)
   \<and> (\<forall>x vs. truthy (sql ''in'' [x, Field_Tuple vs]) \<longrightarrow> list_ex (\<lambda>v. truthy (sql ''equals'' [x, v])) vs)
   \<and> (\<forall>vs. sql ''tuple'' vs = Field_Tuple vs)"

text \<open>A literal that equals the value of a column is converted to that value, or not at all.\<close>

definition conv_law :: "(string \<Rightarrow> field list \<Rightarrow> field) \<Rightarrow> (field \<Rightarrow> 'ty \<Rightarrow> field) \<Rightarrow> 'ty sharding_expr \<Rightarrow> (string \<Rightarrow> field) \<Rightarrow> bool" where
  "conv_law sql conv expr row \<longleftrightarrow>
     (\<forall>(c, ty)\<in>set (se_required expr). \<forall>v. truthy (sql ''equals'' [row c, v]) \<or> truthy (sql ''equals'' [v, row c])
        \<longrightarrow> conv v ty = Field_Null \<or> conv v ty = row c)"

text \<open>\<^verbatim>\<open>equals\<close> and \<^verbatim>\<open>in\<close> have two arguments.\<close>

fun binary_ok :: "ast \<Rightarrow> bool" where
  "binary_ok (AST_Function f args) = ((f = ''equals'' \<or> f = ''in'' \<longrightarrow> length args = 2) \<and> list_all binary_ok args)"
| "binary_ok _ = True"

section \<open>Lemmas\<close>

definition matches :: "(string \<Rightarrow> field) \<Rightarrow> conjunction \<Rightarrow> bool" where
  "matches row cj \<longleftrightarrow> (\<forall>(c, v)\<in>set cj. v = row c)"

lemma sql_lawsD:
  assumes "sql_laws sql"
  shows "truthy (sql ''and'' vs) \<Longrightarrow> v \<in> set vs \<Longrightarrow> truthy v"
    "truthy (sql ''or'' vs) \<Longrightarrow> \<exists>v\<in>set vs. truthy v"
    "truthy (sql ''in'' [x, Field_Tuple vs]) \<Longrightarrow> \<exists>v\<in>set vs. truthy (sql ''equals'' [x, v])"
    "sql ''tuple'' vs = Field_Tuple vs"
  using assms unfolding sql_laws_def list_all_iff list_ex_iff by blast+

lemma analyzeEquals_value_sound:
  assumes "conv_law sql conv expr row" "analyzeEquals_value conv expr (Some c) v \<noteq> []"
    "truthy (sql ''equals'' [row c, v]) \<or> truthy (sql ''equals'' [v, row c])"
  shows "\<exists>cj\<in>set (analyzeEquals_value conv expr (Some c) v). matches row cj"
proof -
  from assms(2) obtain ty where ty: "map_of (se_required expr) c = Some ty" "conv v ty \<noteq> Field_Null"
    "analyzeEquals_value conv expr (Some c) v = [[(c, conv v ty)]]"
    by (auto simp: analyzeEquals_value_def split: option.splits if_splits)
  have "(c, ty) \<in> set (se_required expr)" using ty(1) by (rule map_of_SomeD)
  then have "conv v ty = row c" using assms(1,3) ty(2) unfolding conv_law_def by blast
  then show ?thesis using ty(3) by (simp add: matches_def)
qed

lemma in_loop_sound:
  assumes "in_loop conv expr idn vs acc limit = (dnf, limit')" "dnf \<noteq> []" "v \<in> set vs"
  shows "set (analyzeEquals conv expr idn v) \<subseteq> set dnf \<and> analyzeEquals conv expr idn v \<noteq> []"
    "set acc \<subseteq> set dnf"
proof -
  have acc: "set acc \<subseteq> set dnf" if "in_loop conv expr idn vs acc limit = (dnf, limit')" for vs acc limit
    using that assms(2)
    by (induction conv expr idn vs acc limit rule: in_loop.induct) (auto simp: Let_def split: if_splits)
  then show "set acc \<subseteq> set dnf" using assms(1) .
  show "set (analyzeEquals conv expr idn v) \<subseteq> set dnf \<and> analyzeEquals conv expr idn v \<noteq> []"
    using assms
  proof (induction vs arbitrary: acc limit)
    case (Cons u us)
    from Cons.prems(1,2) have r: "in_loop conv expr idn us (acc @ analyzeEquals conv expr idn u) (limit - length (analyzeEquals conv expr idn u)) = (dnf, limit')"
      and n: "analyzeEquals conv expr idn u \<noteq> []"
      by (auto simp: Let_def split: if_splits)
    show ?case
    proof (cases "v = u")
      case True
      then show ?thesis using acc[OF r] n by auto
    next
      case False
      then show ?thesis using Cons.IH[OF r Cons.prems(2)] Cons.prems(3) by simp
    qed
  qed simp
qed

lemma andDNF_matches:
  assumes "acc = [] \<or> (\<exists>cj\<in>set acc. matches row cj)" "\<exists>cj\<in>set dnf. matches row cj"
  shows "\<exists>cj\<in>set (andDNF acc dnf). matches row cj"
proof (cases "acc = []")
  case False
  then obtain c1 c2 where c: "c1 \<in> set acc" "matches row c1" "c2 \<in> set dnf" "matches row c2" using assms by blast
  have "c1 @ c2 \<in> set (andDNF acc dnf)" using False c(1,3) by (auto simp: andDNF_def)
  moreover have "matches row (c1 @ c2)" using c(2,4) by (auto simp: matches_def)
  ultimately show ?thesis by blast
qed (use assms in \<open>simp add: andDNF_def\<close>)

lemma andDNF_nonempty: "dnf \<noteq> [] \<Longrightarrow> andDNF acc dnf \<noteq> []"
  by (cases acc; cases dnf) (simp_all add: andDNF_def)

lemma in_elements_value:
  assumes "sql_laws sql" "in_elements y = Some vs"
  shows "\<exists>ws. ast_value sql row y = Field_Tuple ws \<and> (\<forall>w\<in>set ws. None \<in> set vs \<or> Some w \<in> set vs)"
  using assms(2)
proof (induction y rule: in_elements.induct)
  case (1 f xs)
  have "literal_value x = None \<or> literal_value x = Some (ast_value sql row x)" for x
    by (cases x) simp_all
  then have "None \<in> set (map literal_value xs) \<or> Some (ast_value sql row x) \<in> set (map literal_value xs)" if "x \<in> set xs" for x
    using that by (metis image_eqI list.set_map)
  then show ?case using 1 sql_lawsD(4)[OF assms(1)] by (auto split: if_splits)
qed auto

lemma analyzeEquals_None [simp]: "analyzeEquals conv expr idn None = []" "analyzeEquals conv expr None v = []"
  by (simp_all add: analyzeEquals_def analyzeEquals_value_def split: option.split)

lemma equals_sound:
  assumes "conv_law sql conv expr row" "length args = 2" "truthy (ast_value sql row (AST_Function ''equals'' args))"
    "dnf = analyzeEquals conv expr
           (or_else (identifier_name (hd args)) (identifier_name (last args)))
           (or_else (literal_value (hd args)) (literal_value (last args)))" "dnf \<noteq> []"
  shows "\<exists>cj\<in>set dnf. matches row cj"
proof -
  obtain x y where args: "args = [x, y]" using assms(2) by (metis (no_types) length_0_conv length_Suc_conv numeral_2_eq_2)
  from assms(4,5) consider c v where "x = AST_Identifier c" "y = AST_Literal v" | c v where "x = AST_Literal v" "y = AST_Identifier c"
    by (cases x; cases y) (simp_all add: args or_else_def)
  then show ?thesis
    using analyzeEquals_value_sound[OF assms(1)] assms(3-5)
    by cases (auto simp: args or_else_def analyzeEquals_def)
qed

lemma in_sound:
  assumes "sql_laws sql" "conv_law sql conv expr row" "length args = 2" "truthy (ast_value sql row (AST_Function ''in'' args))"
    "in_elements (last args) = Some vs" "in_loop conv expr (identifier_name (hd args)) vs [] limit = (dnf, limit')" "dnf \<noteq> []"
  shows "\<exists>cj\<in>set dnf. matches row cj"
proof -
  obtain x y where args: "args = [x, y]" using assms(3) by (metis (no_types) length_0_conv length_Suc_conv numeral_2_eq_2)
  from in_elements_value[OF assms(1), of y vs row] assms(5) obtain ws where
    ws: "ast_value sql row y = Field_Tuple ws" "\<forall>w\<in>set ws. None \<in> set vs \<or> Some w \<in> set vs" by (auto simp: args)
  from assms(4) ws(1) obtain w where w: "w \<in> set ws" "truthy (sql ''equals'' [ast_value sql row x, w])"
    using sql_lawsD(3)[OF assms(1)] by (auto simp: args)
  have s: "set (analyzeEquals conv expr (identifier_name x) v) \<subseteq> set dnf \<and> analyzeEquals conv expr (identifier_name x) v \<noteq> []"
    if "v \<in> set vs" for v using in_loop_sound(1)[OF assms(6,7) that] by (simp add: args)
  then have "Some w \<in> set vs" using ws(2) w(1) by force
  note sw = s[OF this]
  then obtain c where c: "x = AST_Identifier c" by (cases x) simp_all
  show ?thesis
    using analyzeEquals_value_sound[OF assms(2), of c w] sw w(2) by (auto simp: c analyzeEquals_def)
qed

lemma analyze_sound:
  assumes "sql_laws sql" "conv_law sql conv expr row"
  shows "analyzeFunction conv expr a limit = (dnf, limit') \<Longrightarrow> dnf \<noteq> [] \<Longrightarrow> binary_ok a \<Longrightarrow> truthy (ast_value sql row a)
      \<Longrightarrow> \<exists>cj\<in>set dnf. matches row cj"
    and "or_loop conv expr as acc limit = (dnf, limit') \<Longrightarrow> dnf \<noteq> [] \<Longrightarrow> list_all binary_ok as
      \<Longrightarrow> (\<exists>cj\<in>set acc. matches row cj) \<or> (\<exists>a\<in>set as. truthy (ast_value sql row a))
      \<Longrightarrow> \<exists>cj\<in>set dnf. matches row cj"
    and "and_loop conv expr as acc limit = (dnf, limit') \<Longrightarrow> dnf \<noteq> [] \<Longrightarrow> list_all binary_ok as
      \<Longrightarrow> \<forall>a\<in>set as. truthy (ast_value sql row a) \<Longrightarrow> acc = [] \<or> (\<exists>cj\<in>set acc. matches row cj)
      \<Longrightarrow> \<exists>cj\<in>set dnf. matches row cj"
  using assms(2)
proof (induction conv expr a limit and conv expr as acc limit and conv expr as acc limit
    arbitrary: dnf limit' and dnf limit' and dnf limit' rule: analyzeFunction_or_loop_and_loop.induct)
  case (1 conv expr f args limit)
  have l: "limit \<noteq> 0" using 1(3,4) by (auto split: if_splits)
  consider "f = ''equals''" | "f = ''in''" | "f = ''or''" | "f = ''and''" | "f \<notin> {''equals'', ''in'', ''or'', ''and''}" by blast
  then show ?case
  proof cases
    case 1
    show ?thesis
      by (rule equals_sound[OF "1.prems"(5), of args dnf]) (use "1.prems"(1-4) l 1 in simp_all)
  next
    case 2
    from "1.prems"(1,2) l 2 obtain vs where vs: "in_elements (last args) = Some vs"
      "in_loop conv expr (identifier_name (hd args)) vs [] limit = (dnf, limit')"
      by (auto split: option.splits)
    show ?thesis by (rule in_sound[OF assms(1) "1.prems"(5) _ _ vs]) (use "1.prems"(2-4) 2 in simp_all)
  next
    case 3
    have "\<exists>a\<in>set args. truthy (ast_value sql row a)"
      using sql_lawsD(2)[OF assms(1)] "1.prems"(4) 3 by fastforce
    then show ?thesis using "1.IH"(1)[of dnf limit'] "1.prems" l 3 by simp
  next
    case 4
    have "\<forall>a\<in>set args. truthy (ast_value sql row a)"
      using sql_lawsD(1)[OF assms(1)] "1.prems"(4) 4 by fastforce
    then show ?thesis using "1.IH"(2)[of dnf limit'] "1.prems" l 4 by simp
  next
    case 5
    then show ?thesis using "1.prems"(1,2) l by simp
  qed
next
  case (5 conv expr a as acc limit)
  obtain d l where d: "analyzeFunction conv expr a limit = (d, l)" by fastforce
  show ?case
  proof (cases "d = []")
    case False
    have "(\<exists>cj\<in>set (acc @ d). matches row cj) \<or> (\<exists>a\<in>set as. truthy (ast_value sql row a))"
      using "5.prems"(3,4,5) "5.IH"(1)[OF d False] by auto
    then show ?thesis
      using "5.IH"(2)[OF d[symmetric] refl False, of dnf limit'] "5.prems" d False by simp
  qed (use "5.prems" d in simp)
next
  case (7 conv expr a as acc limit)
  obtain d l where d: "analyzeFunction conv expr a limit = (d, l)" by fastforce
  have "(if d = [] then acc else andDNF acc d) = [] \<or> (\<exists>cj\<in>set (if d = [] then acc else andDNF acc d). matches row cj)"
    using "7.prems"(3,4,5,6) "7.IH"(1)[OF d] andDNF_matches[of acc row d] by auto
  then show ?case
    using "7.IH"(2)[OF d[symmetric] refl, of dnf limit'] "7.prems" d by simp
qed simp_all

definition row_key :: "'ty sharding_expr \<Rightarrow> (string \<Rightarrow> field) \<Rightarrow> int" where
  "row_key expr row = se_value expr (map (\<lambda>(name, ty). row name) (se_required expr))"

definition key_block :: "'ty sharding_expr \<Rightarrow> int \<Rightarrow> key_type \<times> key_column" where
  "key_block expr k = (se_type expr, if se_folds expr then Const_column k 1 else Vector_column [k])"

lemma key_of_matching:
  assumes "matches row cj" "has_required_columns expr cj"
  shows "key_of_conjunction expr cj = key_block expr (row_key expr row)"
proof -
  have "the (map_of cj name) = row name" if req: "(name, ty) \<in> set (se_required expr)" for name ty
  proof -
    obtain v where v: "map_of cj name = Some v"
      using assms(2) req by (auto simp: has_required_columns_def list_all_iff)
    have "v = row name" using assms(1) map_of_SomeD[OF v] unfolding matches_def by blast
    then show ?thesis using v by simp
  qed
  then have "map (\<lambda>(name, ty). the (map_of cj name)) (se_required expr) = map (\<lambda>(name, ty). row name) (se_required expr)"
    by (intro map_cong) auto
  then show ?thesis unfolding key_of_conjunction_def key_block_def row_key_def by (simp only: Let_def)
qed

lemma evaluate_sound:
  assumes "sql_laws sql" "conv_law sql conv expr row" "binary_ok a" "truthy (ast_value sql row a)"
    "evaluateExpressionOverConstantCondition conv expr a limit = (Some bs, limit')" "\<And>c. a \<noteq> AST_Identifier c"
  shows "key_block expr (row_key expr row) \<in> set bs"
proof (cases a)
  case (AST_Function f args)
  obtain dnf l where d: "analyzeFunction conv expr (AST_Function f args) limit = (dnf, l)" by fastforce
  have r: "dnf \<noteq> []" "list_all (has_required_columns expr) dnf" "bs = map (key_of_conjunction expr) dnf"
    using assms(5) d by (auto simp: AST_Function Let_def split: if_splits)
  from analyze_sound(1)[OF assms(1,2) d r(1)] assms(3,4) obtain cj where cj: "cj \<in> set dnf" "matches row cj"
    unfolding AST_Function by blast
  have "has_required_columns expr cj" using r(2) cj(1) by (simp add: list_all_iff)
  from key_of_matching[OF cj(2) this] show ?thesis using r(3) cj(1) by force
qed (use assms(4-6) in \<open>auto split: if_splits\<close>)

definition folding_law :: "(string \<Rightarrow> field list \<Rightarrow> field) \<Rightarrow> (ast \<Rightarrow> field option) \<Rightarrow> (string \<Rightarrow> field) \<Rightarrow> bool" where
  "folding_law sql consts row \<longleftrightarrow> (\<forall>a v. consts a = Some v \<longrightarrow> ast_value sql row a = v)"

lemma replaceConstantExpressions_value:
  assumes "folding_law sql consts row"
  shows "ast_value sql row (replaceConstantExpressions consts a) = ast_value sql row a"
proof (induction a)
  case (AST_Function f args)
  have "map (\<lambda>x. ast_value sql row (replaceConstantExpressions consts x)) args = map (ast_value sql row) args"
    using AST_Function by (intro map_cong) auto
  moreover have "consts (AST_Function f args) = Some v \<Longrightarrow> ast_value sql row (AST_Function f args) = v" for v
    using assms unfolding folding_law_def by blast
  ultimately show ?case by (simp add: o_def del: map_eq_conv split: option.split)
qed simp_all

lemma replaceConstantExpressions_binary: "binary_ok a \<Longrightarrow> binary_ok (replaceConstantExpressions consts a)"
  by (induction a) (auto simp: list_all_iff split: option.split)

lemma collect_shards_sound:
  assumes "collect_shards shards bs ids = Some (Inr ids')"
  shows "set ids \<subseteq> set ids'" "b \<in> set bs \<Longrightarrow> \<exists>sel. createSelector_column shards b = Some (Inr sel) \<and> set sel \<subseteq> set ids'"
proof -
  have mono: "set ids \<subseteq> set ids'" if "collect_shards shards bs ids = Some (Inr ids')" for bs ids
    using that by (induction bs arbitrary: ids) (fastforce split: option.splits sum.splits)+
  show "set ids \<subseteq> set ids'" using mono[OF assms] .
  show "\<exists>sel. createSelector_column shards b = Some (Inr sel) \<and> set sel \<subseteq> set ids'" if "b \<in> set bs"
    using assms that
  proof (induction bs arbitrary: ids)
    case (Cons x xs)
    from Cons.prems(1) obtain sel where sel: "createSelector_column shards x = Some (Inr sel)"
      "collect_shards shards xs (ids @ sel) = Some (Inr ids')" by (auto split: option.splits sum.splits)
    show ?case
    proof (cases "b = x")
      case True
      then show ?thesis using sel(1) mono[OF sel(2)] by auto
    next
      case False
      then show ?thesis using Cons.IH[OF sel(2)] Cons.prems(2) by simp
    qed
  qed simp
qed

lemma key_block_selector:
  assumes "0 < shards" "shards < 2 ^ 31" "se_type expr = Plain ty \<or> se_type expr = Low_cardinality ty" "in_type ty k"
    "0 \<le> k \<or> 32 \<le> type_bits ty \<or> \<not> se_folds expr"
  shows "createSelector_column shards (key_block expr k) = createSelector_column shards (se_type expr, Vector_column [k])"
proof -
  have sl: "slot_to_shard shards \<noteq> []" "length (slot_to_shard shards) < 2 ^ 32"
    using assms(1,2) by (auto simp: slot_to_shard_def)
  have "const_slot ty (slot_to_shard shards) k = vector_slot ty (slot_to_shard shards) k" if "0 \<le> k \<or> 32 \<le> type_bits ty"
    by (simp add: vector_slot_mod[OF sl] const_slot_def sl(1) const_vector_agree[OF assms(4) that])
  then show ?thesis using assms(3,5) by (auto simp: key_block_def option.case_eq_if map_option_case)
qed

lemma skipUnusedShards_Some:
  assumes "skipUnusedShards conv consts shards expr limit cluster prewhere wher = Some (Inr (Some sub))"
    "condition_ast prewhere wher = Some cond"
  shows "\<exists>bs l ids. evaluateExpressionOverConstantCondition conv expr (replaceConstantExpressions consts cond) (limit + 1) = (Some bs, l)
    \<and> collect_shards shards bs [] = Some (Inr ids) \<and> (\<forall>i\<in>set ids. i < length cluster) \<and> set sub = (\<lambda>i. cluster ! i) ` set ids"
proof -
  obtain b l where e: "evaluateExpressionOverConstantCondition conv expr (replaceConstantExpressions consts cond) (limit + 1) = (b, l)"
    by fastforce
  from assms e obtain bs ids where b: "b = Some bs" "collect_shards shards bs [] = Some (Inr ids)"
    and g: "getClusterWithMultipleShards cluster (sort (remdups ids)) = Inr sub"
    by (auto simp: skipUnusedShards_def Let_def bind_result_Inr split: if_splits option.splits)
  from g have "(\<forall>i\<in>set ids. i < length cluster) \<and> set sub = (\<lambda>i. cluster ! i) ` set ids"
    by (auto simp: getClusterWithMultipleShards_def initMisc_def list_all_iff split: if_splits)
  then show ?thesis using e b by blast
qed

lemma pruning_keeps_selected_rows:
  assumes "sql_laws sql" "conv_law sql conv expr row" "folding_law sql consts row"
    "condition_ast prewhere wher = Some cond" "binary_ok cond" "\<And>c. cond \<noteq> AST_Identifier c"
    "truthy (ast_value sql row cond)"
    "skipUnusedShards conv consts shards expr limit cluster prewhere wher = Some (Inr (Some sub))"
    "0 < shards" "shards < 2 ^ 31" "se_type expr = Plain ty \<or> se_type expr = Low_cardinality ty"
    "in_type ty (row_key expr row)" "0 \<le> row_key expr row \<or> 32 \<le> type_bits ty \<or> \<not> se_folds expr"
  shows "\<exists>s. createSelector_column shards (se_type expr, Vector_column [row_key expr row]) = Some (Inr [s])
    \<and> s < length cluster \<and> cluster ! s \<in> set sub"
proof -
  let ?a = "replaceConstantExpressions consts cond"
  from skipUnusedShards_Some[OF assms(8,4)] obtain bs l ids where
    e: "evaluateExpressionOverConstantCondition conv expr ?a (limit + 1) = (Some bs, l)"
    and c: "collect_shards shards bs [] = Some (Inr ids)" "\<forall>i\<in>set ids. i < length cluster"
      "set sub = (\<lambda>i. cluster ! i) ` set ids" by blast
  have ni: "?a \<noteq> AST_Identifier x" for x using assms(6) by (cases cond) (auto split: option.splits)
  have t: "truthy (ast_value sql row ?a)" using replaceConstantExpressions_value[OF assms(3)] assms(7) by simp
  have "key_block expr (row_key expr row) \<in> set bs"
    by (rule evaluate_sound[OF assms(1,2) replaceConstantExpressions_binary[OF assms(5)] t e ni])
  from collect_shards_sound(2)[OF c(1) this] obtain sel where
    sel: "createSelector_column shards (se_type expr, Vector_column [row_key expr row]) = Some (Inr sel)" "set sel \<subseteq> set ids"
    using key_block_selector[OF assms(9-13)] by auto
  then have "\<exists>s. sel = [s]" using assms(11) by (auto split: option.splits)
  then show ?thesis using sel c(2,3) by auto
qed

fun ex_sql :: "string \<Rightarrow> field list \<Rightarrow> field" where
  "ex_sql f vs =
     (if f = ''equals'' then
        (case vs of [x, y] \<Rightarrow> Field_UInt64 (if x = y \<and> x \<noteq> Field_Null then 1 else 0) | _ \<Rightarrow> Field_Null)
      else if f = ''in'' then
        (case vs of [x, Field_Tuple ys] \<Rightarrow> Field_UInt64 (if x \<in> set ys \<and> x \<noteq> Field_Null then 1 else 0) | _ \<Rightarrow> Field_Null)
      else if f = ''and'' then Field_UInt64 (if list_all truthy vs then 1 else 0)
      else if f = ''or'' then Field_UInt64 (if list_ex truthy vs then 1 else 0)
      else if f = ''tuple'' then Field_Tuple vs
      else Field_Null)"

definition ex_conv :: "field \<Rightarrow> unit \<Rightarrow> field" where
  "ex_conv v ty = v"

definition ex_expr :: "unit sharding_expr" where
  "ex_expr = \<lparr>se_required = [(''a'', ())], se_type = Plain UInt64,
     se_value = (\<lambda>vs. case vs of [Field_UInt64 x] \<Rightarrow> x | _ \<Rightarrow> 0), se_folds = True\<rparr>"

definition ex_cond :: ast where
  "ex_cond = AST_Function ''or''
     [AST_Function ''equals'' [AST_Identifier ''a'', AST_Literal (Field_UInt64 4)],
      AST_Function ''in'' [AST_Identifier ''a'', AST_Literal (Field_Tuple [Field_UInt64 1, Field_UInt64 7])]]"

definition ex_shards :: "shard_info list" where
  "ex_shards = map (\<lambda>i. \<lparr>si_num = i, si_local = i = 1, si_remote_connections = True\<rparr>) [1, 2, 3]"

lemma ex_sql_laws: "sql_laws ex_sql"
  by (auto simp: sql_laws_def list_ex_iff)

lemma ex_conv_law: "conv_law ex_sql ex_conv ex_expr row"
  by (auto simp: conv_law_def ex_conv_def ex_expr_def split: if_splits)

section \<open>Claims\<close>

text \<open>
  A condition that is a bare column (as in \<^verbatim>\<open>WHERE flag\<close>) is neither a function nor a literal, and
  \<^verbatim>\<open>evaluateExpressionOverConstantCondition\<close> answers with an empty list of blocks, which means that no row can match: all
  shards are skipped, whatever the column holds.
\<close>

theorem bare_column_skips_all_shards:
  assumes "0 < limit" "int limit \<le> 2 ^ 63 - 1"
  shows "skipUnusedShards conv consts shards expr limit cluster None (Some (AST_Identifier c)) = Some (Inr (Some []))"
  using assms
  by (simp add: skipUnusedShards_def condition_ast_def getClusterWithMultipleShards_def initMisc_def)

theorem bare_column_skips_all_shards_witness:
  "skipUnusedShards ex_conv (\<lambda>_. None) 3 ex_expr 1000 ex_shards None (Some (AST_Identifier ''flag'')) = Some (Inr (Some []))"
  by (rule bare_column_skips_all_shards) simp_all

end
