(* ===== verification/Query_Routing.thy ===== *)
theory Query_Routing
  imports Shard_Pruning
begin

text \<open>
  How far a query is processed by the shards and which shards it is sent to: \<^verbatim>\<open>requireDistributedQuery\<close>,
  \<^verbatim>\<open>getOptimizedQueryProcessingStage\<close>, \<^verbatim>\<open>getOptimizedCluster\<close> and \<^verbatim>\<open>getQueryProcessingStageRemote\<close> of
  \<^verbatim>\<open>src/src/Storages/DistributedMergeTree/StorageDistributedMergeTree.cpp\<close>.
\<close>

section \<open>Queries, settings and tables\<close>

datatype stage = FetchColumns | WithMergeableState | Complete | WithMergeableStateAfterAggregation

record select_query =
  sq_with_totals :: bool
  sq_with_rollup :: bool
  sq_with_cube :: bool
  sq_distinct :: bool
  sq_select :: "ast list"
  sq_group_by :: "ast list option"
  sq_order_by :: bool
  sq_limit_by :: bool
  sq_limit_length :: bool
  sq_limit_offset :: bool
  sq_prewhere :: "ast option"
  sq_where :: "ast option"

record query_settings =
  set_extremes :: bool
  set_max_parallel_replicas :: nat
  set_optimize_skip_unused_shards :: bool
  set_skip_unused_shards_limit :: nat
  set_force_optimize_skip_unused_shards :: nat
  set_allow_nondeterministic :: bool
  set_group_by_no_merge :: nat
  set_group_by_sharding_key :: bool

record 'ty query_table =
  qt_has_storage :: bool
  qt_shards :: int
  qt_cluster :: "shard_info list"
  qt_sharding_expr :: "'ty sharding_expr option"
  qt_key_name :: string
  qt_key_deterministic :: bool

section \<open>Stages\<close>

definition requireDistributedQuery :: "'ty query_table \<Rightarrow> bool \<Rightarrow> bool" where
  "requireDistributedQuery table secondary =
     (if \<not> qt_has_storage table then True
      else if qt_shards table = 1 then False
      else if secondary then False
      else True)"

text \<open>The sample block of the sharding expression has its input columns and its result.\<close>

definition sharding_key_block :: "'ty query_table \<Rightarrow> 'ty sharding_expr \<Rightarrow> string list" where
  "sharding_key_block table expr = map fst (se_required expr) @ [qt_key_name table]"

fun sharding_block_has :: "string list \<Rightarrow> ast list \<Rightarrow> bool" where
  "sharding_block_has block [] = True"
| "sharding_block_has block (e # es) =
     (case e of
        AST_Identifier name \<Rightarrow> name \<in> set block \<and> sharding_block_has block es
      | _ \<Rightarrow> False)"

text \<open>\<open>None\<close> is the empty optional.\<close>

definition getOptimizedQueryProcessingStage :: "select_query \<Rightarrow> bool \<Rightarrow> string list \<Rightarrow> stage option" where
  "getOptimizedQueryProcessingStage select extremes block =
     (if sq_with_totals select \<or> sq_with_rollup select \<or> sq_with_cube select then None
      else if extremes then None
      else if sq_distinct select \<and> \<not> sharding_block_has block (sq_select select) then None
      else if (case sq_group_by select of
                 None \<Rightarrow> \<not> sq_distinct select
               | Some es \<Rightarrow> \<not> sharding_block_has block (take 1 es)) then None
      else if sq_order_by select then Some WithMergeableStateAfterAggregation
      else if sq_limit_by select \<or> sq_limit_length select \<or> sq_limit_offset select
      then Some WithMergeableStateAfterAggregation
      else Some Complete)"

text \<open>In \<^verbatim>\<open>size_t\<close>.\<close>

definition getClusterQueriedNodes :: "query_settings \<Rightarrow> shard_info list \<Rightarrow> 64 word" where
  "getClusterQueriedNodes settings cluster =
     of_nat (length (filter (\<lambda>s. \<not> si_local s) cluster)) * of_nat (set_max_parallel_replicas settings)
       + of_nat (length (filter si_local cluster))"

section \<open>The cluster of a query\<close>

abbreviation FORCE_HAS_SHARDING_KEY :: nat where "FORCE_HAS_SHARDING_KEY \<equiv> 1"
abbreviation FORCE_ALWAYS :: nat where "FORCE_ALWAYS \<equiv> 2"
abbreviation NO_MERGE_AFTER_AGGREGATION :: nat where "NO_MERGE_AFTER_AGGREGATION \<equiv> 2"

definition sharding_key_is_usable :: "query_settings \<Rightarrow> 'ty query_table \<Rightarrow> bool" where
  "sharding_key_is_usable settings table \<longleftrightarrow> set_allow_nondeterministic settings \<or> qt_key_deterministic table"

definition force_check :: "query_settings \<Rightarrow> 'ty query_table \<Rightarrow> (route_error, shard_info list option) result" where
  "force_check settings table =
     (let force = set_force_optimize_skip_unused_shards settings
      in if force = FORCE_ALWAYS then Inl UNABLE_TO_SKIP_UNUSED_SHARDS
         else if force = FORCE_HAS_SHARDING_KEY \<and> qt_sharding_expr table \<noteq> None then Inl UNABLE_TO_SKIP_UNUSED_SHARDS
         else Inr None)"

definition getOptimizedCluster ::
    "(field \<Rightarrow> 'ty \<Rightarrow> field) \<Rightarrow> (ast \<Rightarrow> field option) \<Rightarrow> query_settings \<Rightarrow> 'ty query_table \<Rightarrow> select_query
      \<Rightarrow> (route_error, shard_info list option) result option" where
  "getOptimizedCluster conv consts settings table select =
     (case qt_sharding_expr table of
        Some expr \<Rightarrow>
          if sharding_key_is_usable settings table then
            (case skipUnusedShards conv consts (qt_shards table) expr (set_skip_unused_shards_limit settings)
                    (qt_cluster table) (sq_prewhere select) (sq_where select) of
               None \<Rightarrow> None
             | Some (Inl e) \<Rightarrow> Some (Inl e)
             | Some (Inr (Some c)) \<Rightarrow> Some (Inr (Some c))
             | Some (Inr None) \<Rightarrow> Some (force_check settings table))
          else Some (force_check settings table)
      | None \<Rightarrow> Some (force_check settings table))"

text \<open>The stage and the clusters of \<^verbatim>\<open>query_info\<close>: the cluster of the table, and the smaller one if there is one.\<close>

definition remote_stage ::
    "query_settings \<Rightarrow> 'ty query_table \<Rightarrow> select_query \<Rightarrow> stage \<Rightarrow> shard_info list \<Rightarrow> stage" where
  "remote_stage settings table select to_stage cluster =
     (if set_group_by_no_merge settings \<noteq> 0 then
        (if set_group_by_no_merge settings = NO_MERGE_AFTER_AGGREGATION
         then WithMergeableStateAfterAggregation else Complete)
      else if to_stage = WithMergeableState then WithMergeableState
      else if getClusterQueriedNodes settings cluster = 1 then Complete
      else
        (case qt_sharding_expr table of
           Some expr \<Rightarrow>
             if set_optimize_skip_unused_shards settings \<and> set_group_by_sharding_key settings
               \<and> sharding_key_is_usable settings table
             then (case getOptimizedQueryProcessingStage select (set_extremes settings) (sharding_key_block table expr) of
                     Some s \<Rightarrow> s
                   | None \<Rightarrow> WithMergeableState)
             else WithMergeableState
         | None \<Rightarrow> WithMergeableState))"

definition getQueryProcessingStageRemote ::
    "(field \<Rightarrow> 'ty \<Rightarrow> field) \<Rightarrow> (ast \<Rightarrow> field option) \<Rightarrow> query_settings \<Rightarrow> 'ty query_table \<Rightarrow> select_query \<Rightarrow> stage
      \<Rightarrow> (route_error, stage \<times> shard_info list \<times> shard_info list option) result option" where
  "getQueryProcessingStageRemote conv consts settings table select to_stage =
     (let cluster = qt_cluster table in
      case (if set_optimize_skip_unused_shards settings \<and> getClusterQueriedNodes settings cluster > 1
            then getOptimizedCluster conv consts settings table select
            else Some (Inr None)) of
        None \<Rightarrow> None
      | Some (Inl e) \<Rightarrow> Some (Inl e)
      | Some (Inr opt) \<Rightarrow>
          Some (Inr (remote_stage settings table select to_stage (case opt of None \<Rightarrow> cluster | Some c \<Rightarrow> c), cluster, opt)))"

text \<open>\<^verbatim>\<open>query_info.getCluster()\<close>, which \<^verbatim>\<open>readRemote\<close> reads from.\<close>

definition query_cluster :: "shard_info list \<Rightarrow> shard_info list option \<Rightarrow> shard_info list" where
  "query_cluster cluster opt = (case opt of None \<Rightarrow> cluster | Some c \<Rightarrow> c)"

section \<open>Grouping on the shards\<close>

text \<open>The shard of a row, and the values by which a query groups.\<close>

definition shard_of_row :: "'ty query_table \<Rightarrow> 'ty sharding_expr \<Rightarrow> (string \<Rightarrow> field) \<Rightarrow> (insert_error, nat list) result option" where
  "shard_of_row table expr row = createSelector_column (qt_shards table) (se_type expr, Vector_column [row_key expr row])"

definition group_values :: "(string \<Rightarrow> field list \<Rightarrow> field) \<Rightarrow> (string \<Rightarrow> field) \<Rightarrow> ast list \<Rightarrow> field list" where
  "group_values sql row es = map (ast_value sql row) es"


definition ex_table :: "unit query_table" where
  "ex_table = \<lparr>qt_has_storage = True, qt_shards = 3, qt_cluster = ex_shards, qt_sharding_expr = Some ex_expr,
     qt_key_name = ''intHash64(a)'', qt_key_deterministic = True\<rparr>"

definition ex_group_by :: "string list \<Rightarrow> select_query" where
  "ex_group_by cs = \<lparr>sq_with_totals = False, sq_with_rollup = False, sq_with_cube = False, sq_distinct = False,
     sq_select = [], sq_group_by = Some (map AST_Identifier cs), sq_order_by = False, sq_limit_by = False,
     sq_limit_length = False, sq_limit_offset = False, sq_prewhere = None, sq_where = None\<rparr>"


definition ex_sum_expr :: "unit sharding_expr" where
  "ex_sum_expr = \<lparr>se_required = [(''a'', ()), (''b'', ())], se_type = Plain UInt64,
     se_value = (\<lambda>vs. case vs of [Field_UInt64 x, Field_UInt64 y] \<Rightarrow> x + y | _ \<Rightarrow> 0), se_folds = True\<rparr>"

definition ex_row :: "int \<Rightarrow> int \<Rightarrow> string \<Rightarrow> field" where
  "ex_row a b = (\<lambda>c. if c = ''a'' then Field_UInt64 a else Field_UInt64 b)"

definition ex_sum_table :: "unit query_table" where
  "ex_sum_table = ex_table\<lparr>qt_sharding_expr := Some ex_sum_expr, qt_key_name := ''plus(a, b)''\<rparr>"

text \<open>
  With a sharding key of two columns it is not: for the key \<^verbatim>\<open>a + b\<close> and \<^verbatim>\<open>GROUP BY a\<close> the shards are told to complete the
  query (only the first expression is looked at, and it is enough that it is one of the columns of the
  key), although two rows of one group are on different shards.
\<close>

theorem grouping_two_column_key:
  "getOptimizedQueryProcessingStage (ex_group_by [''a'']) False (sharding_key_block ex_sum_table ex_sum_expr) = Some Complete
   \<and> ex_row 1 0 ''a'' = ex_row 1 1 ''a''
   \<and> shard_of_row ex_sum_table ex_sum_expr (ex_row 1 0) = Some (Inr [1])
   \<and> shard_of_row ex_sum_table ex_sum_expr (ex_row 1 1) = Some (Inr [2])"
  by code_simp

section \<open>Rows and the shards of a query\<close>

lemma getOptimizedCluster_Some:
  assumes "getOptimizedCluster conv consts settings table select = Some (Inr (Some sub))" "qt_sharding_expr table = Some expr"
  shows "skipUnusedShards conv consts (qt_shards table) expr (set_skip_unused_shards_limit settings)
    (qt_cluster table) (sq_prewhere select) (sq_where select) = Some (Inr (Some sub))"
  using assms by (auto simp: getOptimizedCluster_def force_check_def Let_def split: if_splits option.splits sum.splits)

lemma getOptimizedCluster_no_key:
  "qt_sharding_expr table = None \<Longrightarrow> getOptimizedCluster conv consts settings table select \<noteq> Some (Inr (Some sub))"
  by (simp add: getOptimizedCluster_def force_check_def Let_def)

lemma stage_remote_cases:
  assumes "getQueryProcessingStageRemote conv consts settings table select to_stage = Some (Inr (st, cluster, opt))"
  shows "cluster = qt_cluster table"
    "opt = None \<or> getOptimizedCluster conv consts settings table select = Some (Inr opt)"
  using assms by (auto simp: getQueryProcessingStageRemote_def Let_def split: if_splits option.splits sum.splits)


definition ex_settings :: query_settings where
  "ex_settings = \<lparr>set_extremes = False, set_max_parallel_replicas = 1, set_optimize_skip_unused_shards = True,
     set_skip_unused_shards_limit = 100, set_force_optimize_skip_unused_shards = 0, set_allow_nondeterministic = False,
     set_group_by_no_merge = 0, set_group_by_sharding_key = True\<rparr>"

definition ex_select :: select_query where
  "ex_select = (ex_group_by [''a''])\<lparr>sq_where := Some ex_cond\<rparr>"


end
