(* ===== verification/Catalog.thy ===== *)
theory Catalog
  imports Text_IO Commit_Pipeline "HOL-Library.AList"
begin

text \<open>
  The catalog of the tables of all nodes, \<^verbatim>\<open>src/src/DistributedMetadata/CatalogService.cpp\<close>, and the
  description of a node, \<^verbatim>\<open>Node.h\<close>.  Every node broadcasts the list of its tables; a record of
  the log is one such list, and the catalog keeps it under three indices.  A hash map is an association list,
  in the order in which it is walked.
\<close>

section \<open>Nodes\<close>

datatype std_error = Std_invalid_argument | Std_out_of_range

text \<open>\<^verbatim>\<open>std::stoi\<close> and \<^verbatim>\<open>std::stoll\<close>: white space, a sign, digits; what follows is ignored.\<close>

definition is_space :: "char \<Rightarrow> bool" where
  "is_space c \<longleftrightarrow> c \<in> {CHR '' '', CHR 0x09, CHR 0x0A, CHR 0x0B, CHR 0x0C, CHR 0x0D}"

definition std_sto :: "int \<Rightarrow> int \<Rightarrow> string \<Rightarrow> (std_error, int) result" where
  "std_sto lo hi s =
     (let t = dropWhile is_space s;
          (neg, u) = (case t of [] \<Rightarrow> (False, t)
                       | c # r \<Rightarrow> if c = CHR ''-'' then (True, r) else if c = CHR ''+'' then (False, r) else (False, t));
          ds = takeWhile is_digit u;
          v = (if neg then - digits_value ds else digits_value ds)
      in if ds = [] then Inl Std_invalid_argument
         else if v < lo \<or> hi < v then Inl Std_out_of_range
         else Inr v)"

definition stoi :: "string \<Rightarrow> (std_error, int) result" where
  "stoi s = std_sto (- (2 ^ 31)) (2 ^ 31 - 1) s"

definition stoll :: "string \<Rightarrow> (std_error, int) result" where
  "stoll s = std_sto (- (2 ^ 63)) (2 ^ 63 - 1) s"

text \<open>The ports are \<^verbatim>\<open>Int16\<close>.\<close>

definition int16_of :: "int \<Rightarrow> int" where
  "int16_of x = (x + 2 ^ 15) mod 2 ^ 16 - 2 ^ 15"

record node =
  nd_identity :: string
  nd_host :: string
  nd_channel :: string
  nd_roles :: string
  nd_https_port :: int
  nd_http_port :: int
  nd_tcp_port_secure :: int
  nd_tcp_port :: int

definition header_text :: "(string \<times> string) list \<Rightarrow> string \<Rightarrow> string" where
  "header_text headers k = (case map_of headers k of None \<Rightarrow> [] | Some v \<Rightarrow> v)"

definition header_port :: "(string \<times> string) list \<Rightarrow> string \<Rightarrow> (std_error, int) result" where
  "header_port headers k =
     (case map_of headers k of None \<Rightarrow> Inr (-1) | Some v \<Rightarrow> bind_result (stoi v) (\<lambda>x. Inr (int16_of x)))"

definition Node :: "string \<Rightarrow> (string \<times> string) list \<Rightarrow> (std_error, node) result" where
  "Node identity headers =
     bind_result (header_port headers ''_https_port'') (\<lambda>https.
     bind_result (header_port headers ''_http_port'') (\<lambda>http.
     bind_result (header_port headers ''_tcp_port_secure'') (\<lambda>tcps.
     bind_result (header_port headers ''_tcp_port'') (\<lambda>tcp.
       Inr \<lparr>nd_identity = identity, nd_host = header_text headers ''_host'',
            nd_channel = header_text headers ''_channel'', nd_roles = header_text headers ''_node_roles'',
            nd_https_port = https, nd_http_port = http, nd_tcp_port_secure = tcps, nd_tcp_port = tcp\<rparr>))))"

definition node_isValid :: "node \<Rightarrow> bool" where
  "node_isValid n \<longleftrightarrow> nd_identity n \<noteq> [] \<and> nd_host n \<noteq> []
     \<and> ((nd_http_port n > 0 \<and> nd_tcp_port n > 0) \<or> (nd_https_port n > 0 \<and> nd_tcp_port_secure n > 0))"

section \<open>Tables\<close>

record table =
  tb_node_identity :: string
  tb_host :: string
  tb_database :: string
  tb_name :: string
  tb_uuid :: nat
  tb_engine :: string
  tb_dependencies_table :: string
  tb_create_table_query :: string
  tb_engine_full :: string
  tb_partition_key :: string
  tb_sorting_key :: string
  tb_primary_key :: string
  tb_sampling_key :: string
  tb_storage_policy :: string
  tb_shard :: int

text \<open>
  \<^verbatim>\<open>searchIntValueByRegex\<close> for the three expressions of the file: the first place in the text where the expression
  matches gives the digits of its group.  Without a match \<^verbatim>\<open>stoi\<close> gets an empty text.
\<close>

fun strip_prefix :: "string \<Rightarrow> string \<Rightarrow> string option" where
  "strip_prefix [] s = Some s"
| "strip_prefix (p # ps) [] = None"
| "strip_prefix (p # ps) (c # s) = (if p = c then strip_prefix ps s else None)"

abbreviation skip_spaces :: "string \<Rightarrow> string" where "skip_spaces \<equiv> dropWhile is_space"

definition take_digits :: "string \<Rightarrow> (string \<times> string) option" where
  "take_digits s = (if takeWhile is_digit s = [] then None else Some (takeWhile is_digit s, dropWhile is_digit s))"

definition match_shard :: "string \<Rightarrow> string option" where
  "match_shard s =
     (case strip_prefix ''shard'' s of None \<Rightarrow> None
      | Some r \<Rightarrow> (case strip_prefix ''='' (skip_spaces r) of None \<Rightarrow> None
         | Some r2 \<Rightarrow> map_option fst (take_digits (skip_spaces r2))))"

definition match_engine :: "string \<Rightarrow> (string \<times> string) option" where
  "match_engine s =
     (case strip_prefix ''DistributedMergeTree('' s of None \<Rightarrow> None
      | Some r \<Rightarrow> (case take_digits (skip_spaces r) of None \<Rightarrow> None
         | Some (d1, r1) \<Rightarrow> (case strip_prefix '','' r1 of None \<Rightarrow> None
            | Some r2 \<Rightarrow> (case take_digits (skip_spaces r2) of None \<Rightarrow> None
               | Some (d2, r3) \<Rightarrow> map_option (\<lambda>_. (d1, d2)) (strip_prefix '','' (skip_spaces r3))))))"

fun search :: "(string \<Rightarrow> 'a option) \<Rightarrow> string \<Rightarrow> 'a option" where
  "search m [] = m []"
| "search m (c # s) = (case m (c # s) of Some d \<Rightarrow> Some d | None \<Rightarrow> search m s)"

definition searchIntValueByRegex :: "(string \<Rightarrow> string option) \<Rightarrow> string \<Rightarrow> (std_error, int) result" where
  "searchIntValueByRegex m s = stoi (case search m s of None \<Rightarrow> [] | Some d \<Rightarrow> d)"

abbreviation PARSE_SHARD_REGEX :: "string \<Rightarrow> string option" where "PARSE_SHARD_REGEX \<equiv> match_shard"

definition PARSE_SHARDS_REGEX :: "string \<Rightarrow> string option" where
  "PARSE_SHARDS_REGEX s = map_option snd (match_engine s)"

definition PARSE_REPLICATION_REGEX :: "string \<Rightarrow> string option" where
  "PARSE_REPLICATION_REGEX s = map_option fst (match_engine s)"

section \<open>The catalog\<close>

type_synonym table_key = "string \<times> string \<times> int"

type_synonym snapshot = "(table_key \<times> table) list"

type_synonym name_index = "((string \<times> string) \<times> ((string \<times> int) \<times> table) list) list"

record 'st catalog =
  indexed_by_name :: name_index
  indexed_by_node :: "(string \<times> snapshot) list"
  table_nodes :: "(string \<times> node) list"
  indexed_by_id :: "(nat \<times> table) list"
  storages :: "((string \<times> string) \<times> 'st) list"
  table_clusters :: "((string \<times> string) \<times> string list list) list"

definition catalog_new :: "'st catalog" where
  "catalog_new = \<lparr>indexed_by_name = [], indexed_by_node = [], table_nodes = [], indexed_by_id = [],
     storages = [], table_clusters = []\<rparr>"

text \<open>A row of a broadcast block; \<open>uuid_of\<close> reads the UUID column.\<close>

definition row_field :: "string block \<Rightarrow> nat \<Rightarrow> string \<Rightarrow> string" where
  "row_field b row k = (case findByName k b of None \<Rightarrow> [] | Some c \<Rightarrow> col_cells c ! row)"

definition build_table :: "(string \<Rightarrow> nat) \<Rightarrow> node \<Rightarrow> string block \<Rightarrow> nat \<Rightarrow> (std_error, table) result" where
  "build_table uuid_of n b row =
     (let f = row_field b row;
          tb = \<lparr>tb_node_identity = nd_identity n, tb_host = nd_host n, tb_database = f ''database'', tb_name = f ''name'',
                tb_uuid = (case findByName ''uuid'' b of None \<Rightarrow> 0 | Some c \<Rightarrow> uuid_of (col_cells c ! row)),
                tb_engine = f ''engine'', tb_dependencies_table = f ''dependencies_table'',
                tb_create_table_query = f ''create_table_query'', tb_engine_full = f ''engine_full'',
                tb_partition_key = f ''partition_key'', tb_sorting_key = f ''sorting_key'', tb_primary_key = f ''primary_key'',
                tb_sampling_key = f ''sampling_key'', tb_storage_policy = f ''storage_policy'', tb_shard = 0\<rparr>
      in if tb_engine tb = ''DistributedMergeTree''
         then bind_result (searchIntValueByRegex PARSE_SHARD_REGEX (tb_engine_full tb)) (\<lambda>s. Inr (tb\<lparr>tb_shard := s\<rparr>))
         else Inr tb)"

definition key_of_table :: "table \<Rightarrow> table_key" where
  "key_of_table tb = (tb_database tb, tb_name tb, tb_shard tb)"

text \<open>\<^verbatim>\<open>emplace\<close> keeps an entry that exists.\<close>

definition emplace :: "'k \<Rightarrow> 'v \<Rightarrow> ('k \<times> 'v) list \<Rightarrow> ('k \<times> 'v) list" where
  "emplace k v m = (if map_of m k = None then m @ [(k, v)] else m)"

fun build_rows :: "(string \<Rightarrow> nat) \<Rightarrow> node \<Rightarrow> string block \<Rightarrow> nat list \<Rightarrow> snapshot \<Rightarrow> (std_error, snapshot) result" where
  "build_rows uuid_of n b [] acc = Inr acc"
| "build_rows uuid_of n b (row # rows) acc =
     bind_result (build_table uuid_of n b row) (\<lambda>tb. build_rows uuid_of n b rows (emplace (key_of_table tb) tb acc))"

definition buildCatalog :: "(string \<Rightarrow> nat) \<Rightarrow> node \<Rightarrow> string block \<Rightarrow> (std_error, snapshot) result" where
  "buildCatalog uuid_of n b = build_rows uuid_of n b [0..<block_rows b] []"

section \<open>Merging the tables of a node\<close>

definition deleteTableStorageByName :: "string \<Rightarrow> string \<Rightarrow> 'st catalog \<Rightarrow> 'st catalog" where
  "deleteTableStorageByName db nm cat = cat\<lparr>storages := AList.delete (db, nm) (storages cat)\<rparr>"

text \<open>Erasing one table from the name index; \<open>None\<close> is the use of an iterator that does not exist.\<close>

definition name_erase :: "table \<Rightarrow> name_index \<Rightarrow> name_index option" where
  "name_erase tb bn =
     (case map_of bn (tb_database tb, tb_name tb) of
        None \<Rightarrow> None
      | Some m \<Rightarrow>
          (let m' = AList.delete (tb_node_identity tb, tb_shard tb) m
           in Some (if m' = [] then AList.delete (tb_database tb, tb_name tb) bn
                    else AList.update (tb_database tb, tb_name tb) m' bn)))"

definition delete_table :: "table \<Rightarrow> 'st catalog \<Rightarrow> 'st catalog option" where
  "delete_table tb cat =
     (let cat1 = deleteTableStorageByName (tb_database tb) (tb_name tb) cat
      in map_option (\<lambda>bn. cat1\<lparr>indexed_by_name := bn, indexed_by_id := AList.delete (tb_uuid tb) (indexed_by_id cat1)\<rparr>)
           (name_erase tb (indexed_by_name cat1)))"

fun delete_tables :: "table list \<Rightarrow> 'st catalog \<Rightarrow> 'st catalog option" where
  "delete_tables [] cat = Some cat"
| "delete_tables (tb # tbs) cat = (case delete_table tb cat of None \<Rightarrow> None | Some cat' \<Rightarrow> delete_tables tbs cat')"

definition deleteCatalogForNode :: "node \<Rightarrow> 'st catalog \<Rightarrow> 'st catalog option" where
  "deleteCatalogForNode n cat =
     (case map_of (indexed_by_node cat) (nd_identity n) of
        None \<Rightarrow> Some cat
      | Some old \<Rightarrow>
          map_option (\<lambda>cat'. cat'\<lparr>indexed_by_node := AList.update (nd_identity n) [] (indexed_by_node cat')\<rparr>)
            (delete_tables (map snd old) cat))"

text \<open>Adding a table of a new node.\<close>

definition add_table :: "table \<Rightarrow> 'st catalog \<Rightarrow> 'st catalog" where
  "add_table tb cat =
     (let k = (tb_database tb, tb_name tb);
          m = (case map_of (indexed_by_name cat) k of None \<Rightarrow> [] | Some m \<Rightarrow> m)
      in cat\<lparr>indexed_by_name := AList.update k (emplace (tb_node_identity tb, tb_shard tb) tb m) (indexed_by_name cat),
             indexed_by_id := AList.update (tb_uuid tb) tb (indexed_by_id cat)\<rparr>)"

text \<open>Adding or replacing a table of a known node.\<close>

definition update_table :: "table \<Rightarrow> 'st catalog \<Rightarrow> 'st catalog" where
  "update_table tb cat =
     (let k = (tb_database tb, tb_name tb); ns = (tb_node_identity tb, tb_shard tb)
      in case map_of (indexed_by_name cat) k of
           None \<Rightarrow>
             cat\<lparr>indexed_by_name := AList.update k [(ns, tb)] (indexed_by_name cat),
                 indexed_by_id := AList.update (tb_uuid tb) tb (indexed_by_id cat)\<rparr>
         | Some m \<Rightarrow>
             (let old = map_of m ns;
                  cat1 = (case old of
                            Some o' \<Rightarrow> if o' \<noteq> tb then deleteTableStorageByName (tb_database tb) (tb_name tb) cat else cat
                          | None \<Rightarrow> cat);
                  ids = (case old of
                           Some o' \<Rightarrow> if tb_uuid o' \<noteq> tb_uuid tb \<and> tb_uuid o' \<noteq> 0
                                      then AList.delete (tb_uuid o') (indexed_by_id cat1) else indexed_by_id cat1
                         | None \<Rightarrow> indexed_by_id cat1)
              in cat1\<lparr>indexed_by_name := AList.update k (AList.update ns tb m) (indexed_by_name cat1),
                      indexed_by_id := AList.update (tb_uuid tb) tb ids\<rparr>))"

definition mergeCatalog :: "node \<Rightarrow> snapshot \<Rightarrow> 'st catalog \<Rightarrow> 'st catalog option" where
  "mergeCatalog n snap cat =
     (if snap = [] then deleteCatalogForNode n cat
      else
        case map_of (indexed_by_node cat) (nd_identity n) of
          None \<Rightarrow>
            (let cat1 = fold add_table (map snd snap) cat
             in Some (cat1\<lparr>indexed_by_node := emplace (nd_identity n) snap (indexed_by_node cat1),
                           table_nodes := emplace (nd_identity n) n (table_nodes cat1)\<rparr>))
        | Some old \<Rightarrow>
            (let cat1 = cat\<lparr>table_nodes := AList.update (nd_identity n) n (table_nodes cat)\<rparr>;
                 gone = map snd (filter (\<lambda>p. map_of snap (fst p) = None) old)
             in map_option (\<lambda>cat2.
                    (fold update_table (map snd snap) cat2)\<lparr>indexed_by_node := AList.update (nd_identity n) snap (indexed_by_node cat2)\<rparr>)
                  (delete_tables gone cat1)))"

text \<open>The consumer: an exception ends the batch.\<close>

definition VERSION_OK :: "(string \<times> string) list \<Rightarrow> bool" where
  "VERSION_OK headers \<longleftrightarrow> map_of headers ''_version'' = Some ''1''"

fun processRecords ::
    "(string \<Rightarrow> nat) \<Rightarrow> string block wal_record list \<Rightarrow> 'st catalog \<Rightarrow> (std_error option \<times> 'st catalog) option" where
  "processRecords uuid_of [] cat = Some (None, cat)"
| "processRecords uuid_of (r # rs) cat =
     (if \<not> hasIdempotentKey r \<or> \<not> VERSION_OK (rec_headers r) then processRecords uuid_of rs cat
      else
        case Node (the (idempotentKey r)) (rec_headers r) of
          Inl e \<Rightarrow> Some (Some e, cat)
        | Inr n \<Rightarrow>
            if \<not> node_isValid n then processRecords uuid_of rs cat
            else
              (case buildCatalog uuid_of n (rec_block r) of
                 Inl e \<Rightarrow> Some (Some e, cat)
               | Inr snap \<Rightarrow>
                   (case mergeCatalog n snap cat of
                      None \<Rightarrow> None
                    | Some cat' \<Rightarrow> processRecords uuid_of rs cat')))"

section \<open>Queries\<close>

definition findTableByName :: "string \<Rightarrow> string \<Rightarrow> 'st catalog \<Rightarrow> table list" where
  "findTableByName db nm cat = (case map_of (indexed_by_name cat) (db, nm) of None \<Rightarrow> [] | Some m \<Rightarrow> map snd m)"

definition findTableByNode :: "string \<Rightarrow> 'st catalog \<Rightarrow> table list" where
  "findTableByNode ident cat = (case map_of (indexed_by_node cat) ident of None \<Rightarrow> [] | Some s \<Rightarrow> map snd s)"

definition findTableByDB :: "string \<Rightarrow> 'st catalog \<Rightarrow> table list" where
  "findTableByDB db cat = concat (map (\<lambda>p. map snd (snd p)) (filter (\<lambda>p. fst (fst p) = db) (indexed_by_name cat)))"

definition tables :: "'st catalog \<Rightarrow> table list" where
  "tables cat = concat (map (\<lambda>p. map snd (snd p)) (indexed_by_name cat))"

definition databases :: "'st catalog \<Rightarrow> string list" where
  "databases cat = remdups (map (\<lambda>p. fst (fst p)) (indexed_by_name cat))"

definition tableExists :: "string \<Rightarrow> string \<Rightarrow> 'st catalog \<Rightarrow> bool" where
  "tableExists db nm cat \<longleftrightarrow> map_of (indexed_by_name cat) (db, nm) \<noteq> None"

definition setTableStorageByName :: "string \<Rightarrow> string \<Rightarrow> 'st \<Rightarrow> 'st catalog \<Rightarrow> bool \<times> 'st catalog" where
  "setTableStorageByName db nm st cat =
     (case map_of (indexed_by_name cat) (db, nm) of
        None \<Rightarrow> (False, cat)
      | Some m \<Rightarrow> if m = [] then (False, cat) else (True, cat\<lparr>storages := AList.update (db, nm) st (storages cat)\<rparr>))"

definition findTableStorageById :: "nat \<Rightarrow> 'st catalog \<Rightarrow> (table \<times> 'st option) option" where
  "findTableStorageById uuid cat =
     map_option (\<lambda>tb. (tb, map_of (storages cat) (tb_database tb, tb_name tb))) (map_of (indexed_by_id cat) uuid)"

definition findTableStorageByName :: "string \<Rightarrow> string \<Rightarrow> 'st catalog \<Rightarrow> (table \<times> 'st option) option" where
  "findTableStorageByName db nm cat =
     (case map_of (indexed_by_name cat) (db, nm) of
        None \<Rightarrow> None
      | Some [] \<Rightarrow> None
      | Some (p # _) \<Rightarrow> Some (snd p, map_of (storages cat) (db, nm)))"

definition nodeByIdentity :: "string \<Rightarrow> 'st catalog \<Rightarrow> node option" where
  "nodeByIdentity ident cat = map_of (table_nodes cat) ident"

definition nodeByChannel :: "string \<Rightarrow> 'st catalog \<Rightarrow> node option" where
  "nodeByChannel channel cat = find (\<lambda>n. nd_channel n = channel) (map snd (table_nodes cat))"

fun has_infix :: "string \<Rightarrow> string \<Rightarrow> bool" where
  "has_infix p [] = (p = [])"
| "has_infix p (c # s) = (strip_prefix p (c # s) \<noteq> None \<or> has_infix p s)"

definition nodes :: "string \<Rightarrow> 'st catalog \<Rightarrow> node list" where
  "nodes role cat = filter (\<lambda>n. has_infix role (nd_roles n)) (map snd (table_nodes cat))"

text \<open>The pair is (replication factor, shards).\<close>

definition shardAndReplicationFactor :: "string \<Rightarrow> string \<Rightarrow> 'st catalog \<Rightarrow> (std_error, int \<times> int) result" where
  "shardAndReplicationFactor db nm cat =
     (case findTableByName db nm cat of
        [] \<Rightarrow> Inr (0, 0)
      | tb # _ \<Rightarrow>
          bind_result (searchIntValueByRegex PARSE_REPLICATION_REGEX (tb_engine_full tb)) (\<lambda>r.
          bind_result (searchIntValueByRegex PARSE_SHARDS_REGEX (tb_engine_full tb)) (\<lambda>s. Inr (r, s))))"

text \<open>
  The cluster of a table: for each shard the addresses of its replicas.  \<open>order\<close> is the order in which the map
  \<^verbatim>\<open>by_shard\<close> is walked; the result is kept and returned from then on.
\<close>

definition shard_hosts :: "'st catalog \<Rightarrow> table list \<Rightarrow> int \<Rightarrow> string list" where
  "shard_hosts cat tbs sh =
     List.map_filter (\<lambda>tb. map_option (\<lambda>n. nd_host n @ '':'' @ writeIntText (nd_tcp_port n))
         (map_of (table_nodes cat) (tb_node_identity tb)))
       (filter (\<lambda>tb. tb_shard tb = sh) tbs)"

definition tableCluster ::
    "(int list \<Rightarrow> int list) \<Rightarrow> string \<Rightarrow> string \<Rightarrow> 'st catalog \<Rightarrow> string list list option \<times> 'st catalog" where
  "tableCluster order db nm cat =
     (case map_of (table_clusters cat) (db, nm) of
        Some c \<Rightarrow> (Some c, cat)
      | None \<Rightarrow>
          (case findTableByName db nm cat of
             [] \<Rightarrow> (None, cat)
           | tb # tbs \<Rightarrow>
               (let host_ports = map (shard_hosts cat (tb # tbs)) (order (remdups (map tb_shard (tb # tbs))))
                in (Some host_ports, cat\<lparr>table_clusters := AList.update (db, nm) host_ports (table_clusters cat)\<rparr>))))"

end
