(* ===== verification/Catalog_Index.thy ===== *)
theory Catalog_Index
  imports Catalog
begin

text \<open>
  The indices of the catalog agree: whatever sequence of broadcasts is consumed, the name index holds exactly the tables that
  the last broadcast of each node listed.
\<close>

section \<open>The name index\<close>

definition nm_lookup :: "name_index \<Rightarrow> string \<times> string \<Rightarrow> string \<times> int \<Rightarrow> table option" where
  "nm_lookup bn k ns = (case map_of bn k of None \<Rightarrow> None | Some m \<Rightarrow> map_of m ns)"

definition nm_wf :: "name_index \<Rightarrow> bool" where
  "nm_wf bn \<longleftrightarrow> (\<forall>k m. map_of bn k = Some m \<longrightarrow> m \<noteq> [] \<and> distinct (map fst m))"

lemma nm_wfD: "nm_wf bn \<Longrightarrow> map_of bn k = Some m \<Longrightarrow> m \<noteq> [] \<and> distinct (map fst m)"
  unfolding nm_wf_def by blast

lemma nm_wf_update: "nm_wf bn \<Longrightarrow> m \<noteq> [] \<Longrightarrow> distinct (map fst m) \<Longrightarrow> nm_wf (AList.update k m bn)"
  unfolding nm_wf_def by (simp add: AList.update_conv')

lemma nm_wf_delete: "nm_wf bn \<Longrightarrow> nm_wf (AList.delete k bn)"
  unfolding nm_wf_def by (simp add: AList.delete_conv')

lemma nm_lookup_update: "nm_lookup (AList.update k m bn) k' ns = (if k' = k then map_of m ns else nm_lookup bn k' ns)"
  by (simp add: nm_lookup_def AList.update_conv')

lemma map_of_update [simp]: "map_of (AList.update k v m) k' = (if k' = k then Some v else map_of m k')"
  by (simp add: AList.update_conv')

lemma map_of_delete [simp]: "map_of (AList.delete k m) k' = (if k' = k then None else map_of m k')"
  by (simp add: AList.delete_conv')

lemma map_of_emplace [simp]: "map_of (emplace k v m) k' = (if k' = k \<and> map_of m k = None then Some v else map_of m k')"
  by (auto simp: emplace_def map_add_def split: option.split)

lemma update_nonempty [simp]: "AList.update k v m \<noteq> []"
  by (cases m) auto

lemma emplace_nonempty [simp]: "emplace k v m \<noteq> []"
  by (auto simp: emplace_def)

lemma distinct_emplace: "distinct (map fst m) \<Longrightarrow> distinct (map fst (emplace k v m))"
  by (auto simp: emplace_def map_of_eq_None_iff)

lemma name_erase_spec:
  assumes "nm_wf bn" "nm_lookup bn (tb_database tb, tb_name tb) (tb_node_identity tb, tb_shard tb) \<noteq> None"
  shows "\<exists>bn'. name_erase tb bn = Some bn' \<and> nm_wf bn'
    \<and> (\<forall>k ns. nm_lookup bn' k ns = (if k = (tb_database tb, tb_name tb) \<and> ns = (tb_node_identity tb, tb_shard tb)
                                      then None else nm_lookup bn k ns))
    \<and> (\<forall>k. k \<noteq> (tb_database tb, tb_name tb) \<longrightarrow> map_of bn' k = map_of bn k)"
proof -
  let ?k = "(tb_database tb, tb_name tb)" and ?ns = "(tb_node_identity tb, tb_shard tb)"
  from assms(2) obtain m where m: "map_of bn ?k = Some m" by (auto simp: nm_lookup_def split: option.splits)
  define m' where "m' = AList.delete ?ns m"
  have m': "map_of m' ns = (if ns = ?ns then None else map_of m ns)" for ns by (simp add: m'_def)
  have d: "distinct (map fst m')" using nm_wfD[OF assms(1) m] by (simp add: m'_def distinct_delete)
  show ?thesis
  proof (cases "m' = []")
    case True
    then have none: "ns \<noteq> ?ns \<Longrightarrow> map_of m ns = None" for ns using m'[of ns] by simp
    have "name_erase tb bn = Some (AList.delete ?k bn)"
      using m True by (simp add: name_erase_def Let_def m'_def)
    moreover have "nm_lookup (AList.delete ?k bn) k ns = (if k = ?k \<and> ns = ?ns then None else nm_lookup bn k ns)" for k ns
      using m none[of ns] by (auto simp: nm_lookup_def)
    ultimately show ?thesis using nm_wf_delete[OF assms(1)] by simp
  next
    case False
    have "name_erase tb bn = Some (AList.update ?k m' bn)"
      using m False by (simp add: name_erase_def Let_def m'_def)
    moreover have "nm_lookup (AList.update ?k m' bn) k ns = (if k = ?k \<and> ns = ?ns then None else nm_lookup bn k ns)" for k ns
      using m m' by (auto simp: nm_lookup_def)
    ultimately show ?thesis using nm_wf_update[OF assms(1) False d] by simp
  qed
qed

section \<open>Snapshots\<close>

definition snap_wf :: "string \<Rightarrow> snapshot \<Rightarrow> bool" where
  "snap_wf n snap \<longleftrightarrow> distinct (map fst snap)
     \<and> (\<forall>(k, tb)\<in>set snap. k = key_of_table tb \<and> tb_node_identity tb = n)"

lemma snap_wf_Cons:
  "snap_wf n ((k, tb) # snap) \<longleftrightarrow> k = key_of_table tb \<and> tb_node_identity tb = n \<and> map_of snap k = None \<and> snap_wf n snap"
  by (auto simp: snap_wf_def map_of_eq_None_iff image_iff)

lemma snap_wf_filter: "snap_wf n snap \<Longrightarrow> snap_wf n (filter P snap)"
  by (auto simp: snap_wf_def distinct_map_filter)

definition storages_ok :: "'st catalog \<Rightarrow> bool" where
  "storages_ok cat \<longleftrightarrow> (\<forall>k. map_of (storages cat) k \<noteq> None \<longrightarrow> map_of (indexed_by_name cat) k \<noteq> None)"

lemma storages_okD: "storages_ok cat \<Longrightarrow> map_of (storages cat) k \<noteq> None \<Longrightarrow> map_of (indexed_by_name cat) k \<noteq> None"
  unfolding storages_ok_def by blast

text \<open>What the three loops leave alone.\<close>

definition same_rest :: "'st catalog \<Rightarrow> 'st catalog \<Rightarrow> bool" where
  "same_rest cat cat' \<longleftrightarrow> indexed_by_node cat' = indexed_by_node cat \<and> table_nodes cat' = table_nodes cat
     \<and> table_clusters cat' = table_clusters cat"

lemma same_rest_trans: "same_rest a b \<Longrightarrow> same_rest b c \<Longrightarrow> same_rest a c"
  by (simp add: same_rest_def)

lemma delete_table_spec:
  assumes "nm_wf (indexed_by_name cat)" "storages_ok cat"
    "nm_lookup (indexed_by_name cat) (tb_database tb, tb_name tb) (tb_node_identity tb, tb_shard tb) \<noteq> None"
  shows "\<exists>cat'. delete_table tb cat = Some cat' \<and> nm_wf (indexed_by_name cat') \<and> storages_ok cat' \<and> same_rest cat cat'
    \<and> (\<forall>k ns. nm_lookup (indexed_by_name cat') k ns =
         (if k = (tb_database tb, tb_name tb) \<and> ns = (tb_node_identity tb, tb_shard tb) then None
          else nm_lookup (indexed_by_name cat) k ns))"
proof -
  from name_erase_spec[OF assms(1,3)] obtain bn' where
    e: "name_erase tb (indexed_by_name cat) = Some bn'" "nm_wf bn'"
    "\<And>k ns. nm_lookup bn' k ns = (if k = (tb_database tb, tb_name tb) \<and> ns = (tb_node_identity tb, tb_shard tb)
                                      then None else nm_lookup (indexed_by_name cat) k ns)"
    "\<And>k. k \<noteq> (tb_database tb, tb_name tb) \<Longrightarrow> map_of bn' k = map_of (indexed_by_name cat) k" by blast
  have "storages_ok (cat\<lparr>storages := AList.delete (tb_database tb, tb_name tb) (storages cat),
      indexed_by_name := bn', indexed_by_id := ids\<rparr>)" for ids
    using assms(2) e(4) by (auto simp: storages_ok_def split: if_splits)
  then show ?thesis
    using e by (simp add: delete_table_def deleteTableStorageByName_def same_rest_def)
qed

lemma delete_tables_spec:
  assumes "snap_wf n snap" "nm_wf (indexed_by_name cat)" "storages_ok cat"
    "\<And>db nm sh. map_of snap (db, nm, sh) \<noteq> None \<Longrightarrow> nm_lookup (indexed_by_name cat) (db, nm) (n, sh) \<noteq> None"
  shows "\<exists>cat'. delete_tables (map snd snap) cat = Some cat' \<and> nm_wf (indexed_by_name cat') \<and> storages_ok cat' \<and> same_rest cat cat'
    \<and> (\<forall>db nm n' sh. nm_lookup (indexed_by_name cat') (db, nm) (n', sh) =
         (if n' = n \<and> map_of snap (db, nm, sh) \<noteq> None then None else nm_lookup (indexed_by_name cat) (db, nm) (n', sh)))"
  using assms
proof (induction snap arbitrary: cat)
  case Nil
  then show ?case by (simp add: same_rest_def)
next
  case (Cons p snap)
  obtain k tb where p: "p = (k, tb)" by fastforce
  have k: "k = (tb_database tb, tb_name tb, tb_shard tb)" "tb_node_identity tb = n" "map_of snap k = None" "snap_wf n snap"
    using Cons.prems(1) unfolding p snap_wf_Cons key_of_table_def by blast+
  have "nm_lookup (indexed_by_name cat) (tb_database tb, tb_name tb) (tb_node_identity tb, tb_shard tb) \<noteq> None"
    using Cons.prems(4)[of "tb_database tb" "tb_name tb" "tb_shard tb"] by (simp add: p k(1,2))
  from delete_table_spec[OF Cons.prems(2,3) this] obtain c1 where
    c1: "delete_table tb cat = Some c1" "nm_wf (indexed_by_name c1)" "storages_ok c1" "same_rest cat c1"
    "\<And>k ns. nm_lookup (indexed_by_name c1) k ns =
         (if k = (tb_database tb, tb_name tb) \<and> ns = (tb_node_identity tb, tb_shard tb) then None
          else nm_lookup (indexed_by_name cat) k ns)" by blast
  have "nm_lookup (indexed_by_name c1) (db, nm) (n, sh) \<noteq> None" if "map_of snap (db, nm, sh) \<noteq> None" for db nm sh
  proof -
    have "(db, nm, sh) \<noteq> k" using that k(3) by metis
    then show ?thesis using Cons.prems(4)[of db nm sh] that by (auto simp: c1(5) k(1) p)
  qed
  from Cons.IH[OF k(4) c1(2,3) this] obtain c2 where
    c2: "delete_tables (map snd snap) c1 = Some c2" "nm_wf (indexed_by_name c2)" "storages_ok c2" "same_rest c1 c2"
    "\<And>db nm n' sh. nm_lookup (indexed_by_name c2) (db, nm) (n', sh) =
         (if n' = n \<and> map_of snap (db, nm, sh) \<noteq> None then None else nm_lookup (indexed_by_name c1) (db, nm) (n', sh))" by blast
  have "nm_lookup (indexed_by_name c2) (db, nm) (n', sh) =
         (if n' = n \<and> map_of (p # snap) (db, nm, sh) \<noteq> None then None else nm_lookup (indexed_by_name cat) (db, nm) (n', sh))" for db nm n' sh
    by (auto simp: c2(5) c1(5) p k(1,2))
  then show ?case using c1(1) c2(1-4) same_rest_trans[OF c1(4)] by (simp add: p)
qed

text \<open>Both ways of adding a table put it under its key, when it is new there.\<close>

definition puts :: "(table \<Rightarrow> 'st catalog \<Rightarrow> 'st catalog) \<Rightarrow> table \<Rightarrow> 'st catalog \<Rightarrow> bool" where
  "puts add tb cat \<longleftrightarrow> nm_wf (indexed_by_name (add tb cat)) \<and> storages_ok (add tb cat) \<and> same_rest cat (add tb cat)
     \<and> (\<forall>k ns. nm_lookup (indexed_by_name (add tb cat)) k ns =
          (if k = (tb_database tb, tb_name tb) \<and> ns = (tb_node_identity tb, tb_shard tb) then Some tb
           else nm_lookup (indexed_by_name cat) k ns))"

lemma update_table_puts:
  assumes "nm_wf (indexed_by_name cat)" "storages_ok cat"
  shows "puts update_table tb cat"
proof (cases "map_of (indexed_by_name cat) (tb_database tb, tb_name tb)")
  case None
  then show ?thesis
    using assms nm_wf_update[OF assms(1)]
    by (auto simp: puts_def update_table_def storages_ok_def same_rest_def nm_lookup_def)
next
  case (Some m)
  then have d: "distinct (map fst m)" using nm_wfD[OF assms(1)] by blast
  let ?bn = "AList.update (tb_database tb, tb_name tb) (AList.update (tb_node_identity tb, tb_shard tb) tb m) (indexed_by_name cat)"
  have wf: "nm_wf ?bn" by (rule nm_wf_update[OF assms(1)]) (use d in \<open>simp_all add: distinct_update\<close>)
  have bn: "indexed_by_name (update_table tb cat) = ?bn"
    using Some by (simp add: update_table_def Let_def deleteTableStorageByName_def split: option.split)
  have st: "map_of (storages (update_table tb cat)) k \<noteq> None \<Longrightarrow> map_of (storages cat) k \<noteq> None" for k
    using Some by (auto simp: update_table_def Let_def deleteTableStorageByName_def split: option.splits if_splits)
  have "storages_ok (update_table tb cat)"
    unfolding storages_ok_def bn
  proof (intro allI impI)
    fix k
    assume "map_of (storages (update_table tb cat)) k \<noteq> None"
    from storages_okD[OF assms(2) st[OF this]] show "map_of ?bn k \<noteq> None" by simp
  qed
  moreover have "same_rest cat (update_table tb cat)"
    using Some by (simp add: same_rest_def update_table_def Let_def deleteTableStorageByName_def split: option.split)
  ultimately show ?thesis
    using Some wf unfolding puts_def bn by (auto simp: nm_lookup_def)
qed

lemma add_table_puts:
  assumes "nm_wf (indexed_by_name cat)" "storages_ok cat"
    "nm_lookup (indexed_by_name cat) (tb_database tb, tb_name tb) (tb_node_identity tb, tb_shard tb) = None"
  shows "puts add_table tb cat"
proof -
  let ?k = "(tb_database tb, tb_name tb)" and ?ns = "(tb_node_identity tb, tb_shard tb)"
  define m where "m = (case map_of (indexed_by_name cat) ?k of None \<Rightarrow> [] | Some m \<Rightarrow> m)"
  have d: "distinct (map fst m)" using nm_wfD[OF assms(1)] by (auto simp: m_def split: option.split)
  have n: "map_of m ?ns = None" using assms(3) by (auto simp: m_def nm_lookup_def split: option.split)
  let ?bn = "AList.update ?k (emplace ?ns tb m) (indexed_by_name cat)"
  have wf: "nm_wf ?bn" by (rule nm_wf_update[OF assms(1)]) (simp_all add: distinct_emplace d)
  have bn: "indexed_by_name (add_table tb cat) = ?bn" by (simp add: add_table_def Let_def m_def)
  have st: "storages (add_table tb cat) = storages cat" by (simp add: add_table_def Let_def)
  have "nm_lookup ?bn k ns = (if k = ?k \<and> ns = ?ns then Some tb else nm_lookup (indexed_by_name cat) k ns)" for k ns
    using n by (auto simp: nm_lookup_def m_def split: option.split)
  moreover have "storages_ok (add_table tb cat)" using assms(2) by (auto simp: storages_ok_def bn st)
  ultimately show ?thesis
    using wf unfolding puts_def bn by (simp add: same_rest_def add_table_def Let_def)
qed

definition merged_into :: "string \<Rightarrow> snapshot \<Rightarrow> 'st catalog \<Rightarrow> 'st catalog \<Rightarrow> bool" where
  "merged_into n snap cat c \<longleftrightarrow> nm_wf (indexed_by_name c) \<and> storages_ok c \<and> same_rest cat c
    \<and> (\<forall>db nm n' sh. nm_lookup (indexed_by_name c) (db, nm) (n', sh) =
         (if n' = n \<and> map_of snap (db, nm, sh) \<noteq> None then map_of snap (db, nm, sh)
          else nm_lookup (indexed_by_name cat) (db, nm) (n', sh)))"

lemma merged_intoD:
  assumes "merged_into n snap cat c"
  shows "nm_wf (indexed_by_name c)" "storages_ok c" "same_rest cat c"
    "nm_lookup (indexed_by_name c) (db, nm) (n', sh) =
         (if n' = n \<and> map_of snap (db, nm, sh) \<noteq> None then map_of snap (db, nm, sh)
          else nm_lookup (indexed_by_name cat) (db, nm) (n', sh))"
  using assms unfolding merged_into_def by blast+

lemma fold_puts:
  assumes "snap_wf n snap" "nm_wf (indexed_by_name cat)" "storages_ok cat"
    "\<And>tb c. nm_wf (indexed_by_name c) \<Longrightarrow> storages_ok c \<Longrightarrow> tb \<in> snd ` set snap
       \<Longrightarrow> nm_lookup (indexed_by_name c) (tb_database tb, tb_name tb) (tb_node_identity tb, tb_shard tb)
           = nm_lookup (indexed_by_name cat) (tb_database tb, tb_name tb) (tb_node_identity tb, tb_shard tb)
       \<Longrightarrow> puts add tb c"
  shows "merged_into n snap cat (fold add (map snd snap) cat)"
  using assms
proof (induction snap arbitrary: cat)
  case Nil
  then show ?case by (simp add: merged_into_def same_rest_def)
next
  case (Cons p snap)
  obtain k tb where p: "p = (k, tb)" by fastforce
  have k: "k = (tb_database tb, tb_name tb, tb_shard tb)" "tb_node_identity tb = n" "map_of snap k = None" "snap_wf n snap"
    using Cons.prems(1) unfolding p snap_wf_Cons key_of_table_def by blast+
  have "puts add tb cat" using Cons.prems(4)[OF Cons.prems(2,3)] by (simp add: p)
  then have c1: "nm_wf (indexed_by_name (add tb cat))" "storages_ok (add tb cat)" "same_rest cat (add tb cat)"
    "\<And>k ns. nm_lookup (indexed_by_name (add tb cat)) k ns =
          (if k = (tb_database tb, tb_name tb) \<and> ns = (tb_node_identity tb, tb_shard tb) then Some tb
           else nm_lookup (indexed_by_name cat) k ns)" unfolding puts_def by blast+
  have pu: "puts add t c" if asm: "nm_wf (indexed_by_name c)" "storages_ok c" "t \<in> snd ` set snap"
    "nm_lookup (indexed_by_name c) (tb_database t, tb_name t) (tb_node_identity t, tb_shard t)
       = nm_lookup (indexed_by_name (add tb cat)) (tb_database t, tb_name t) (tb_node_identity t, tb_shard t)" for t c
  proof (rule Cons.prems(4)[OF asm(1,2)])
    show "t \<in> snd ` set (p # snap)" using asm(3) by simp
    obtain kt where kt: "(kt, t) \<in> set snap" using asm(3) by force
    have "kt = key_of_table t" using k(4) kt unfolding snap_wf_def by blast
    moreover have "kt \<noteq> k" using k(3) kt by (metis map_of_eq_None_iff image_eqI fst_conv)
    ultimately have "(tb_database t, tb_name t, tb_shard t) \<noteq> (tb_database tb, tb_name tb, tb_shard tb)"
      by (simp add: key_of_table_def k(1))
    then show "nm_lookup (indexed_by_name c) (tb_database t, tb_name t) (tb_node_identity t, tb_shard t)
       = nm_lookup (indexed_by_name cat) (tb_database t, tb_name t) (tb_node_identity t, tb_shard t)"
      using asm(4) c1(4) by auto
  qed
  note ih = Cons.IH[OF k(4) c1(1,2) pu]
  note ih4 = merged_intoD(4)[OF ih]
  have "nm_lookup (indexed_by_name (fold add (map snd snap) (add tb cat))) (db, nm) (n', sh) =
         (if n' = n \<and> map_of (p # snap) (db, nm, sh) \<noteq> None then map_of (p # snap) (db, nm, sh)
          else nm_lookup (indexed_by_name cat) (db, nm) (n', sh))" for db nm n' sh
  proof (cases "(db, nm, sh) = k")
    case True
    then show ?thesis using k(3) by (cases "n' = n") (simp_all add: ih4 c1(4) p k(1,2))
  next
    case False
    then show ?thesis using k(1,2) by (cases "n' = n") (auto simp: ih4 c1(4) p)
  qed
  then show ?case
    using merged_intoD(1,2)[OF ih] same_rest_trans[OF c1(3) merged_intoD(3)[OF ih]]
    unfolding p merged_into_def by (simp only: list.map fold.simps comp_apply snd_conv) blast
qed

section \<open>The invariant\<close>

text \<open>The abstract catalog: for each node the tables that it has.\<close>

definition node_lookup :: "'st catalog \<Rightarrow> string \<Rightarrow> table_key \<Rightarrow> table option" where
  "node_lookup cat n k = (case map_of (indexed_by_node cat) n of None \<Rightarrow> None | Some s \<Rightarrow> map_of s k)"

definition catalog_inv :: "'st catalog \<Rightarrow> bool" where
  "catalog_inv cat \<longleftrightarrow> nm_wf (indexed_by_name cat) \<and> storages_ok cat
     \<and> (\<forall>n s. map_of (indexed_by_node cat) n = Some s \<longrightarrow> snap_wf n s)
     \<and> (\<forall>db nm n sh. nm_lookup (indexed_by_name cat) (db, nm) (n, sh) = node_lookup cat n (db, nm, sh))"

lemma catalog_invD:
  assumes "catalog_inv cat"
  shows "nm_wf (indexed_by_name cat)" "storages_ok cat" "map_of (indexed_by_node cat) n = Some s \<Longrightarrow> snap_wf n s"
    "nm_lookup (indexed_by_name cat) (db, nm) (n, sh) = node_lookup cat n (db, nm, sh)"
  using assms unfolding catalog_inv_def by blast+

lemma storages_ok_cong:
  "storages cat' = storages cat \<Longrightarrow> indexed_by_name cat' = indexed_by_name cat \<Longrightarrow> storages_ok cat' = storages_ok cat"
  by (simp add: storages_ok_def)

lemma catalog_invI:
  assumes "catalog_inv cat" "same_rest cat c" "nm_wf (indexed_by_name c)" "storages_ok c" "snap_wf n snap"
    "\<And>db nm n' sh. nm_lookup (indexed_by_name c) (db, nm) (n', sh) =
       (if n' = n then map_of snap (db, nm, sh) else nm_lookup (indexed_by_name cat) (db, nm) (n', sh))"
    "cat' = c\<lparr>indexed_by_node := AList.update n snap (indexed_by_node cat)\<rparr>
     \<or> cat' = c\<lparr>indexed_by_node := AList.update n snap (indexed_by_node cat), table_nodes := tn\<rparr>"
  shows "catalog_inv cat' \<and> (\<forall>n' k. node_lookup cat' n' k = (if n' = n then map_of snap k else node_lookup cat n' k))"
proof -
  have f: "indexed_by_name cat' = indexed_by_name c" "storages cat' = storages c"
    "indexed_by_node cat' = AList.update n snap (indexed_by_node cat)" using assms(7) by auto
  have l: "node_lookup cat' n' k = (if n' = n then map_of snap k else node_lookup cat n' k)" for n' k
    by (simp add: node_lookup_def f(3))
  have "catalog_inv cat'"
    unfolding catalog_inv_def f(1)
  proof (intro conjI allI impI)
    show "storages_ok cat'" using assms(4) storages_ok_cong[OF f(2,1)] by simp
    show "snap_wf m s" if "map_of (indexed_by_node cat') m = Some s" for m s
      using that catalog_invD(3)[OF assms(1)] assms(5) by (auto simp: f(3) split: if_splits)
    show "nm_lookup (indexed_by_name c) (db, nm) (m, sh) = node_lookup cat' m (db, nm, sh)" for db nm m sh
      using assms(6) catalog_invD(4)[OF assms(1)] by (simp add: l)
  qed (use assms(3) in simp_all)
  then show ?thesis using l by blast
qed

lemma emplace_new: "map_of m k = None \<Longrightarrow> emplace k v m = AList.update k v m"
  by (induction m) (auto simp: emplace_def split: if_splits)

lemma merge_empty:
  assumes "catalog_inv cat"
  shows "\<exists>cat'. deleteCatalogForNode n cat = Some cat' \<and> catalog_inv cat'
    \<and> (\<forall>n' k. node_lookup cat' n' k = (if n' = nd_identity n then None else node_lookup cat n' k))"
proof (cases "map_of (indexed_by_node cat) (nd_identity n)")
  case None
  then show ?thesis using assms by (simp add: deleteCatalogForNode_def node_lookup_def)
next
  case (Some old)
  note d = catalog_invD[OF assms]
  have lk: "nm_lookup (indexed_by_name cat) (db, nm) (nd_identity n, sh) = map_of old (db, nm, sh)" for db nm sh
    by (simp add: d(4) node_lookup_def Some)
  from delete_tables_spec[OF d(3)[OF Some] d(1,2)] lk obtain c where
    c: "delete_tables (map snd old) cat = Some c" "nm_wf (indexed_by_name c)" "storages_ok c" "same_rest cat c"
    and l: "\<And>db nm n' sh. nm_lookup (indexed_by_name c) (db, nm) (n', sh) =
         (if n' = nd_identity n \<and> map_of old (db, nm, sh) \<noteq> None then None
          else nm_lookup (indexed_by_name cat) (db, nm) (n', sh))" by auto
  let ?c = "c\<lparr>indexed_by_node := AList.update (nd_identity n) [] (indexed_by_node c)\<rparr>"
  have "catalog_inv ?c \<and> (\<forall>n' k. node_lookup ?c n' k = (if n' = nd_identity n then map_of [] k else node_lookup cat n' k))"
  proof (rule catalog_invI[OF assms c(4,2,3)])
    show "snap_wf (nd_identity n) []" by (simp add: snap_wf_def)
    show "nm_lookup (indexed_by_name c) (db, nm) (n', sh) =
       (if n' = nd_identity n then map_of [] (db, nm, sh) else nm_lookup (indexed_by_name cat) (db, nm) (n', sh))" for db nm n' sh
      by (auto simp: l lk)
    show "?c = c\<lparr>indexed_by_node := AList.update (nd_identity n) [] (indexed_by_node cat)\<rparr>
      \<or> ?c = c\<lparr>indexed_by_node := AList.update (nd_identity n) [] (indexed_by_node cat), table_nodes := []\<rparr>"
      using c(4) by (simp add: same_rest_def)
  qed
  then show ?thesis using c(1) Some by (simp add: deleteCatalogForNode_def)
qed

lemma merge_new:
  assumes "catalog_inv cat" "snap_wf (nd_identity n) snap" "snap \<noteq> []" "map_of (indexed_by_node cat) (nd_identity n) = None"
  shows "\<exists>cat'. mergeCatalog n snap cat = Some cat' \<and> catalog_inv cat'
    \<and> (\<forall>n' k. node_lookup cat' n' k = (if n' = nd_identity n then map_of snap k else node_lookup cat n' k))"
proof -
  note d = catalog_invD[OF assms(1)]
  let ?c = "fold add_table (map snd snap) cat"
  have none: "nm_lookup (indexed_by_name cat) (db, nm) (nd_identity n, sh) = None" for db nm sh
    by (simp add: d(4) node_lookup_def assms(4))
  have pu: "puts add_table tb c" if "nm_wf (indexed_by_name c)" "storages_ok c" "tb \<in> snd ` set snap"
    "nm_lookup (indexed_by_name c) (tb_database tb, tb_name tb) (tb_node_identity tb, tb_shard tb)
       = nm_lookup (indexed_by_name cat) (tb_database tb, tb_name tb) (tb_node_identity tb, tb_shard tb)" for tb and c :: "'a catalog"
  proof (rule add_table_puts[OF that(1,2)])
    have "tb_node_identity tb = nd_identity n" using assms(2) that(3) unfolding snap_wf_def by force
    then show "nm_lookup (indexed_by_name c) (tb_database tb, tb_name tb) (tb_node_identity tb, tb_shard tb) = None"
      using that(4) none by simp
  qed
  have f: "merged_into (nd_identity n) snap cat ?c"
    by (rule fold_puts[OF assms(2) d(1,2)]) (rule pu, assumption+)
  note sr = merged_intoD(3)[OF f]
  let ?cat' = "?c\<lparr>indexed_by_node := emplace (nd_identity n) snap (indexed_by_node ?c),
      table_nodes := emplace (nd_identity n) n (table_nodes ?c)\<rparr>"
  have "catalog_inv ?cat' \<and> (\<forall>n' k. node_lookup ?cat' n' k = (if n' = nd_identity n then map_of snap k else node_lookup cat n' k))"
  proof (rule catalog_invI[OF assms(1) sr merged_intoD(1,2)[OF f] assms(2)])
    show "nm_lookup (indexed_by_name ?c) (db, nm) (n', sh) =
       (if n' = nd_identity n then map_of snap (db, nm, sh) else nm_lookup (indexed_by_name cat) (db, nm) (n', sh))" for db nm n' sh
      using merged_intoD(4)[OF f, of db nm n' sh] none by auto
    show "?cat' = ?c\<lparr>indexed_by_node := AList.update (nd_identity n) snap (indexed_by_node cat)\<rparr>
     \<or> ?cat' = ?c\<lparr>indexed_by_node := AList.update (nd_identity n) snap (indexed_by_node cat),
                  table_nodes := emplace (nd_identity n) n (table_nodes ?c)\<rparr>"
      using sr assms(4) by (simp add: same_rest_def emplace_new)
  qed
  then show ?thesis using assms(3,4) by (simp add: mergeCatalog_def Let_def)
qed

lemma merge_known:
  assumes "catalog_inv cat" "snap_wf (nd_identity n) snap" "snap \<noteq> []" "map_of (indexed_by_node cat) (nd_identity n) = Some old"
  shows "\<exists>cat'. mergeCatalog n snap cat = Some cat' \<and> catalog_inv cat'
    \<and> (\<forall>n' k. node_lookup cat' n' k = (if n' = nd_identity n then map_of snap k else node_lookup cat n' k))"
proof -
  note d = catalog_invD[OF assms(1)]
  let ?cat1 = "cat\<lparr>table_nodes := AList.update (nd_identity n) n (table_nodes cat)\<rparr>"
  let ?gone = "filter (\<lambda>p. map_of snap (fst p) = None) old"
  have lk: "nm_lookup (indexed_by_name cat) (db, nm) (nd_identity n, sh) = map_of old (db, nm, sh)" for db nm sh
    by (simp add: d(4) node_lookup_def assms(4))
  have g: "map_of ?gone k = (if map_of snap k = None then map_of old k else None)" for k
    by (induction old) auto
  have i1: "catalog_inv ?cat1" using assms(1) storages_ok_cong[of ?cat1 cat]
    by (simp add: catalog_inv_def node_lookup_def)
  have "\<exists>c. delete_tables (map snd ?gone) ?cat1 = Some c \<and> nm_wf (indexed_by_name c) \<and> storages_ok c \<and> same_rest ?cat1 c
    \<and> (\<forall>db nm n' sh. nm_lookup (indexed_by_name c) (db, nm) (n', sh) =
         (if n' = nd_identity n \<and> map_of ?gone (db, nm, sh) \<noteq> None then None
          else nm_lookup (indexed_by_name ?cat1) (db, nm) (n', sh)))"
    by (rule delete_tables_spec[OF snap_wf_filter[OF d(3)[OF assms(4)]] catalog_invD(1,2)[OF i1]])
       (simp add: g lk split: if_splits)
  then obtain c where c: "delete_tables (map snd ?gone) ?cat1 = Some c" "nm_wf (indexed_by_name c)" "storages_ok c" "same_rest ?cat1 c"
    and l: "\<And>db nm n' sh. nm_lookup (indexed_by_name c) (db, nm) (n', sh) =
         (if n' = nd_identity n \<and> map_of ?gone (db, nm, sh) \<noteq> None then None
          else nm_lookup (indexed_by_name ?cat1) (db, nm) (n', sh))" by blast
  let ?c = "fold update_table (map snd snap) c"
  have f: "merged_into (nd_identity n) snap c ?c"
    by (rule fold_puts[OF assms(2) c(2,3)]) (rule update_table_puts, assumption+)
  note sr = same_rest_trans[OF c(4) merged_intoD(3)[OF f]]
  let ?cat' = "?c\<lparr>indexed_by_node := AList.update (nd_identity n) snap (indexed_by_node c)\<rparr>"
  have "catalog_inv ?cat' \<and> (\<forall>n' k. node_lookup ?cat' n' k = (if n' = nd_identity n then map_of snap k else node_lookup ?cat1 n' k))"
  proof (rule catalog_invI[OF i1 sr merged_intoD(1,2)[OF f] assms(2)])
    show "nm_lookup (indexed_by_name ?c) (db, nm) (n', sh) =
       (if n' = nd_identity n then map_of snap (db, nm, sh) else nm_lookup (indexed_by_name ?cat1) (db, nm) (n', sh))" for db nm n' sh
      using merged_intoD(4)[OF f, of db nm n' sh] lk[of db nm sh] by (auto simp: l g)
    show "?cat' = ?c\<lparr>indexed_by_node := AList.update (nd_identity n) snap (indexed_by_node ?cat1)\<rparr>
     \<or> ?cat' = ?c\<lparr>indexed_by_node := AList.update (nd_identity n) snap (indexed_by_node ?cat1), table_nodes := []\<rparr>"
      using c(4) by (simp add: same_rest_def)
  qed
  moreover have "node_lookup ?cat1 n' k = node_lookup cat n' k" for n' k by (simp add: node_lookup_def)
  ultimately show ?thesis using assms(3,4) c(1) by (simp add: mergeCatalog_def Let_def)
qed

lemma mergeCatalog_ok:
  assumes "catalog_inv cat" "snap_wf (nd_identity n) snap"
  shows "\<exists>cat'. mergeCatalog n snap cat = Some cat' \<and> catalog_inv cat'
    \<and> (\<forall>n' k. node_lookup cat' n' k = (if n' = nd_identity n then map_of snap k else node_lookup cat n' k))"
proof (cases "snap = []")
  case True
  then have e: "mergeCatalog n snap cat = deleteCatalogForNode n cat" by (simp add: mergeCatalog_def)
  show ?thesis unfolding e unfolding True map_of.simps(1) by (rule merge_empty[OF assms(1)])
next
  case False
  then show ?thesis
    using merge_new[OF assms False] merge_known[OF assms False] by (cases "map_of (indexed_by_node cat) (nd_identity n)") blast+
qed

lemma build_rows_wf:
  assumes "build_rows uuid_of n b rows acc = Inr snap" "snap_wf (nd_identity n) acc"
  shows "snap_wf (nd_identity n) snap"
  using assms
proof (induction rows arbitrary: acc)
  case (Cons row rows)
  from Cons.prems(1) obtain tb where tb: "build_table uuid_of n b row = Inr tb"
    "build_rows uuid_of n b rows (emplace (key_of_table tb) tb acc) = Inr snap" by (auto simp: bind_result_Inr)
  have "tb_node_identity tb = nd_identity n"
    using tb(1) by (auto simp: build_table_def Let_def bind_result_Inr split: if_splits)
  then have "snap_wf (nd_identity n) (emplace (key_of_table tb) tb acc)"
    using Cons.prems(2) distinct_emplace by (auto simp: snap_wf_def emplace_def)
  then show ?case using Cons.IH tb(2) by blast
qed simp

lemma buildCatalog_wf: "buildCatalog uuid_of n b = Inr snap \<Longrightarrow> snap_wf (nd_identity n) snap"
  using build_rows_wf[of uuid_of n b "[0..<block_rows b]" "[]" snap] by (simp add: buildCatalog_def snap_wf_def)

section \<open>Claims\<close>

text \<open>The specification: a valid record replaces what is known of its node; a malformed number ends the batch.\<close>

fun catalog_spec ::
    "(string \<Rightarrow> nat) \<Rightarrow> string block wal_record list \<Rightarrow> (string \<Rightarrow> table_key \<Rightarrow> table option)
      \<Rightarrow> std_error option \<times> (string \<Rightarrow> table_key \<Rightarrow> table option)" where
  "catalog_spec uuid_of [] f = (None, f)"
| "catalog_spec uuid_of (r # rs) f =
     (if \<not> hasIdempotentKey r \<or> \<not> VERSION_OK (rec_headers r) then catalog_spec uuid_of rs f
      else
        case Node (the (idempotentKey r)) (rec_headers r) of
          Inl e \<Rightarrow> (Some e, f)
        | Inr n \<Rightarrow>
            if \<not> node_isValid n then catalog_spec uuid_of rs f
            else
              (case buildCatalog uuid_of n (rec_block r) of
                 Inl e \<Rightarrow> (Some e, f)
               | Inr snap \<Rightarrow> catalog_spec uuid_of rs (f(nd_identity n := map_of snap))))"

lemma processRecords_spec:
  assumes "catalog_inv cat"
  shows "\<exists>e cat'. processRecords uuid_of rs cat = Some (e, cat') \<and> catalog_inv cat'
    \<and> catalog_spec uuid_of rs (node_lookup cat) = (e, node_lookup cat')"
  using assms
proof (induction rs arbitrary: cat)
  case (Cons r rs)
  consider "\<not> hasIdempotentKey r \<or> \<not> VERSION_OK (rec_headers r)"
    | e where "hasIdempotentKey r" "VERSION_OK (rec_headers r)" "Node (the (idempotentKey r)) (rec_headers r) = Inl e"
    | n where "hasIdempotentKey r" "VERSION_OK (rec_headers r)" "Node (the (idempotentKey r)) (rec_headers r) = Inr n" "\<not> node_isValid n"
    | n e where "hasIdempotentKey r" "VERSION_OK (rec_headers r)" "Node (the (idempotentKey r)) (rec_headers r) = Inr n" "node_isValid n"
        "buildCatalog uuid_of n (rec_block r) = Inl e"
    | n snap where "hasIdempotentKey r" "VERSION_OK (rec_headers r)" "Node (the (idempotentKey r)) (rec_headers r) = Inr n" "node_isValid n"
        "buildCatalog uuid_of n (rec_block r) = Inr snap"
    by (metis sum.exhaust)
  then show ?case
  proof cases
    case (5 n snap)
    from mergeCatalog_ok[OF Cons.prems buildCatalog_wf[OF 5(5)]] obtain c where
      c: "mergeCatalog n snap cat = Some c" "catalog_inv c"
      "\<And>n' k. node_lookup c n' k = (if n' = nd_identity n then map_of snap k else node_lookup cat n' k)" by blast
    have "(node_lookup cat)(nd_identity n := map_of snap) = node_lookup c" by (intro ext) (simp add: c(3))
    then show ?thesis using 5 c(1) Cons.IH[OF c(2)] by simp
  qed (use Cons in simp_all)
qed simp

lemma catalog_inv_new: "catalog_inv catalog_new"
  by (simp add: catalog_inv_def catalog_new_def nm_wf_def storages_ok_def nm_lookup_def node_lookup_def)

lemma findTableByName_inv:
  assumes "catalog_inv cat"
  shows "set (findTableByName db nm cat) = {tb. \<exists>n sh. node_lookup cat n (db, nm, sh) = Some tb}"
    "tableExists db nm cat \<longleftrightarrow> (\<exists>n sh. node_lookup cat n (db, nm, sh) \<noteq> None)"
proof -
  note d = catalog_invD[OF assms]
  have l: "node_lookup cat n (db, nm, sh) = nm_lookup (indexed_by_name cat) (db, nm) (n, sh)" for n sh by (simp add: d(4))
  show "set (findTableByName db nm cat) = {tb. \<exists>n sh. node_lookup cat n (db, nm, sh) = Some tb}"
  proof (cases "map_of (indexed_by_name cat) (db, nm)")
    case None
    then show ?thesis by (simp add: findTableByName_def l nm_lookup_def)
  next
    case (Some m)
    have "distinct (map fst m)" using nm_wfD[OF d(1) Some] by blast
    then have "(ns, tb) \<in> set m \<longleftrightarrow> map_of m ns = Some tb" for ns tb by (simp add: map_of_eq_Some_iff)
    then show ?thesis using Some by (force simp: findTableByName_def l nm_lookup_def image_iff)
  qed
  show "tableExists db nm cat \<longleftrightarrow> (\<exists>n sh. node_lookup cat n (db, nm, sh) \<noteq> None)"
  proof (cases "map_of (indexed_by_name cat) (db, nm)")
    case None
    then show ?thesis by (simp add: tableExists_def l nm_lookup_def)
  next
    case (Some m)
    then obtain n sh tb m' where "m = ((n, sh), tb) # m'" using nm_wfD[OF d(1) Some] by (cases m) auto
    then have "map_of m (n, sh) = Some tb" by simp
    then show ?thesis using Some by (auto simp: tableExists_def l nm_lookup_def)
  qed
qed

text \<open>The life of a catalog: batches of records, and storages that are cached for tables.\<close>

datatype 'st catalog_event = Consume "string block wal_record list" | Cache string string 'st

fun catalog_run :: "(string \<Rightarrow> nat) \<Rightarrow> 'st catalog_event list \<Rightarrow> 'st catalog \<Rightarrow> 'st catalog option" where
  "catalog_run uuid_of [] cat = Some cat"
| "catalog_run uuid_of (Consume rs # evs) cat =
     (case processRecords uuid_of rs cat of None \<Rightarrow> None | Some (e, cat') \<Rightarrow> catalog_run uuid_of evs cat')"
| "catalog_run uuid_of (Cache db nm st # evs) cat = catalog_run uuid_of evs (snd (setTableStorageByName db nm st cat))"

fun run_spec ::
    "(string \<Rightarrow> nat) \<Rightarrow> 'st catalog_event list \<Rightarrow> (string \<Rightarrow> table_key \<Rightarrow> table option) \<Rightarrow> string \<Rightarrow> table_key \<Rightarrow> table option" where
  "run_spec uuid_of [] f = f"
| "run_spec uuid_of (Consume rs # evs) f = run_spec uuid_of evs (snd (catalog_spec uuid_of rs f))"
| "run_spec uuid_of (Cache db nm st # evs) f = run_spec uuid_of evs f"

lemma setTableStorageByName_inv:
  assumes "catalog_inv cat"
  shows "catalog_inv (snd (setTableStorageByName db nm st cat))"
    "node_lookup (snd (setTableStorageByName db nm st cat)) = node_lookup cat"
proof -
  let ?c = "snd (setTableStorageByName db nm st cat)"
  have s: "indexed_by_name ?c = indexed_by_name cat" "indexed_by_node ?c = indexed_by_node cat"
    by (simp_all add: setTableStorageByName_def split: option.split)
  have "map_of (storages ?c) k \<noteq> None \<Longrightarrow> map_of (indexed_by_name cat) k \<noteq> None" for k
    using storages_okD[OF catalog_invD(2)[OF assms], of k]
    by (auto simp: setTableStorageByName_def split: option.splits if_splits)
  then have "storages_ok ?c" unfolding storages_ok_def s by blast
  moreover show n: "node_lookup ?c = node_lookup cat" by (intro ext) (simp add: node_lookup_def s)
  ultimately show "catalog_inv ?c" using assms unfolding catalog_inv_def s n by blast
qed

lemma catalog_run_spec:
  assumes "catalog_inv cat"
  shows "\<exists>cat'. catalog_run uuid_of evs cat = Some cat' \<and> catalog_inv cat' \<and> run_spec uuid_of evs (node_lookup cat) = node_lookup cat'"
  using assms
proof (induction evs arbitrary: cat)
  case (Cons ev evs)
  show ?case
  proof (cases ev)
    case (Consume rs)
    from processRecords_spec[OF Cons.prems, of uuid_of rs] obtain e c where
      c: "processRecords uuid_of rs cat = Some (e, c)" "catalog_inv c" "catalog_spec uuid_of rs (node_lookup cat) = (e, node_lookup c)" by blast
    then show ?thesis using Cons.IH[OF c(2)] by (simp add: Consume)
  next
    case (Cache db nm st)
    then show ?thesis
      using Cons.IH[OF setTableStorageByName_inv(1)[OF Cons.prems, of db nm st]] setTableStorageByName_inv(2)[OF Cons.prems, of db nm st] by simp
  qed
qed simp

text \<open>
  C17.  The catalog refines its specification.  For every sequence of consumed batches and cached storages, starting from an
  empty catalog, no iterator is used that does not exist, and the catalog holds for every node exactly the tables
  of the last valid record of that node: \<^verbatim>\<open>findTableByName\<close> returns exactly the tables of that name on any
  node, \<^verbatim>\<open>findTableByNode\<close> those of the node, \<^verbatim>\<open>tableExists\<close> says whether there is one, and every cached storage belongs
  to a table that exists.
\<close>

theorem catalog_refines_spec:
  "\<exists>cat. catalog_run uuid_of evs catalog_new = Some cat
    \<and> (\<forall>db nm. set (findTableByName db nm cat) = {tb. \<exists>n sh. run_spec uuid_of evs (\<lambda>_ _. None) n (db, nm, sh) = Some tb})
    \<and> (\<forall>db nm. tableExists db nm cat = (\<exists>n sh. run_spec uuid_of evs (\<lambda>_ _. None) n (db, nm, sh) \<noteq> None))
    \<and> (\<forall>n. set (findTableByNode n cat) = {tb. \<exists>k. run_spec uuid_of evs (\<lambda>_ _. None) n k = Some tb})
    \<and> dom (map_of (storages cat)) \<subseteq> {(db, nm). tableExists db nm cat}"
proof -
  have "node_lookup (catalog_new :: 'a catalog) = (\<lambda>_ _. None)" by (intro ext) (simp add: node_lookup_def catalog_new_def)
  with catalog_run_spec[OF catalog_inv_new, of uuid_of evs] obtain cat where
    r: "catalog_run uuid_of evs catalog_new = Some cat" "catalog_inv cat"
    "run_spec uuid_of evs (\<lambda>_ _. None) = node_lookup cat" by auto
  have nd: "set (findTableByNode n cat) = {tb. \<exists>k. node_lookup cat n k = Some tb}" for n
  proof (cases "map_of (indexed_by_node cat) n")
    case None
    then show ?thesis by (simp add: findTableByNode_def node_lookup_def)
  next
    case (Some s)
    have "distinct (map fst s)" using catalog_invD(3)[OF r(2) Some] by (simp add: snap_wf_def)
    then have "(k, tb) \<in> set s \<longleftrightarrow> map_of s k = Some tb" for k tb by (simp add: map_of_eq_Some_iff)
    then show ?thesis using Some by (force simp: findTableByNode_def node_lookup_def image_iff)
  qed
  show ?thesis
    unfolding r(3)
    using r(1) findTableByName_inv[OF r(2)] nd storages_okD[OF catalog_invD(2)[OF r(2)]] by (auto simp: tableExists_def)
qed

definition ex_node :: "string \<Rightarrow> node" where
  "ex_node ident = \<lparr>nd_identity = ident, nd_host = ''host-'' @ ident, nd_channel = ident, nd_roles = ''ingest'', nd_https_port = -1,
     nd_http_port = 8123, nd_tcp_port_secure = -1, nd_tcp_port = 9\<rparr>"

definition ex_tb :: "string \<Rightarrow> string \<Rightarrow> nat \<Rightarrow> int \<Rightarrow> table_key \<times> table" where
  "ex_tb ident nm uuid sh = ((''db'', nm, sh), \<lparr>tb_node_identity = ident, tb_host = ''host-'' @ ident, tb_database = ''db'', tb_name = nm,
     tb_uuid = uuid, tb_engine = ''DistributedMergeTree'', tb_dependencies_table = [], tb_create_table_query = [], tb_engine_full = [],
     tb_partition_key = [], tb_sorting_key = [], tb_primary_key = [], tb_sampling_key = [], tb_storage_policy = [], tb_shard = sh\<rparr>)"

fun merge_all :: "(node \<times> snapshot) list \<Rightarrow> 'st catalog \<Rightarrow> 'st catalog option" where
  "merge_all [] cat = Some cat"
| "merge_all ((n, s) # xs) cat = (case mergeCatalog n s cat of None \<Rightarrow> None | Some c \<Rightarrow> merge_all xs c)"

text \<open>
  The index by UUID does not follow an exchange of two tables.  When a node reports that the
  tables \<^verbatim>\<open>a\<close> and \<^verbatim>\<open>b\<close> have swapped their UUIDs 1 and 2 (\<^verbatim>\<open>EXCHANGE TABLES\<close>), table \<^verbatim>\<open>a\<close> is found by its name with UUID 2, and
  looking for UUID 2 finds nothing: the update of \<^verbatim>\<open>b\<close> erases the entry that the update of \<^verbatim>\<open>a\<close> has just made.
\<close>

theorem exchange_loses_uuid:
  "map_option (\<lambda>cat :: unit catalog. (map tb_uuid (findTableByName ''db'' ''a'' cat), findTableStorageById 2 cat))
     (merge_all [(ex_node ''n'', [ex_tb ''n'' ''a'' 1 0, ex_tb ''n'' ''b'' 2 0]),
                 (ex_node ''n'', [ex_tb ''n'' ''a'' 2 0, ex_tb ''n'' ''b'' 1 0])] catalog_new)
   = Some ([2], None)"
  by code_simp

text \<open>
  The position of a shard in the cluster of a table depends on the order in which a hash map is walked.  For a table with shard 0 on
  node \<^verbatim>\<open>x\<close> and shard 1 on node \<^verbatim>\<open>y\<close>, if the map \<^verbatim>\<open>by_shard\<close> is walked in the order 1, 0 the entry at position 0, to which a query for
  shard 0 is sent, is the address of \<^verbatim>\<open>y\<close>.
\<close>

theorem cluster_position_not_shard:
  "map_option (\<lambda>cat :: unit catalog. (fst (tableCluster sort ''db'' ''t'' cat), fst (tableCluster (\<lambda>xs. rev (sort xs)) ''db'' ''t'' cat)))
     (merge_all [(ex_node ''x'', [ex_tb ''x'' ''t'' 1 0]), (ex_node ''y'', [ex_tb ''y'' ''t'' 2 1])] catalog_new)
   = Some (Some [[''host-x:9''], [''host-y:9'']], Some [[''host-y:9''], [''host-x:9'']])"
  by code_simp

text \<open>
  Ports are kept in 16 signed bits.  A node whose TCP port is above 32767 (and that has no secure port) announces itself with
  a valid record, is taken for invalid because its port has become negative, and none of its tables
  enters the catalog.
\<close>

theorem high_port_node_ignored:
  assumes "hasIdempotentKey r" "VERSION_OK (rec_headers r)" "map_of (rec_headers r) ''_tcp_port'' = Some v" "stoi v = Inr p"
    "32768 \<le> p" "p \<le> 65535" "header_port (rec_headers r) ''_tcp_port_secure'' = Inr s" "s \<le> 0"
    "header_port (rec_headers r) ''_http_port'' = Inr h" "header_port (rec_headers r) ''_https_port'' = Inr hs"
  shows "processRecords uuid_of [r] cat = Some (None, cat)"
proof -
  have "int16_of p = p - 65536"
    using assms(5,6) mod_pos_pos_trivial[of "p - 32768" "2 ^ 16"] mod_add_self2[of "p - 32768" "65536"]
    by (simp add: int16_of_def add.commute)
  then have "header_port (rec_headers r) ''_tcp_port'' = Inr (p - 65536)" by (simp add: header_port_def assms(3,4))
  then show ?thesis using assms(1,2,6-10) by (simp add: Node_def node_isValid_def)
qed

definition ex_broadcast :: "string \<Rightarrow> string block wal_record" where
  "ex_broadcast port = (wal_record_new ADD_DATA_BLOCK [])\<lparr>rec_headers :=
     [(''_idem'', ''n''), (''_version'', ''1''), (''_host'', ''h''), (''_http_port'', ''8123''), (''_tcp_port'', port),
      (''_https_port'', ''-1''), (''_tcp_port_secure'', ''-1'')]\<rparr>"

theorem high_port_node_ignored_witness:
  "processRecords (\<lambda>_. 1) [ex_broadcast ''40000''] (catalog_new :: unit catalog) = Some (None, catalog_new)"
proof (rule high_port_node_ignored)
  show "hasIdempotentKey (ex_broadcast ''40000'')" "VERSION_OK (rec_headers (ex_broadcast ''40000''))"
    "map_of (rec_headers (ex_broadcast ''40000'')) ''_tcp_port'' = Some ''40000''" "stoi ''40000'' = Inr 40000"
    "header_port (rec_headers (ex_broadcast ''40000'')) ''_tcp_port_secure'' = Inr (- 1)"
    "header_port (rec_headers (ex_broadcast ''40000'')) ''_http_port'' = Inr 8123"
    "header_port (rec_headers (ex_broadcast ''40000'')) ''_https_port'' = Inr (- 1)"
    by code_simp+
qed simp_all

end
