(* ===== verification/Placement.thy ===== *)
theory Placement
  imports Catalog "HOL-Library.Product_Lexorder"
begin

text \<open>
  The choice of nodes for the shards and replicas of a new table: the metrics that nodes broadcast and
  \<^verbatim>\<open>place\<close> (\<^verbatim>\<open>src/src/DistributedMetadata/PlacementService.cpp\<close>), and \<^verbatim>\<open>DiskStrategy\<close>
  (\<^verbatim>\<open>PlacementStrategy.cpp\<close>).  The shuffle is an argument.
\<close>

section \<open>Metrics\<close>

record node_metrics =
  nm_node :: node
  nm_disk_space :: "(string \<times> nat) list"
  nm_last_heart_beat :: int
  nm_last_update_time :: int
  nm_num_of_tables :: int
  nm_staled :: bool

definition header_int64 :: "(string \<times> string) list \<Rightarrow> string \<Rightarrow> (std_error, int) result" where
  "header_int64 headers k = (case map_of headers k of None \<Rightarrow> Inr (-1) | Some v \<Rightarrow> stoll v)"

definition NodeMetrics :: "int \<Rightarrow> string \<Rightarrow> (string \<times> string) list \<Rightarrow> (std_error, node_metrics) result" where
  "NodeMetrics now ident headers =
     bind_result (Node ident headers) (\<lambda>n.
     bind_result (header_int64 headers ''_broadcast_time'') (\<lambda>hb.
     bind_result (header_int64 headers ''_tables'') (\<lambda>ts.
       Inr \<lparr>nm_node = n, nm_disk_space = [], nm_last_heart_beat = hb, nm_last_update_time = now,
            nm_num_of_tables = ts, nm_staled = False\<rparr>)))"

definition metrics_isValid :: "node_metrics \<Rightarrow> bool" where
  "metrics_isValid m \<longleftrightarrow> nm_last_heart_beat m > 0 \<and> nm_num_of_tables m \<ge> 0 \<and> node_isValid (nm_node m)"

type_synonym metrics = "(string \<times> node_metrics) list"

text \<open>The block of a metrics record is the list of its rows (policy, free space in GB).\<close>

fun disk_space_of :: "(string \<times> nat) list \<Rightarrow> (string \<times> nat) list \<Rightarrow> (string \<times> nat) list" where
  "disk_space_of [] acc = acc"
| "disk_space_of ((policy, space) # rows) acc = disk_space_of rows (emplace policy space acc)"

definition mergeMetrics ::
    "int \<Rightarrow> string \<Rightarrow> (string \<times> nat) list wal_record \<Rightarrow> metrics \<Rightarrow> (std_error, metrics) result" where
  "mergeMetrics now ident r ms =
     bind_result (NodeMetrics now ident (rec_headers r)) (\<lambda>m.
       if \<not> metrics_isValid m \<or> nd_channel (nm_node m) = [] then Inr ms
       else Inr (AList.update ident (m\<lparr>nm_disk_space := disk_space_of (rec_block r) []\<rparr>) ms))"

fun placement_processRecords ::
    "int \<Rightarrow> (string \<times> nat) list wal_record list \<Rightarrow> metrics \<Rightarrow> std_error option \<times> metrics" where
  "placement_processRecords now [] ms = (None, ms)"
| "placement_processRecords now (r # rs) ms =
     (if \<not> hasIdempotentKey r \<or> \<not> VERSION_OK (rec_headers r) then placement_processRecords now rs ms
      else
        case mergeMetrics now (the (idempotentKey r)) r ms of
          Inl e \<Rightarrow> (Some e, ms)
        | Inr ms' \<Rightarrow> placement_processRecords now rs ms')"

section \<open>Placing\<close>

definition disk_of :: "string \<Rightarrow> node_metrics \<Rightarrow> nat" where
  "disk_of policy m = (case map_of (nm_disk_space m) policy of None \<Rightarrow> 0 | Some d \<Rightarrow> d)"

definition placement_less :: "string \<Rightarrow> node_metrics \<Rightarrow> node_metrics \<Rightarrow> bool" where
  "placement_less policy l r =
     (if disk_of policy l = disk_of policy r then nm_num_of_tables l < nm_num_of_tables r
      else disk_of policy l > disk_of policy r)"

definition placement_key :: "string \<Rightarrow> node_metrics \<Rightarrow> int \<times> int" where
  "placement_key policy m = (- int (disk_of policy m), nm_num_of_tables m)"

definition eligible :: "string \<Rightarrow> node_metrics \<Rightarrow> bool" where
  "eligible policy m \<longleftrightarrow> \<not> has_infix ''search'' (nd_roles (nm_node m)) \<and> \<not> has_infix ''ingest'' (nd_roles (nm_node m))
     \<and> \<not> nm_staled m \<and> map_of (nm_disk_space m) policy \<noteq> None \<and> disk_of policy m > 0"

text \<open>\<open>shuf\<close> is the effect of \<^verbatim>\<open>std::shuffle\<close>.\<close>

definition qualifiedNodes ::
    "(node_metrics list \<Rightarrow> node_metrics list) \<Rightarrow> metrics \<Rightarrow> nat \<Rightarrow> string \<Rightarrow> node_metrics list" where
  "qualifiedNodes shuf ms requested policy =
     (if requested = 0 then []
      else
        (let qualified = filter (eligible policy) (map snd ms)
         in if length qualified < requested then []
            else take requested (sort_key (placement_key policy) (shuf qualified))))"

abbreviation STALENESS_THRESHOLD_MS :: int where "STALENESS_THRESHOLD_MS \<equiv> 10000"

definition mark_staled :: "int \<Rightarrow> node_metrics \<Rightarrow> node_metrics" where
  "mark_staled now m = (if now - nm_last_update_time m > STALENESS_THRESHOLD_MS then m\<lparr>nm_staled := True\<rparr> else m)"

text \<open>The product is in \<^verbatim>\<open>Int32\<close> (overflow is undefined), then cast to \<^verbatim>\<open>size_t\<close>.\<close>

definition place ::
    "(node_metrics list \<Rightarrow> node_metrics list) \<Rightarrow> int \<Rightarrow> int \<Rightarrow> int \<Rightarrow> string \<Rightarrow> metrics \<Rightarrow> (node_metrics list \<times> metrics) option" where
  "place shuf now shards replication policy ms =
     (if \<not> int32 (shards * replication) then None
      else
        (let total = nat ((shards * replication) mod 2 ^ 64);
             ms' = map (\<lambda>(k, m). (k, mark_staled now m)) ms
         in Some (qualifiedNodes shuf ms' total policy, ms')))"

text \<open>\<^verbatim>\<open>placed\<close>: the addresses of the nodes that have a table.\<close>

definition placed :: "'st catalog \<Rightarrow> metrics \<Rightarrow> string \<Rightarrow> string \<Rightarrow> string list" where
  "placed cat ms db nm =
     List.map_filter (\<lambda>tb. map_option (\<lambda>m. nd_host (nm_node m) @ '':'' @ writeIntText (nd_http_port (nm_node m)))
         (map_of ms (tb_node_identity tb)))
       (findTableByName db nm cat)"

section \<open>Lemmas\<close>

definition fresh_nodes :: "string \<Rightarrow> int \<Rightarrow> metrics \<Rightarrow> node_metrics list" where
  "fresh_nodes policy now ms =
     filter (\<lambda>m. eligible policy m \<and> now - nm_last_update_time m \<le> STALENESS_THRESHOLD_MS) (map snd ms)"

interpretation placement_order: std_sort "placement_less policy" "placement_key policy"
  by unfold_locales (auto simp: placement_less_def placement_key_def less_prod_def)

lemma eligible_mark:
  "eligible policy (mark_staled now m) \<longleftrightarrow> eligible policy m \<and> now - nm_last_update_time m \<le> STALENESS_THRESHOLD_MS"
  by (auto simp: eligible_def mark_staled_def disk_of_def)

lemma take_sorted_best:
  assumes "x \<in> set (take n xs)" "y \<in> set (drop n xs)" "sorted_wrt P xs"
  shows "P x y"
proof -
  have "sorted_wrt P (take n xs @ drop n xs)" using assms(3) by simp
  then show ?thesis using assms(1,2) by (simp only: sorted_wrt_append)
qed

section \<open>Claims\<close>

text \<open>
  C28.  Placement is sound and greedy.  Let the shuffle be a permutation, every node have one entry, and let at least one replica be
  asked for.  \<^verbatim>\<open>place\<close> gives up exactly when fewer nodes than replicas are eligible: heard of in the last ten
  seconds, neither an ingest nor a search node, with free space under the policy.  Otherwise it returns as many entries as replicas, all of them eligible
  and from pairwise different nodes, and no eligible node that is left out has more free space, or as much space and fewer tables, than
  one that is chosen.
\<close>

theorem place_chooses_best:
  assumes "\<And>xs. mset (shuf xs) = mset xs" "distinct (map fst ms)" "\<forall>(k, m)\<in>set ms. nd_identity (nm_node m) = k"
    "0 < shards" "0 < replication" "int32 (shards * replication)"
  shows "\<exists>chosen ms'. place shuf now shards replication policy ms = Some (chosen, ms')
    \<and> (if int (length (fresh_nodes policy now ms)) < shards * replication then chosen = []
       else int (length chosen) = shards * replication \<and> set chosen \<subseteq> set (fresh_nodes policy now ms)
         \<and> distinct (map (\<lambda>m. nd_identity (nm_node m)) chosen)
         \<and> (\<forall>x\<in>set chosen. \<forall>y\<in>set (fresh_nodes policy now ms) - set chosen. \<not> placement_less policy y x))"
proof -
  define fresh where "fresh = fresh_nodes policy now ms"
  define n where "n = nat (shards * replication)"
  have n: "0 < n" "int n = shards * replication" using assms(4,5) by (auto simp: n_def)
  have tot: "nat ((shards * replication) mod 2 ^ 64) = n"
    using assms(4-6) by (simp add: n_def int32_def)
  let ?ms = "map (\<lambda>(k, m). (k, mark_staled now m)) ms"
  have id: "mark_staled now m = m" if "now - nm_last_update_time m \<le> STALENESS_THRESHOLD_MS" for m
    using that by (simp add: mark_staled_def)
  have q: "filter (eligible policy) (map snd ?ms) = fresh"
  proof -
    have "filter (eligible policy) (map (mark_staled now) xs)
        = filter (\<lambda>m. eligible policy m \<and> now - nm_last_update_time m \<le> STALENESS_THRESHOLD_MS) xs" for xs
      by (induction xs) (auto simp: eligible_mark id)
    moreover have "map snd ?ms = map (mark_staled now) (map snd ms)" by (induction ms) auto
    ultimately show ?thesis unfolding fresh_def fresh_nodes_def by (simp only:)
  qed
  define sorted where "sorted = sort_key (placement_key policy) (shuf fresh)"
  have pl: "place shuf now shards replication policy ms
      = Some (if length fresh < n then [] else take n sorted, ?ms)"
    using assms(6) n(1) by (simp only: place_def tot qualifiedNodes_def q Let_def sorted_def) simp
  have ms: "mset sorted = mset fresh" by (simp add: sorted_def assms(1))
  then have set: "set sorted = set fresh" and len: "length sorted = length fresh"
    by (metis set_mset_mset, metis size_mset)
  have "map (\<lambda>m. nd_identity (nm_node m)) (map snd ms) = map fst ms"
    using assms(3) by (induction ms) auto
  with assms(2) have "distinct (map (\<lambda>m. nd_identity (nm_node m)) (map snd ms))" by (simp only:)
  then have df: "distinct (map (\<lambda>m. nd_identity (nm_node m)) fresh)"
    unfolding fresh_def fresh_nodes_def by (rule distinct_map_filter)
  have "mset (map (\<lambda>m. nd_identity (nm_node m)) sorted) = mset (map (\<lambda>m. nd_identity (nm_node m)) fresh)"
    unfolding mset_map ms by (rule refl)
  from mset_eq_imp_distinct_iff[OF this] df have d: "distinct (map (\<lambda>m. nd_identity (nm_node m)) sorted)" by simp
  have s: "sorted_wrt (\<lambda>x y. \<not> placement_less policy y x) sorted"
    unfolding sorted_def by (rule placement_order.sort_ordered)
  have best: "\<not> placement_less policy y x" if "x \<in> set (take n sorted)" "y \<in> set fresh - set (take n sorted)" for x y
  proof -
    have "y \<in> set (drop n sorted)" using that(2) set by (metis Diff_iff UnE append_take_drop_id set_append)
    then show ?thesis using take_sorted_best[OF that(1) _ s] by simp
  qed
  have dt: "distinct (map (\<lambda>m. nd_identity (nm_node m)) (take n sorted))"
    unfolding take_map[symmetric] using d by (rule distinct_take)
  show ?thesis
    unfolding fresh_def[symmetric] using pl best dt n set len set_take_subset[of n sorted]
    by (cases "length fresh < n") auto
qed

definition ex_metrics :: "string \<Rightarrow> nat \<Rightarrow> int \<Rightarrow> int \<Rightarrow> string \<times> node_metrics" where
  "ex_metrics ident disk tbs t = (ident, \<lparr>nm_node = \<lparr>nd_identity = ident, nd_host = ident, nd_channel = ident, nd_roles = [], nd_https_port = -1,
     nd_http_port = 8123, nd_tcp_port_secure = -1, nd_tcp_port = 9\<rparr>, nm_disk_space = [(''default'', disk)], nm_last_heart_beat = 1,
     nm_last_update_time = t, nm_num_of_tables = tbs, nm_staled = False\<rparr>)"

definition ex_nodes :: metrics where
  "ex_nodes = [ex_metrics ''a'' 5 3 0, ex_metrics ''b'' 9 7 1000, ex_metrics ''c'' 5 1 2000, ex_metrics ''d'' 7 0 (- 20000)]"

theorem place_chooses_best_witness:
  "\<exists>chosen ms'. place (\<lambda>xs. xs) 5000 1 2 ''default'' ex_nodes = Some (chosen, ms')
    \<and> length chosen = 2 \<and> map (\<lambda>m. nd_identity (nm_node m)) chosen = [''b'', ''c'']"
proof -
  have d: "distinct (map fst ex_nodes)" "\<forall>(k, m)\<in>set ex_nodes. nd_identity (nm_node m) = k" "int32 (1 * 2)"
    by code_simp+
  have f: "length (fresh_nodes ''default'' 5000 ex_nodes) = 3" by code_simp
  obtain chosen ms' where c: "place (\<lambda>xs. xs) 5000 1 2 ''default'' ex_nodes = Some (chosen, ms')" "length chosen = 2"
    using place_chooses_best[where shuf = "\<lambda>xs. xs" and ms = ex_nodes and shards = 1 and replication = 2
        and policy = "''default''" and now = 5000] d f by auto
  have "map_option (\<lambda>(c, _). map (\<lambda>m. nd_identity (nm_node m)) c) (place (\<lambda>xs. xs) 5000 1 2 ''default'' ex_nodes) = Some [''b'', ''c'']"
    by code_simp
  then show ?thesis using c by auto
qed

end
