(* ===== verification/Task_Status.thy ===== *)
theory Task_Status
  imports Commit_Blocks "HOL-Library.AList"
begin

text \<open>
  The status of distributed tasks, \<^verbatim>\<open>src/src/DistributedMetadata/TaskStatusService.cpp\<close>.  A task object is shared by the index by
  id, the index by user and the list of finished tasks, and is changed in place; the model has an explicit heap
  from addresses to task objects.
\<close>

section \<open>Tasks and their records\<close>

record task_status =
  ts_id :: string
  ts_status :: string
  ts_progress :: string
  ts_reason :: string
  ts_user :: string
  ts_context :: string
  ts_last_modified :: int
  ts_created :: int

datatype cell = Text_cell string | Int_cell int

fun cell_text :: "cell \<Rightarrow> string" where
  "cell_text (Text_cell s) = s"
| "cell_text (Int_cell i) = []"

fun cell_int :: "cell \<Rightarrow> int" where
  "cell_int (Int_cell i) = i"
| "cell_int (Text_cell s) = 0"

definition text_col :: "string \<Rightarrow> string list \<Rightarrow> cell column" where
  "text_col nm xs = \<lparr>col_name = nm, col_default = Text_cell [], col_cells = map Text_cell xs\<rparr>"

definition int_col :: "string \<Rightarrow> int list \<Rightarrow> cell column" where
  "int_col nm xs = \<lparr>col_name = nm, col_default = Int_cell 0, col_cells = map Int_cell xs\<rparr>"

definition stamp :: "int \<Rightarrow> int \<Rightarrow> int" where
  "stamp now t = (if t = -1 then now else t)"

definition task_buildBlock :: "int \<Rightarrow> task_status list \<Rightarrow> cell block" where
  "task_buildBlock now ts =
     [text_col ''id'' (map ts_id ts), text_col ''status'' (map ts_status ts), text_col ''progress'' (map ts_progress ts),
      text_col ''reason'' (map ts_reason ts), text_col ''user'' (map ts_user ts), text_col ''context'' (map ts_context ts),
      int_col ''last_modified'' (map (\<lambda>t. stamp now (ts_last_modified t)) ts),
      int_col ''created'' (map (\<lambda>t. stamp now (ts_created t)) ts)]"

definition buildRecord :: "int \<Rightarrow> task_status \<Rightarrow> cell block wal_record" where
  "buildRecord now t = wal_record_new ADD_DATA_BLOCK (task_buildBlock now [t])"

text \<open>The result of \<^verbatim>\<open>validateSchema\<close> is not used; a missing column is a null pointer.\<close>

definition column_cells :: "cell block \<Rightarrow> string \<Rightarrow> cell list option" where
  "column_cells b nm = map_option col_cells (findByName nm b)"

definition row_task :: "cell block \<Rightarrow> nat \<Rightarrow> task_status" where
  "row_task b i =
     (let f = (\<lambda>nm. the (column_cells b nm) ! i)
      in \<lparr>ts_id = cell_text (f ''id''), ts_status = cell_text (f ''status''), ts_progress = cell_text (f ''progress''),
          ts_reason = cell_text (f ''reason''), ts_user = cell_text (f ''user''), ts_context = cell_text (f ''context''),
          ts_last_modified = cell_int (f ''last_modified''), ts_created = cell_int (f ''created'')\<rparr>)"

definition buildTaskStatusFromBlock :: "cell block \<Rightarrow> task_status list option" where
  "buildTaskStatusFromBlock b =
     (if list_all (\<lambda>nm. column_cells b nm \<noteq> None)
           [''id'', ''status'', ''progress'', ''reason'', ''user'', ''context'', ''last_modified'', ''created'']
      then Some (map (row_task b) [0..<length (the (column_cells b ''id''))])
      else None)"

definition buildTaskStatusFromRecord :: "cell block wal_record \<Rightarrow> task_status option" where
  "buildTaskStatusFromRecord r =
     (case buildTaskStatusFromBlock (rec_block r) of
        None \<Rightarrow> None
      | Some [] \<Rightarrow> None
      | Some (t # _) \<Rightarrow> Some t)"

section \<open>The service\<close>

abbreviation SUCCEEDED :: string where "SUCCEEDED \<equiv> ''SUCCEEDED''"
abbreviation FAILED :: string where "FAILED \<equiv> ''FAILED''"
abbreviation CACHE_FINISHED_TASK_MS :: int where "CACHE_FINISHED_TASK_MS \<equiv> 30000"

record task_service =
  tk_heap :: "(nat \<times> task_status) list"
  tk_next :: nat
  tk_by_id :: "(string \<times> nat) list"
  tk_by_user :: "(string \<times> (string \<times> nat) list) list"
  tk_finished :: "(int \<times> nat list) list"

definition task_service_new :: task_service where
  "task_service_new = \<lparr>tk_heap = [], tk_next = 0, tk_by_id = [], tk_by_user = [], tk_finished = []\<rparr>"

definition user_map :: "task_service \<Rightarrow> string \<Rightarrow> (string \<times> nat) list" where
  "user_map st u = (case map_of (tk_by_user st) u of None \<Rightarrow> [] | Some m \<Rightarrow> m)"

definition updateTaskStatus :: "task_status \<Rightarrow> task_service \<Rightarrow> task_service" where
  "updateTaskStatus t st =
     (case map_of (tk_by_id st) (ts_id t) of
        None \<Rightarrow>
          st\<lparr>tk_heap := AList.update (tk_next st) t (tk_heap st), tk_next := tk_next st + 1,
             tk_by_id := AList.update (ts_id t) (tk_next st) (tk_by_id st),
             tk_by_user := AList.update (ts_user t) (AList.update (ts_id t) (tk_next st) (user_map st (ts_user t))) (tk_by_user st)\<rparr>
      | Some a \<Rightarrow>
          (case map_of (tk_heap st) a of
             None \<Rightarrow> st
           | Some old \<Rightarrow> st\<lparr>tk_heap := AList.update a (t\<lparr>ts_created := ts_created old\<rparr>) (tk_heap st)\<rparr>))"

fun task_processRecords :: "cell block wal_record list \<Rightarrow> task_service \<Rightarrow> task_service option" where
  "task_processRecords [] st = Some st"
| "task_processRecords (r # rs) st =
     (case buildTaskStatusFromRecord r of None \<Rightarrow> None | Some t \<Rightarrow> task_processRecords rs (updateTaskStatus t st))"

text \<open>The first loop of \<^verbatim>\<open>persistentFinishedTask\<close>, over the index by id; \<open>None\<close> is an erased iterator that does not exist.\<close>

definition is_finished :: "task_status \<Rightarrow> bool" where
  "is_finished t \<longleftrightarrow> ts_status t = SUCCEEDED \<or> ts_status t = FAILED"

definition finish_task :: "string \<Rightarrow> nat \<Rightarrow> task_status \<Rightarrow> task_service \<Rightarrow> task_service option" where
  "finish_task tid a t st =
     (case map_of (tk_by_user st) (ts_user t) of
        None \<Rightarrow> None
      | Some m \<Rightarrow>
          if map_of m tid = None then None
          else
            (let m' = AList.delete tid m;
                 old = (case map_of (tk_finished st) (ts_last_modified t) of None \<Rightarrow> [] | Some l \<Rightarrow> l)
             in Some (st\<lparr>tk_by_id := AList.delete tid (tk_by_id st),
                         tk_by_user := (if m' = [] then AList.delete (ts_user t) (tk_by_user st)
                                        else AList.update (ts_user t) m' (tk_by_user st)),
                         tk_finished := AList.update (ts_last_modified t) (old @ [a]) (tk_finished st)\<rparr>)))"

fun move_finished :: "(string \<times> nat) list \<Rightarrow> task_service \<Rightarrow> task_service option" where
  "move_finished [] st = Some st"
| "move_finished ((tid, a) # es) st =
     (case map_of (tk_heap st) a of
        None \<Rightarrow> None
      | Some t \<Rightarrow>
          if is_finished t
          then (case finish_task tid a t st of None \<Rightarrow> None | Some st' \<Rightarrow> move_finished es st')
          else move_finished es st)"

text \<open>\<open>now\<close> is the reading of \<^verbatim>\<open>MonotonicSeconds\<close>.  The result is the list that is written to the table.\<close>

definition persistentFinishedTask :: "int \<Rightarrow> task_service \<Rightarrow> (task_status list \<times> task_service) option" where
  "persistentFinishedTask now st =
     map_option (\<lambda>st1.
         (let due = filter (\<lambda>p. \<not> (now - fst p < CACHE_FINISHED_TASK_MS)) (tk_finished st1)
          in (List.map_filter (map_of (tk_heap st1)) (concat (map snd due)),
              st1\<lparr>tk_finished := filter (\<lambda>p. now - fst p < CACHE_FINISHED_TASK_MS) (tk_finished st1)\<rparr>)))
       (move_finished (tk_by_id st) st)"

definition findByIdInMemory :: "string \<Rightarrow> task_service \<Rightarrow> task_status option" where
  "findByIdInMemory tid st =
     (case map_of (tk_by_id st) tid of
        Some a \<Rightarrow> map_of (tk_heap st) a
      | None \<Rightarrow> find (\<lambda>t. ts_id t = tid) (List.map_filter (map_of (tk_heap st)) (concat (map snd (tk_finished st)))))"

definition findByUserInMemory :: "string \<Rightarrow> task_service \<Rightarrow> task_status list" where
  "findByUserInMemory user st =
     (case map_of (tk_by_user st) user of
        None \<Rightarrow> []
      | Some m \<Rightarrow>
          List.map_filter (\<lambda>p. map_of (tk_heap st) (snd p)) m
          @ filter (\<lambda>t. ts_user t = user) (List.map_filter (map_of (tk_heap st)) (concat (map snd (tk_finished st)))))"

section \<open>Lemmas\<close>

definition stamped :: "int \<Rightarrow> task_status \<Rightarrow> task_status" where
  "stamped now t = t\<lparr>ts_last_modified := stamp now (ts_last_modified t), ts_created := stamp now (ts_created t)\<rparr>"

lemma buildRecord_roundtrip: "buildTaskStatusFromRecord (buildRecord now t) = Some (stamped now t)"
  by (simp add: buildTaskStatusFromRecord_def buildTaskStatusFromBlock_def buildRecord_def wal_record_new_def task_buildBlock_def
      column_cells_def findByName_def row_task_def text_col_def int_col_def stamped_def)

lemma al_update [simp]: "map_of (AList.update k v m) k' = (if k' = k then Some v else map_of m k')"
  by (simp add: AList.update_conv')

lemma al_delete [simp]: "map_of (AList.delete k m) k' = (if k' = k then None else map_of m k')"
  by (simp add: AList.delete_conv')

text \<open>
  Every indexed task is in the heap under its id, and in the map of its owner.  The owner of a task is
  the user of its records.
\<close>

definition indexed :: "(string \<Rightarrow> string) \<Rightarrow> task_service \<Rightarrow> string \<Rightarrow> nat \<Rightarrow> bool" where
  "indexed owner st tid a \<longleftrightarrow> (\<exists>t. map_of (tk_heap st) a = Some t \<and> ts_id t = tid \<and> ts_user t = owner tid)
     \<and> map_of (user_map st (owner tid)) tid = Some a"

definition task_inv :: "(string \<Rightarrow> string) \<Rightarrow> task_service \<Rightarrow> bool" where
  "task_inv owner st \<longleftrightarrow> distinct (map fst (tk_by_id st))
     \<and> (\<forall>tid a. map_of (tk_by_id st) tid = Some a \<longrightarrow> indexed owner st tid a)
     \<and> (\<forall>a. map_of (tk_heap st) a \<noteq> None \<longrightarrow> a < tk_next st)"

lemma task_invD:
  assumes "task_inv owner st"
  shows "distinct (map fst (tk_by_id st))" "map_of (tk_by_id st) tid = Some a \<Longrightarrow> indexed owner st tid a"
    "map_of (tk_heap st) a \<noteq> None \<Longrightarrow> a < tk_next st"
  using assms unfolding task_inv_def by blast+

lemma update_new_inv:
  assumes "task_inv owner st" "ts_user t = owner (ts_id t)" "map_of (tk_by_id st) (ts_id t) = None"
  shows "task_inv owner (updateTaskStatus t st)"
proof -
  note d = task_invD[OF assms(1)]
  let ?st = "updateTaskStatus t st"
  have f: "tk_heap ?st = AList.update (tk_next st) t (tk_heap st)" "tk_next ?st = tk_next st + 1"
    "tk_by_id ?st = AList.update (ts_id t) (tk_next st) (tk_by_id st)"
    by (simp_all add: updateTaskStatus_def assms(3))
  have u: "user_map ?st u = (if u = ts_user t then AList.update (ts_id t) (tk_next st) (user_map st u) else user_map st u)" for u
    by (simp add: updateTaskStatus_def assms(3) user_map_def)
  have "indexed owner ?st tid a" if "map_of (tk_by_id ?st) tid = Some a" for tid a
  proof (cases "tid = ts_id t")
    case True
    then show ?thesis using that assms(2) by (simp add: indexed_def f u)
  next
    case False
    then have i: "indexed owner st tid a" using that d(2) by (simp add: f)
    then have "a < tk_next st" using d(3) by (auto simp: indexed_def)
    then show ?thesis using i False by (cases "owner tid = ts_user t") (simp_all add: indexed_def f u)
  qed
  moreover have "a < tk_next ?st" if "map_of (tk_heap ?st) a \<noteq> None" for a
    using that d(3)[of a] by (auto simp: f split: if_splits)
  ultimately show ?thesis using d(1) by (simp add: task_inv_def f distinct_update)
qed

lemma update_old_inv:
  assumes "task_inv owner st" "ts_user t = owner (ts_id t)" "map_of (tk_by_id st) (ts_id t) = Some a0"
  shows "task_inv owner (updateTaskStatus t st)"
    "map_of (tk_heap (updateTaskStatus t st)) a0 = Some (t\<lparr>ts_created := ts_created (the (map_of (tk_heap st) a0))\<rparr>)"
proof -
  note d = task_invD[OF assms(1)]
  let ?st = "updateTaskStatus t st"
  obtain old where old: "map_of (tk_heap st) a0 = Some old" "ts_id old = ts_id t"
    using d(2)[OF assms(3)] by (auto simp: indexed_def)
  have f: "tk_heap ?st = AList.update a0 (t\<lparr>ts_created := ts_created old\<rparr>) (tk_heap st)" "tk_next ?st = tk_next st"
    "tk_by_id ?st = tk_by_id st" and u: "user_map ?st = user_map st"
    by (simp_all add: updateTaskStatus_def assms(3) old(1) user_map_def fun_eq_iff)
  show "map_of (tk_heap ?st) a0 = Some (t\<lparr>ts_created := ts_created (the (map_of (tk_heap st) a0))\<rparr>)"
    by (simp add: f old(1))
  have "indexed owner ?st tid a" if "map_of (tk_by_id st) tid = Some a" for tid a
  proof -
    have i: "indexed owner st tid a" using d(2)[OF that] .
    then have "a = a0 \<Longrightarrow> tid = ts_id t" using old by (auto simp: indexed_def)
    then show ?thesis using i assms(2) by (auto simp: indexed_def f u)
  qed
  moreover have "a < tk_next st" if "map_of (tk_heap ?st) a \<noteq> None" for a
    using that d(3)[of a] d(3)[of a0] old(1) by (auto simp: f(1) split: if_splits)
  ultimately show "task_inv owner ?st" using d(1) by (simp add: task_inv_def f(2,3))
qed

lemma update_inv:
  assumes "task_inv owner st" "ts_user t = owner (ts_id t)"
  shows "task_inv owner (updateTaskStatus t st)"
  using update_new_inv[OF assms] update_old_inv(1)[OF assms] by (cases "map_of (tk_by_id st) (ts_id t)") auto

lemma finish_task_ok:
  assumes "task_inv owner st" "map_of (tk_by_id st) tid = Some a" "map_of (tk_heap st) a = Some t"
  shows "\<exists>st'. finish_task tid a t st = Some st' \<and> task_inv owner st' \<and> tk_heap st' = tk_heap st
    \<and> tk_by_id st' = AList.delete tid (tk_by_id st)"
proof -
  note d = task_invD[OF assms(1)]
  have i: "ts_user t = owner tid" "map_of (user_map st (owner tid)) tid = Some a"
    using d(2)[OF assms(2)] assms(3) by (auto simp: indexed_def)
  then obtain m where m: "map_of (tk_by_user st) (owner tid) = Some m" "map_of m tid = Some a"
    by (auto simp: user_map_def split: option.splits)
  define m' where "m' = AList.delete tid m"
  obtain st' where st': "finish_task tid a t st = Some st'"
    and f: "tk_heap st' = tk_heap st" "tk_next st' = tk_next st" "tk_by_id st' = AList.delete tid (tk_by_id st)"
      "tk_by_user st' = (if m' = [] then AList.delete (owner tid) (tk_by_user st) else AList.update (owner tid) m' (tk_by_user st))"
    using m i(1) by (simp add: finish_task_def Let_def m'_def)
  have u: "map_of (user_map st' v) x = (if v = owner tid \<and> x = tid then None else map_of (user_map st v) x)" for v x
  proof (cases "v = owner tid")
    case True
    have "map_of m' x = (if x = tid then None else map_of m x)" by (simp add: m'_def)
    then show ?thesis using True m(1) by (auto simp: user_map_def f(4) split: if_splits)
  qed (simp add: user_map_def f(4))
  have "indexed owner st' x b" if "map_of (tk_by_id st') x = Some b" for x b
  proof -
    have x: "x \<noteq> tid" "map_of (tk_by_id st) x = Some b" using that by (auto simp: f(3) split: if_splits)
    from d(2)[OF x(2)] show ?thesis using x(1) by (simp add: indexed_def f(1) u)
  qed
  then have "task_inv owner st'" using d(1,3) by (simp add: task_inv_def f(1-3) distinct_delete)
  then show ?thesis using st' f by blast
qed

lemma move_finished_ok:
  assumes "task_inv owner st" "\<forall>(tid, a)\<in>set es. map_of (tk_by_id st) tid = Some a" "distinct (map fst es)"
  shows "\<exists>st'. move_finished es st = Some st' \<and> task_inv owner st'"
  using assms
proof (induction es arbitrary: st)
  case (Cons e es)
  obtain tid a where e: "e = (tid, a)" by fastforce
  have a: "map_of (tk_by_id st) tid = Some a" using Cons.prems(2) by (simp add: e)
  obtain t where t: "map_of (tk_heap st) a = Some t"
    using task_invD(2)[OF Cons.prems(1) a] by (auto simp: indexed_def)
  show ?case
  proof (cases "is_finished t")
    case True
    from finish_task_ok[OF Cons.prems(1) a t] obtain st1 where
      s: "finish_task tid a t st = Some st1" "task_inv owner st1" "tk_by_id st1 = AList.delete tid (tk_by_id st)" by blast
    have "tid \<notin> fst ` set es" using Cons.prems(3) by (simp add: e)
    then have "\<forall>(x, b)\<in>set es. map_of (tk_by_id st1) x = Some b" using Cons.prems(2) by (force simp: s(3))
    from Cons.IH[OF s(2) this] Cons.prems(3) show ?thesis using True t s(1) by (simp add: e)
  next
    case False
    from Cons.IH[OF Cons.prems(1)] Cons.prems(2,3) show ?thesis using False t by (simp add: e)
  qed
qed simp

lemma persist_inv:
  assumes "task_inv owner st"
  shows "\<exists>p st'. persistentFinishedTask now st = Some (p, st') \<and> task_inv owner st'"
proof -
  note d = task_invD(1)[OF assms]
  have "\<forall>(tid, a)\<in>set (tk_by_id st). map_of (tk_by_id st) tid = Some a" using d by (auto simp: map_of_is_SomeI)
  from move_finished_ok[OF assms this d] obtain st1 where s: "move_finished (tk_by_id st) st = Some st1" "task_inv owner st1" by blast
  have "task_inv owner (st1\<lparr>tk_finished := x\<rparr>)" for x
    using s(2) by (simp add: task_inv_def indexed_def user_map_def)
  then show ?thesis using s(1) by (simp add: persistentFinishedTask_def Let_def)
qed

section \<open>Claims\<close>

text \<open>A life of the service: tasks whose records are consumed, and runs of the background job.\<close>

datatype task_event = Append_task int task_status | Persist int

fun task_run :: "task_event list \<Rightarrow> task_service \<Rightarrow> task_service option" where
  "task_run [] st = Some st"
| "task_run (Append_task now t # evs) st =
     (case task_processRecords [buildRecord now t] st of None \<Rightarrow> None | Some st' \<Rightarrow> task_run evs st')"
| "task_run (Persist now # evs) st =
     (case persistentFinishedTask now st of None \<Rightarrow> None | Some (_, st') \<Rightarrow> task_run evs st')"

fun owned :: "(string \<Rightarrow> string) \<Rightarrow> task_event \<Rightarrow> bool" where
  "owned owner (Append_task _ t) = (ts_user t = owner (ts_id t))"
| "owned owner (Persist _) = True"

lemma process_one: "task_processRecords [buildRecord now t] st = Some (updateTaskStatus (stamped now t) st)"
  by (simp add: buildRecord_roundtrip)

lemma stamped_simps [simp]:
  "ts_id (stamped now t) = ts_id t" "ts_status (stamped now t) = ts_status t" "ts_progress (stamped now t) = ts_progress t"
  "ts_reason (stamped now t) = ts_reason t" "ts_user (stamped now t) = ts_user t" "ts_context (stamped now t) = ts_context t"
  "ts_last_modified (stamped now t) = stamp now (ts_last_modified t)"
  by (simp_all add: stamped_def)

lemma task_run_inv:
  assumes "task_inv owner st" "list_all (owned owner) evs"
  shows "\<exists>st'. task_run evs st = Some st' \<and> task_inv owner st'"
  using assms
proof (induction evs arbitrary: st)
  case (Cons ev evs)
  show ?case
  proof (cases ev)
    case (Append_task now t)
    have "task_inv owner (updateTaskStatus (stamped now t) st)"
      by (rule update_inv[OF Cons.prems(1)]) (use Cons.prems(2) in \<open>simp add: Append_task\<close>)
    from Cons.IH[OF this] Cons.prems(2) show ?thesis
      by (simp add: Append_task process_one del: task_processRecords.simps)
  next
    case (Persist now)
    from persist_inv[OF Cons.prems(1), of now] obtain p st1 where
      s: "persistentFinishedTask now st = Some (p, st1)" "task_inv owner st1" by blast
    from Cons.IH[OF s(2)] Cons.prems(2) show ?thesis by (simp add: Persist s(1))
  qed
qed simp

lemma updated_task:
  assumes "task_inv owner st" "ts_user t = owner (ts_id t)"
  shows "\<exists>a t'. map_of (tk_by_id (updateTaskStatus t st)) (ts_id t) = Some a
    \<and> map_of (tk_heap (updateTaskStatus t st)) a = Some t' \<and> t'\<lparr>ts_created := ts_created t\<rparr> = t"
proof (cases "map_of (tk_by_id st) (ts_id t)")
  case None
  then show ?thesis by (simp add: updateTaskStatus_def)
next
  case (Some a)
  have "tk_by_id (updateTaskStatus t st) = tk_by_id st"
    by (simp add: updateTaskStatus_def Some split: option.split)
  then show ?thesis using update_old_inv(2)[OF assms Some] Some by simp
qed

lemma map_filter_mem: "x \<in> set xs \<Longrightarrow> f x = Some y \<Longrightarrow> y \<in> set (List.map_filter f xs)"
  by (induction xs) (auto simp: List.map_filter_def)

text \<open>
  C30.  Updates of tasks are visible.  As long as the records of a task name the same user, whatever tasks were appended and however often the
  background job ran, nothing undefined happens, and once the record of a task is consumed, a search by its id finds
  the task with the status, progress, reason, user, context and time of the record, and a search by its user lists it.
\<close>

theorem task_update_visible:
  assumes "list_all (owned owner) evs" "ts_user t = owner (ts_id t)"
  shows "\<exists>st st' t'. task_run evs task_service_new = Some st \<and> task_processRecords [buildRecord now t] st = Some st'
    \<and> findByIdInMemory (ts_id t) st' = Some t' \<and> t' \<in> set (findByUserInMemory (ts_user t) st')
    \<and> t'\<lparr>ts_created := 0\<rparr> = (stamped now t)\<lparr>ts_created := 0\<rparr>"
proof -
  have "task_inv owner task_service_new" by (simp add: task_inv_def task_service_new_def)
  from task_run_inv[OF this assms(1)] obtain st where st: "task_run evs task_service_new = Some st" "task_inv owner st" by blast
  let ?st' = "updateTaskStatus (stamped now t) st"
  have u: "ts_user (stamped now t) = owner (ts_id (stamped now t))" using assms(2) by simp
  from updated_task[OF st(2) u] obtain a t' where
    t': "map_of (tk_by_id ?st') (ts_id t) = Some a" "map_of (tk_heap ?st') a = Some t'"
      "t'\<lparr>ts_created := ts_created (stamped now t)\<rparr> = stamped now t" by auto
  have "indexed owner ?st' (ts_id t) a" by (rule task_invD(2)[OF update_inv[OF st(2) u] t'(1)])
  then obtain m where m: "map_of (tk_by_user ?st') (owner (ts_id t)) = Some m" "map_of m (ts_id t) = Some a"
    by (auto simp: indexed_def user_map_def split: option.splits)
  have "t' \<in> set (List.map_filter (\<lambda>p. map_of (tk_heap ?st') (snd p)) m)"
    by (rule map_filter_mem[OF map_of_SomeD[OF m(2)]]) (simp add: t'(2))
  then have "t' \<in> set (findByUserInMemory (ts_user t) ?st')"
    using m(1) assms(2) by (simp add: findByUserInMemory_def)
  moreover have "findByIdInMemory (ts_id t) ?st' = Some t'" by (simp add: findByIdInMemory_def t')
  moreover have "t'\<lparr>ts_created := 0\<rparr> = (stamped now t)\<lparr>ts_created := 0\<rparr>"
    using arg_cong[OF t'(3), of "\<lambda>x. x\<lparr>ts_created := 0\<rparr>"] by simp
  ultimately show ?thesis using st(1) process_one by blast
qed

definition ex_task_status :: "string \<Rightarrow> string \<Rightarrow> task_status" where
  "ex_task_status tid status = \<lparr>ts_id = tid, ts_status = status, ts_progress = [], ts_reason = [], ts_user = ''bob'', ts_context = [],
     ts_last_modified = -1, ts_created = -1\<rparr>"

definition ex_task_events :: "task_event list" where
  "ex_task_events = [Append_task 1600000000000 (ex_task_status ''1'' ''SUBMITTED''),
     Append_task 1600000000100 (ex_task_status ''2'' ''SUBMITTED''), Append_task 1600000000200 (ex_task_status ''1'' SUCCEEDED), Persist 5000]"

theorem task_update_visible_witness:
  "\<exists>st st' t'. task_run ex_task_events task_service_new = Some st
    \<and> task_processRecords [buildRecord 1600000000300 (ex_task_status ''2'' FAILED)] st = Some st'
    \<and> findByIdInMemory ''2'' st' = Some t' \<and> t' \<in> set (findByUserInMemory ''bob'' st')"
proof -
  have "list_all (owned (\<lambda>_. ''bob'')) ex_task_events" "ts_user (ex_task_status ''2'' FAILED) = ''bob''"
    by (simp_all add: ex_task_events_def ex_task_status_def)
  from task_update_visible[OF this(1), of "ex_task_status ''2'' FAILED" 1600000000300] show ?thesis
    by (simp add: ex_task_status_def) blast
qed

definition recent :: "task_service \<Rightarrow> bool" where
  "recent st \<longleftrightarrow> (\<forall>p\<in>set (tk_heap st). 10 ^ 12 \<le> ts_last_modified (snd p)) \<and> (\<forall>k\<in>set (map fst (tk_finished st)). 10 ^ 12 \<le> k)"

lemma finish_task_recent:
  assumes "finish_task tid a t st = Some st'" "recent st" "map_of (tk_heap st) a = Some t"
  shows "recent st'"
proof -
  obtain l where l: "tk_heap st' = tk_heap st" "tk_finished st' = AList.update (ts_last_modified t) l (tk_finished st)"
    using assms(1) by (auto simp: finish_task_def Let_def split: option.splits if_splits)
  have "10 ^ 12 \<le> ts_last_modified t" using assms(2) map_of_SomeD[OF assms(3)] unfolding recent_def by force
  then show ?thesis using assms(2) unfolding recent_def l AList.update_keys by auto
qed

lemma move_finished_recent: "move_finished es st = Some st' \<Longrightarrow> recent st \<Longrightarrow> recent st'"
  by (induction es st rule: move_finished.induct) (auto split: option.splits if_splits intro: finish_task_recent)


definition ex_service :: task_service where
  "ex_service = updateTaskStatus (stamped 1600000000000 (ex_task_status ''1'' SUCCEEDED)) task_service_new"


text \<open>
  The tasks of a user disappear when the last of them finishes.  After the background job has moved the only task of a user to the
  finished tasks, a search by id still finds it, and a search by user, which stops when the user has no running task, finds nothing.
\<close>

theorem finished_hidden_from_user:
  assumes "is_finished t" "now - ts_last_modified t < CACHE_FINISHED_TASK_MS"
  shows "\<exists>st. persistentFinishedTask now (updateTaskStatus t task_service_new) = Some ([], st)
    \<and> findByIdInMemory (ts_id t) st = Some t \<and> findByUserInMemory (ts_user t) st = []"
  using assms
  by (simp add: persistentFinishedTask_def updateTaskStatus_def task_service_new_def user_map_def finish_task_def
      findByIdInMemory_def findByUserInMemory_def List.map_filter_def Let_def)

theorem finished_hidden_from_user_witness:
  "\<exists>st. persistentFinishedTask 5000 ex_service = Some ([], st) \<and> findByUserInMemory ''bob'' st = []"
proof -
  have "is_finished (stamped 1600000000000 (ex_task_status ''1'' SUCCEEDED))"
    "5000 - ts_last_modified (stamped 1600000000000 (ex_task_status ''1'' SUCCEEDED)) < CACHE_FINISHED_TASK_MS"
    "ts_user (stamped 1600000000000 (ex_task_status ''1'' SUCCEEDED)) = ''bob''"
    by code_simp+
  from finished_hidden_from_user[OF this(1,2)] this(3) show ?thesis by (auto simp: ex_service_def)
qed

end
