(* ===== verification/Keeper_Sessions.thy ===== *)
theory Keeper_Sessions
  imports Daisy_Prelude "HOL-Library.AList" "HOL-Library.Signed_Division"
begin

text \<open>
  \<^verbatim>\<open>SessionExpiryQueue\<close> of the Keeper (\<^verbatim>\<open>Coordination/SessionExpiryQueue.{h,cpp}\<close>): sessions in buckets
  by the end of the interval in which they expire.  The two unordered maps are association lists
  and the sets of sessions lists, both in the order in which the code would walk them.  Times are
  milliseconds; every operation gets the reading of the system clock it makes as an argument.
\<close>

type_synonym i64 = "64 word"
type_synonym i32 = "32 word"
type_synonym session = i64

record session_queue =
  session_to_timeout :: "(session \<times> int) list"
  expiry_to_sessions :: "(int \<times> session list) list"
  expiration_interval :: int
  next_expiration_time :: int

definition roundToNextInterval :: "int \<Rightarrow> int \<Rightarrow> int" where
  "roundToNextInterval interval time = (time sdiv interval + 1) * interval"

definition sq_new :: "int \<Rightarrow> int \<Rightarrow> session_queue" where
  "sq_new interval now =
     \<lparr>session_to_timeout = [], expiry_to_sessions = [], expiration_interval = interval,
      next_expiration_time = roundToNextInterval interval now\<rparr>"

definition bucket :: "session_queue \<Rightarrow> int \<Rightarrow> session list" where
  "bucket q e = (case map_of (expiry_to_sessions q) e of None \<Rightarrow> [] | Some ss \<Rightarrow> ss)"

text \<open>\<^verbatim>\<open>set_it->second.insert(session_id)\<close>, with the empty set emplaced first when there is none.\<close>

definition bucket_insert :: "int \<Rightarrow> session \<Rightarrow> session_queue \<Rightarrow> session_queue" where
  "bucket_insert e s q =
     q\<lparr>expiry_to_sessions := AList.update e (List.insert s (bucket q e)) (expiry_to_sessions q)\<rparr>"

definition bucket_erase :: "int \<Rightarrow> session \<Rightarrow> session_queue \<Rightarrow> session_queue" where
  "bucket_erase e s q = q\<lparr>expiry_to_sessions := AList.map_entry e (removeAll s) (expiry_to_sessions q)\<rparr>"

definition sq_remove :: "session \<Rightarrow> session_queue \<Rightarrow> bool \<times> session_queue" where
  "sq_remove s q =
     (case map_of (session_to_timeout q) s of
        None \<Rightarrow> (False, q)
      | Some e \<Rightarrow> (True, bucket_erase e s q))"

definition sq_update :: "int \<Rightarrow> session \<Rightarrow> int \<Rightarrow> session_queue \<Rightarrow> bool \<times> session_queue" where
  "sq_update now s timeout_ms q =
     (let new_expiry_time = roundToNextInterval (expiration_interval q) (now + timeout_ms) in
      case map_of (session_to_timeout q) s of
        Some prev_expiry_time \<Rightarrow>
          if new_expiry_time = prev_expiry_time then (False, q)
          else
            let q1 = bucket_insert new_expiry_time s q;
                q2 = bucket_erase prev_expiry_time s q1
            in (True, q2\<lparr>session_to_timeout := AList.update s new_expiry_time (session_to_timeout q2)\<rparr>)
      | None \<Rightarrow>
          (False, bucket_insert new_expiry_time s
                    (q\<lparr>session_to_timeout := AList.update s new_expiry_time (session_to_timeout q)\<rparr>)))"

definition sq_getExpiredSessions :: "int \<Rightarrow> session_queue \<Rightarrow> session list \<times> session_queue" where
  "sq_getExpiredSessions now q =
     (if now < next_expiration_time q then ([], q)
      else
        let expiring = next_expiration_time q;
            q1 = q\<lparr>next_expiration_time := expiring + expiration_interval q\<rparr>
        in (case map_of (expiry_to_sessions q) expiring of
              None \<Rightarrow> ([], q1)
            | Some result \<Rightarrow> (result, q1\<lparr>expiry_to_sessions := AList.delete expiring (expiry_to_sessions q1)\<rparr>)))"

definition sq_clear :: "session_queue \<Rightarrow> session_queue" where
  "sq_clear q = q\<lparr>session_to_timeout := [], expiry_to_sessions := []\<rparr>"

text \<open>Polls one after the other at the given clock readings.\<close>

fun sq_polls :: "int list \<Rightarrow> session_queue \<Rightarrow> session list list \<times> session_queue" where
  "sq_polls [] q = ([], q)"
| "sq_polls (now # nows) q =
     (let (r, q1) = sq_getExpiredSessions now q; (rs, q2) = sq_polls nows q1 in (r # rs, q2))"

section \<open>A session waits in one bucket\<close>

definition sq_inv :: "session_queue \<Rightarrow> bool" where
  "sq_inv q \<longleftrightarrow> 0 < expiration_interval q
     \<and> expiration_interval q dvd next_expiration_time q
     \<and> (\<forall>e s. s \<in> set (bucket q e) \<longrightarrow>
           map_of (session_to_timeout q) s = Some e \<and> expiration_interval q dvd e)"

lemma roundToNextInterval_dvd [simp]: "i dvd roundToNextInterval i t"
  by (simp add: roundToNextInterval_def)

lemma sdiv_nonneg: "0 \<le> (t::int) \<Longrightarrow> 0 < i \<Longrightarrow> t sdiv i = t div i"
  by (simp add: signed_divide_int_def sgn_if)

lemma roundToNextInterval_bounds:
  assumes "0 < i" and "0 \<le> t"
  shows "t < roundToNextInterval i t" and "roundToNextInterval i t \<le> t + i"
proof -
  have e: "roundToNextInterval i t = t - t mod i + i"
    using assms by (simp add: roundToNextInterval_def sdiv_nonneg distrib_right minus_mod_eq_div_mult)
  show "t < roundToNextInterval i t" using pos_mod_bound [OF assms(1), of t] by (simp add: e)
  show "roundToNextInterval i t \<le> t + i" using pos_mod_sign [OF assms(1), of t] by (simp add: e)
qed

lemma bucket_simps [simp]:
  "bucket (bucket_insert e s q) e' = (if e' = e then List.insert s (bucket q e) else bucket q e')"
  "bucket (bucket_erase e s q) e' = (if e' = e then removeAll s (bucket q e) else bucket q e')"
  "session_to_timeout (bucket_insert e s q) = session_to_timeout q"
  "session_to_timeout (bucket_erase e s q) = session_to_timeout q"
  "expiration_interval (bucket_insert e s q) = expiration_interval q"
  "expiration_interval (bucket_erase e s q) = expiration_interval q"
  "next_expiration_time (bucket_insert e s q) = next_expiration_time q"
  "next_expiration_time (bucket_erase e s q) = next_expiration_time q"
  "bucket (q\<lparr>session_to_timeout := m\<rparr>) e' = bucket q e'"
  "bucket (q\<lparr>next_expiration_time := x\<rparr>) e' = bucket q e'"
  by (auto simp: bucket_def bucket_insert_def bucket_erase_def update_conv' map_of_map_entry split: option.splits)

lemma sq_new_inv: "0 < interval \<Longrightarrow> sq_inv (sq_new interval now)"
  by (simp add: sq_inv_def sq_new_def bucket_def)

lemma sq_remove_inv: "sq_inv q \<Longrightarrow> sq_inv (snd (sq_remove s q))"
  by (auto simp: sq_inv_def sq_remove_def split: option.splits if_splits)

lemma sq_update_inv: "sq_inv q \<Longrightarrow> sq_inv (snd (sq_update now s timeout q))"
  by (auto simp: sq_inv_def sq_update_def Let_def update_conv' split: option.splits if_splits)


lemma sq_getExpired_early: "now < next_expiration_time q \<Longrightarrow> sq_getExpiredSessions now q = ([], q)"
  by (simp add: sq_getExpiredSessions_def)

lemma sq_getExpired_due:
  assumes "\<not> now < next_expiration_time q" and "sq_getExpiredSessions now q = (r, q1)"
  shows "r = bucket q (next_expiration_time q)"
    and "bucket q1 e = (if e = next_expiration_time q then [] else bucket q e)"
    and "next_expiration_time q1 = next_expiration_time q + expiration_interval q"
    and "expiration_interval q1 = expiration_interval q" "session_to_timeout q1 = session_to_timeout q"
  using assms
  by (auto simp: sq_getExpiredSessions_def Let_def bucket_def delete_conv' split: option.splits)

lemma sq_getExpired_inv:
  assumes "sq_inv q" and "sq_getExpiredSessions now q = (r, q1)"
  shows "sq_inv q1"
proof (cases "now < next_expiration_time q")
  case True
  then show ?thesis using assms by (simp add: sq_getExpired_early)
next
  case False
  show ?thesis
    using assms(1) sq_getExpired_due [OF False assms(2)] by (auto simp: sq_inv_def split: if_splits)
qed

text \<open>A poll reports a bucket only when the clock has reached its end.\<close>

lemma sq_polls_not_early:
  assumes "sq_polls nows q = (rs, q')" and "sq_inv q" and "i < length nows" and "s \<in> set (rs ! i)"
  shows "\<exists>e. map_of (session_to_timeout q) s = Some e \<and> s \<in> set (bucket q e) \<and> e \<le> nows ! i"
  using assms
proof (induction nows arbitrary: q rs i)
  case (Cons now nows)
  obtain r q1 where g: "sq_getExpiredSessions now q = (r, q1)" by fastforce
  obtain rs' where rs': "sq_polls nows q1 = (rs', q')" "rs = r # rs'"
    using Cons.prems(1) g by (auto split: prod.splits)
  note inv = sq_getExpired_inv [OF Cons.prems(2) g]
  show ?case
  proof (cases "now < next_expiration_time q")
    case True
    then have "r = []" "q1 = q" using g by (simp_all add: sq_getExpired_early)
    then show ?thesis using Cons rs' by (cases i) auto
  next
    case False
    note due = sq_getExpired_due [OF False g]
    show ?thesis
    proof (cases i)
      case 0
      then show ?thesis using Cons.prems rs' due(1) False by (auto simp: sq_inv_def)
    next
      case (Suc j)
      then show ?thesis using Cons.IH [OF rs'(1) inv, of j] Cons.prems rs' due
        by (auto split: if_splits)
    qed
  qed
qed simp

text \<open>Every poll at or after the end of the bucket advances by one interval, until it is reached.\<close>

lemma sq_polls_due:
  assumes "sq_polls nows q = (rs, q')" and "sq_inv q"
    and "s \<in> set (bucket q e)" and "next_expiration_time q \<le> e"
    and "\<forall>now \<in> set nows. e \<le> now"
    and "nat ((e - next_expiration_time q) div expiration_interval q) < length nows"
  shows "s \<in> set (rs ! nat ((e - next_expiration_time q) div expiration_interval q))"
  using assms
proof (induction nows arbitrary: q rs)
  case (Cons now nows)
  obtain r q1 where g: "sq_getExpiredSessions now q = (r, q1)" by fastforce
  obtain rs' where rs': "sq_polls nows q1 = (rs', q')" "rs = r # rs'"
    using Cons.prems(1) g by (auto split: prod.splits)
  have False': "\<not> now < next_expiration_time q" using Cons.prems(4,5) by simp
  note due = sq_getExpired_due [OF False' g]
  let ?i = "expiration_interval q"
  have i: "0 < ?i" "?i dvd e - next_expiration_time q"
    using Cons.prems(2,3) by (auto simp: sq_inv_def)
  show ?case
  proof (cases "e = next_expiration_time q")
    case True
    then show ?thesis using Cons.prems(3) rs'(2) due(1) by simp
  next
    case False
    with Cons.prems(4) i have ge: "?i \<le> e - next_expiration_time q"
      by (intro zdvd_imp_le) simp_all
    have e1: "e - next_expiration_time q1 = (e - next_expiration_time q) + (- 1) * ?i"
      using due(3) by simp
    have n: "(e - next_expiration_time q1) div ?i = (e - next_expiration_time q) div ?i - 1"
      unfolding e1 using i(1) by (subst div_mult_self1) auto
    have pos: "1 \<le> (e - next_expiration_time q) div ?i"
      using zdiv_mono1 [OF ge i(1)] i(1) by simp
    have "s \<in> set (rs' ! nat ((e - next_expiration_time q1) div expiration_interval q1))"
    proof (rule Cons.IH [OF rs'(1) sq_getExpired_inv [OF Cons.prems(2) g]])
      show "s \<in> set (bucket q1 e)" using Cons.prems(3) False due(2) by simp
      show "next_expiration_time q1 \<le> e" using ge due(3) by simp
      show "\<forall>now \<in> set nows. e \<le> now" using Cons.prems(5) by simp
      show "nat ((e - next_expiration_time q1) div expiration_interval q1) < length nows"
        using Cons.prems(6) n pos due(4) by simp
    qed
    moreover have "nat ((e - next_expiration_time q) div ?i) = Suc (nat ((e - next_expiration_time q1) div ?i))"
      using n pos by simp
    ultimately show ?thesis using rs'(2) due(4) by simp
  qed
qed simp

text \<open>
  A session the queue keeps: either it is new, or its last bucket has been reported, or it is in
  its bucket.  Only a removed session is not kept.
\<close>

definition sq_keeps :: "session \<Rightarrow> session_queue \<Rightarrow> bool" where
  "sq_keeps s q \<longleftrightarrow>
     (case map_of (session_to_timeout q) s of
        None \<Rightarrow> True
      | Some e \<Rightarrow> e < next_expiration_time q \<or> s \<in> set (bucket q e))"

lemma sq_update_bucket:
  assumes "sq_inv q" and "sq_keeps s q"
    and "next_expiration_time q \<le> roundToNextInterval (expiration_interval q) (now + timeout)"
  shows "s \<in> set (bucket (snd (sq_update now s timeout q))
                   (roundToNextInterval (expiration_interval q) (now + timeout)))"
  using assms by (auto simp: sq_update_def sq_keeps_def Let_def split: option.splits)

lemma sq_update_fields [simp]:
  "next_expiration_time (snd (sq_update now s timeout q)) = next_expiration_time q"
  "expiration_interval (snd (sq_update now s timeout q)) = expiration_interval q"
  by (auto simp: sq_update_def Let_def split: option.splits)

lemma sq_update_timeout:
  "map_of (session_to_timeout (snd (sq_update now s timeout q))) s =
     Some (roundToNextInterval (expiration_interval q) (now + timeout))"
  by (auto simp: sq_update_def Let_def update_conv' split: option.splits)



definition sample_queue :: session_queue where
  "sample_queue = snd (sq_update 1000 7 3000 (sq_new 500 1000))"

definition sample_polls :: "int list" where
  "sample_polls = [1600, 4600, 4600, 4600, 4600, 4600, 4600, 4600]"


end
