(* ===== verification/Keeper_Protocol.thy ===== *)
theory Keeper_Protocol
  imports Keeper_Sessions
begin

text \<open>
  The requests and responses of the ZooKeeper protocol as the Keeper sees them
  (\<^verbatim>\<open>Common/ZooKeeper/IKeeper.h\<close>, \<^verbatim>\<open>ZooKeeperCommon.h\<close>, \<^verbatim>\<open>ZooKeeperConstants.h\<close>).  A request is its
  transaction number, its watch flag and a body with one constructor per class; a response has the
  four fields every response has and a body.  64-bit and 32-bit integers keep their width and are
  read as signed where the code compares them.
\<close>

datatype zk_error =
    ZOK | ZSYSTEMERROR | ZRUNTIMEINCONSISTENCY | ZDATAINCONSISTENCY | ZCONNECTIONLOSS
  | ZMARSHALLINGERROR | ZUNIMPLEMENTED | ZOPERATIONTIMEOUT | ZBADARGUMENTS | ZINVALIDSTATE
  | ZAPIERROR | ZNONODE | ZNOAUTH | ZBADVERSION | ZNOCHILDRENFOREPHEMERALS | ZNODEEXISTS
  | ZNOTEMPTY | ZSESSIONEXPIRED | ZINVALIDCALLBACK | ZINVALIDACL | ZAUTHFAILED | ZCLOSING
  | ZNOTHING | ZSESSIONMOVED

datatype zk_event = CREATED | DELETED | CHANGED | CHILD | SESSION | NOTWATCHING

datatype op_num =
    OpClose | OpError | OpCreate | OpRemove | OpExists | OpGet | OpSet | OpSimpleList | OpSync
  | OpHeartbeat | OpList | OpCheck | OpMulti | OpAuth | OpSessionID

record acl =
  permissions :: i32
  scheme_name :: string
  acl_id :: string

record stat =
  czxid :: i64
  mzxid :: i64
  ctime :: i64
  mtime :: i64
  version :: i32
  cversion :: i32
  aversion :: i32
  ephemeralOwner :: i64
  dataLength :: i32
  numChildren :: i32
  pzxid :: i64

definition stat_zero :: stat where
  "stat_zero = \<lparr>czxid = 0, mzxid = 0, ctime = 0, mtime = 0, version = 0, cversion = 0, aversion = 0,
     ephemeralOwner = 0, dataLength = 0, numChildren = 0, pzxid = 0\<rparr>"

datatype zk_request =
    ZkRequest (rq_xid: i32) (rq_has_watch: bool) (rq_body: zk_request_body)
and zk_request_body =
    HeartbeatRequest
  | SyncRequest string
  | AuthRequest i32 string string
  | CloseRequest
  | CreateRequest string string "acl list" bool bool
  | RemoveRequest string i32
  | ExistsRequest string
  | GetRequest string
  | SetRequest string string i32
  | SimpleListRequest string
  | ListRequest string
  | CheckRequest string i32
  | MultiRequest "zk_request list"
  | SessionIDRequest i64 i64 i32

datatype zk_response =
    ZkResponse (rs_xid: i32) (rs_zxid: i64) (rs_error: zk_error) (rs_body: zk_response_body)
and zk_response_body =
    HeartbeatResponse
  | SyncResponse string
  | AuthResponse
  | CloseResponse
  | CreateResponse string
  | RemoveResponse
  | ExistsResponse stat
  | GetResponse string stat
  | SetResponse stat
  | ListResponse "string set" stat
  | CheckResponse
  | ErrorResponse
  | MultiResponse "zk_response list"
  | SessionIDResponse i64 i64 i32
  | WatchResponse string zk_event

fun getOpNum :: "zk_request_body \<Rightarrow> op_num" where
  "getOpNum HeartbeatRequest = OpHeartbeat"
| "getOpNum (SyncRequest path) = OpSync"
| "getOpNum (AuthRequest type scheme data) = OpAuth"
| "getOpNum CloseRequest = OpClose"
| "getOpNum (CreateRequest path data acls ephemeral sequential) = OpCreate"
| "getOpNum (RemoveRequest path ver) = OpRemove"
| "getOpNum (ExistsRequest path) = OpExists"
| "getOpNum (GetRequest path) = OpGet"
| "getOpNum (SetRequest path data ver) = OpSet"
| "getOpNum (SimpleListRequest path) = OpSimpleList"
| "getOpNum (ListRequest path) = OpList"
| "getOpNum (CheckRequest path ver) = OpCheck"
| "getOpNum (MultiRequest requests) = OpMulti"
| "getOpNum (SessionIDRequest internal_id timeout server_id) = OpSessionID"

fun getPath :: "zk_request_body \<Rightarrow> string" where
  "getPath (SyncRequest path) = path"
| "getPath (CreateRequest path data acls ephemeral sequential) = path"
| "getPath (RemoveRequest path ver) = path"
| "getPath (ExistsRequest path) = path"
| "getPath (GetRequest path) = path"
| "getPath (SetRequest path data ver) = path"
| "getPath (SimpleListRequest path) = path"
| "getPath (ListRequest path) = path"
| "getPath (CheckRequest path ver) = path"
| "getPath _ = []"

text \<open>Requests a server may answer from its own state, without the quorum.\<close>

fun isReadRequest :: "zk_request \<Rightarrow> bool" where
  "isReadRequest (ZkRequest xid has_watch body) =
     (case body of
        ExistsRequest _ \<Rightarrow> \<not> has_watch
      | GetRequest _ \<Rightarrow> \<not> has_watch
      | SimpleListRequest _ \<Rightarrow> \<not> has_watch
      | ListRequest _ \<Rightarrow> \<not> has_watch
      | CheckRequest _ _ \<Rightarrow> \<not> has_watch
      | _ \<Rightarrow> False)"

text \<open>
  \<^verbatim>\<open>makeResponse\<close>: the response class of a request.  A \<open>SimpleListRequest\<close> inherits that of
  \<open>ListRequest\<close>.  The fields a request has not filled in are never written, since the response
  then has an error; the model gives them zero values.
\<close>

fun makeResponse :: "zk_request \<Rightarrow> zk_response" and makeResponseBody :: "zk_request_body \<Rightarrow> zk_response_body" where
  "makeResponse (ZkRequest xid has_watch body) = ZkResponse 0 0 ZOK (makeResponseBody body)"
| "makeResponseBody HeartbeatRequest = HeartbeatResponse"
| "makeResponseBody (SyncRequest path) = SyncResponse []"
| "makeResponseBody (AuthRequest type scheme data) = AuthResponse"
| "makeResponseBody CloseRequest = CloseResponse"
| "makeResponseBody (CreateRequest path data acls ephemeral sequential) = CreateResponse []"
| "makeResponseBody (RemoveRequest path ver) = RemoveResponse"
| "makeResponseBody (ExistsRequest path) = ExistsResponse stat_zero"
| "makeResponseBody (GetRequest path) = GetResponse [] stat_zero"
| "makeResponseBody (SetRequest path data ver) = SetResponse stat_zero"
| "makeResponseBody (SimpleListRequest path) = ListResponse {} stat_zero"
| "makeResponseBody (ListRequest path) = ListResponse {} stat_zero"
| "makeResponseBody (CheckRequest path ver) = CheckResponse"
| "makeResponseBody (MultiRequest requests) = MultiResponse (map makeResponse requests)"
| "makeResponseBody (SessionIDRequest internal_id timeout server_id) = SessionIDResponse 0 0 0"

definition response_error :: "zk_request_body \<Rightarrow> zk_error \<Rightarrow> zk_response" where
  "response_error body err = ZkResponse 0 0 err (makeResponseBody body)"

definition response_ok :: "zk_response_body \<Rightarrow> zk_response" where
  "response_ok body = ZkResponse 0 0 ZOK body"

lemma response_simps [simp]:
  "rs_error (response_error body err) = err" "rs_error (response_ok b) = ZOK"
  "rs_body (response_ok b) = b" "rs_body (response_error body err) = makeResponseBody body"
  by (simp_all add: response_error_def response_ok_def)

definition WATCH_XID :: i32 where "WATCH_XID = - 1"
definition CLOSE_XID :: i32 where "CLOSE_XID = 0x7FFFFFFF"

text \<open>The class of a response, as \<^verbatim>\<open>dynamic_cast\<close> sees it, and the class each request expects.\<close>

datatype response_class =
    RcHeartbeat | RcSync | RcAuth | RcClose | RcCreate | RcRemove | RcExists | RcGet | RcSet | RcList
  | RcCheck | RcError | RcMulti | RcSessionID | RcWatch

fun class_of :: "zk_response_body \<Rightarrow> response_class" where
  "class_of HeartbeatResponse = RcHeartbeat"
| "class_of (SyncResponse path) = RcSync"
| "class_of AuthResponse = RcAuth"
| "class_of CloseResponse = RcClose"
| "class_of (CreateResponse path) = RcCreate"
| "class_of RemoveResponse = RcRemove"
| "class_of (ExistsResponse st) = RcExists"
| "class_of (GetResponse data st) = RcGet"
| "class_of (SetResponse st) = RcSet"
| "class_of (ListResponse names st) = RcList"
| "class_of CheckResponse = RcCheck"
| "class_of ErrorResponse = RcError"
| "class_of (MultiResponse rs) = RcMulti"
| "class_of (SessionIDResponse a b c) = RcSessionID"
| "class_of (WatchResponse path ev) = RcWatch"

end
