(* ===== verification/Keeper_Table.thy ===== *)
theory Keeper_Table
  imports Daisy_Prelude "HOL-Library.AList"
begin

text \<open>
  \<^verbatim>\<open>SnapshotableHashTable\<close> of the Keeper (\<^verbatim>\<open>Coordination/SnapshotableHashTable.h\<close>): a linked list of
  elements and a hash index from keys to iterators into the list.  In snapshot mode an element is
  never changed in place: an update marks the old element inactive and appends a new one, so that
  the prefix of the list that existed when the mode was switched on can be read while requests
  go on.

  A list iterator is a number; the list pairs every element with its iterator, and
  \<open>tb_fresh\<close> is an iterator not used yet.  The interface the storage relies on, that of a map from keys to
  values, is the locale \<open>keyed_table\<close>; it is interpreted on the operations below.
\<close>

record 'v list_node =
  ln_key :: string
  ln_value :: 'v
  active_in_map :: bool

type_synonym iter = nat

record 'v snapshotable_table =
  tb_list :: "(iter \<times> 'v list_node) list"
  tb_map :: "(string \<times> iter) list"
  snapshot_mode :: bool
  tb_fresh :: iter

section \<open>Operations\<close>

definition tb_empty :: "'v snapshotable_table" where
  "tb_empty = \<lparr>tb_list = [], tb_map = [], snapshot_mode = False, tb_fresh = 0\<rparr>"

text \<open>\<^verbatim>\<open>list.insert(list.end(), elem)\<close> followed by \<^verbatim>\<open>map.emplace(itr->key, itr)\<close>.\<close>

definition tb_append :: "string \<Rightarrow> 'v \<Rightarrow> 'v snapshotable_table \<Rightarrow> 'v snapshotable_table" where
  "tb_append k v t =
     t\<lparr>tb_list := tb_list t @ [(tb_fresh t, \<lparr>ln_key = k, ln_value = v, active_in_map = True\<rparr>)],
       tb_map := AList.update k (tb_fresh t) (tb_map t),
       tb_fresh := Suc (tb_fresh t)\<rparr>"

text \<open>\<^verbatim>\<open>list_itr->active_in_map = false; map.erase(it)\<close>.\<close>

definition tb_retire :: "string \<Rightarrow> iter \<Rightarrow> 'v snapshotable_table \<Rightarrow> 'v snapshotable_table" where
  "tb_retire k i t =
     t\<lparr>tb_list := AList.map_entry i (\<lambda>n. n\<lparr>active_in_map := False\<rparr>) (tb_list t),
       tb_map := AList.delete k (tb_map t)\<rparr>"

definition tb_insert :: "string \<Rightarrow> 'v \<Rightarrow> 'v snapshotable_table \<Rightarrow> bool \<times> 'v snapshotable_table" where
  "tb_insert k v t =
     (case map_of (tb_map t) k of
        None \<Rightarrow> (True, tb_append k v t)
      | Some it \<Rightarrow> (False, t))"

definition tb_insertOrReplace :: "string \<Rightarrow> 'v \<Rightarrow> 'v snapshotable_table \<Rightarrow> 'v snapshotable_table" where
  "tb_insertOrReplace k v t =
     (case map_of (tb_map t) k of
        None \<Rightarrow> tb_append k v t
      | Some it \<Rightarrow>
          if snapshot_mode t then tb_append k v (tb_retire k it t)
          else t\<lparr>tb_list := AList.map_entry it (\<lambda>n. n\<lparr>ln_value := v\<rparr>) (tb_list t)\<rparr>)"

definition tb_erase :: "string \<Rightarrow> 'v snapshotable_table \<Rightarrow> bool \<times> 'v snapshotable_table" where
  "tb_erase k t =
     (case map_of (tb_map t) k of
        None \<Rightarrow> (False, t)
      | Some it \<Rightarrow>
          if snapshot_mode t then (True, tb_retire k it t)
          else (True, t\<lparr>tb_map := AList.delete k (tb_map t), tb_list := AList.delete it (tb_list t)\<rparr>))"

definition tb_contains :: "string \<Rightarrow> 'v snapshotable_table \<Rightarrow> bool" where
  "tb_contains k t \<longleftrightarrow> map_of (tb_map t) k \<noteq> None"

text \<open>
  \<^verbatim>\<open>updateValue\<close> of a missing key dereferences \<^verbatim>\<open>map.end()\<close>: undefined, \<open>None\<close>.  The result is the
  iterator the source returns and the new table.
\<close>

definition tb_updateValue ::
  "string \<Rightarrow> ('v \<Rightarrow> 'v) \<Rightarrow> 'v snapshotable_table \<Rightarrow> (iter \<times> 'v snapshotable_table) option" where
  "tb_updateValue k updater t =
     (case map_of (tb_map t) k of
        None \<Rightarrow> None
      | Some it \<Rightarrow>
          if snapshot_mode t then
            (case map_of (tb_list t) it of
               None \<Rightarrow> None
             | Some elem \<Rightarrow> Some (tb_fresh t, tb_append k (updater (ln_value elem)) (tb_retire k it t)))
          else Some (it, t\<lparr>tb_list := AList.map_entry it (\<lambda>n. n\<lparr>ln_value := updater (ln_value n)\<rparr>) (tb_list t)\<rparr>))"

text \<open>The value an iterator points at, and the value \<^verbatim>\<open>find\<close> leads to.\<close>

definition tb_deref :: "iter \<Rightarrow> 'v snapshotable_table \<Rightarrow> 'v option" where
  "tb_deref i t = map_option ln_value (map_of (tb_list t) i)"

definition tb_find :: "'v snapshotable_table \<Rightarrow> string \<Rightarrow> 'v option" where
  "tb_find t k = (case map_of (tb_map t) k of None \<Rightarrow> None | Some it \<Rightarrow> tb_deref it t)"

definition tb_clearOutdatedNodes :: "'v snapshotable_table \<Rightarrow> 'v snapshotable_table" where
  "tb_clearOutdatedNodes t = t\<lparr>tb_list := filter (\<lambda>(i, n). active_in_map n) (tb_list t)\<rparr>"

definition tb_clear :: "'v snapshotable_table \<Rightarrow> 'v snapshotable_table" where
  "tb_clear t = t\<lparr>tb_list := [], tb_map := []\<rparr>"

definition tb_enableSnapshotMode :: "'v snapshotable_table \<Rightarrow> 'v snapshotable_table" where
  "tb_enableSnapshotMode t = t\<lparr>snapshot_mode := True\<rparr>"

definition tb_disableSnapshotMode :: "'v snapshotable_table \<Rightarrow> 'v snapshotable_table" where
  "tb_disableSnapshotMode t = t\<lparr>snapshot_mode := False\<rparr>"

definition tb_size :: "'v snapshotable_table \<Rightarrow> nat" where
  "tb_size t = length (tb_map t)"

definition tb_snapshotSize :: "'v snapshotable_table \<Rightarrow> nat" where
  "tb_snapshotSize t = length (tb_list t)"

text \<open>What an iteration over the first \<open>n\<close> elements of the list reads.\<close>

definition tb_prefix :: "nat \<Rightarrow> 'v snapshotable_table \<Rightarrow> (string \<times> 'v) list" where
  "tb_prefix n t = map (\<lambda>(i, e). (ln_key e, ln_value e)) (take n (tb_list t))"

section \<open>The index and the list agree\<close>

text \<open>
  Iterators are distinct and older than \<open>tb_fresh\<close>, and the index maps a key to an iterator exactly
  when the element there is active and has that key.
\<close>

definition tb_inv :: "'v snapshotable_table \<Rightarrow> bool" where
  "tb_inv t \<longleftrightarrow>
     distinct (map fst (tb_list t)) \<and> (\<forall>i \<in> fst ` set (tb_list t). i < tb_fresh t)
     \<and> distinct (map fst (tb_map t))
     \<and> (\<forall>k i. map_of (tb_map t) k = Some i
          \<longleftrightarrow> (\<exists>n. map_of (tb_list t) i = Some n \<and> active_in_map n \<and> ln_key n = k))"


lemma tb_invD:
  assumes "tb_inv t"
  shows "distinct (map fst (tb_list t))" "distinct (map fst (tb_map t))"
    and "map_of (tb_list t) i = Some n \<Longrightarrow> i < tb_fresh t"
    and "map_of (tb_map t) k = Some i
       \<Longrightarrow> \<exists>n. map_of (tb_list t) i = Some n \<and> active_in_map n \<and> ln_key n = k"
    and "map_of (tb_list t) i = Some n \<Longrightarrow> active_in_map n \<Longrightarrow> map_of (tb_map t) (ln_key n) = Some i"
  using assms by (auto simp: tb_inv_def dest: map_of_SomeD)

lemma tb_fresh_unused: "tb_inv t \<Longrightarrow> map_of (tb_list t) (tb_fresh t) = None"
  using tb_invD(3) by fastforce

lemma tb_index_unused: "tb_inv t \<Longrightarrow> map_of (tb_map t) k \<noteq> Some (tb_fresh t)"
  using tb_invD(4) tb_fresh_unused by fastforce

lemma tb_find_None: "tb_inv t \<Longrightarrow> tb_find t k = None \<longleftrightarrow> map_of (tb_map t) k = None"
  using tb_invD(4) by (fastforce simp: tb_find_def tb_deref_def split: option.splits)

lemma tb_find_Some:
  "tb_inv t \<Longrightarrow> tb_find t k = Some v \<longleftrightarrow>
     (\<exists>i n. map_of (tb_map t) k = Some i \<and> map_of (tb_list t) i = Some n \<and> ln_value n = v)"
  by (auto simp: tb_find_def tb_deref_def split: option.splits)

lemma tb_contains_find: "tb_inv t \<Longrightarrow> tb_contains k t \<longleftrightarrow> tb_find t k \<noteq> None"
  by (simp add: tb_contains_def tb_find_None)

named_theorems tb_maps \<open>the finite maps behind the list and the index\<close>

lemma tb_append_list [tb_maps]:
  "tb_inv t \<Longrightarrow> map_of (tb_list (tb_append k v t)) =
     (map_of (tb_list t))(tb_fresh t \<mapsto> \<lparr>ln_key = k, ln_value = v, active_in_map = True\<rparr>)"
  using tb_fresh_unused [of t]
  by (auto simp: tb_append_def map_add_def fun_eq_iff split: option.splits)

lemma tb_append_map [tb_maps]:
  "map_of (tb_map (tb_append k v t)) = (map_of (tb_map t))(k \<mapsto> tb_fresh t)"
  by (simp add: tb_append_def update_conv')

lemma tb_retire_list [tb_maps]:
  "map_of (tb_list (tb_retire k i t)) =
     (map_of (tb_list t))(i := map_option (\<lambda>n. n\<lparr>active_in_map := False\<rparr>) (map_of (tb_list t) i))"
  by (auto simp: tb_retire_def map_of_map_entry fun_eq_iff split: option.splits)

lemma tb_retire_map [tb_maps]:
  "map_of (tb_map (tb_retire k i t)) = (map_of (tb_map t))(k := None)"
  by (simp add: tb_retire_def delete_conv')

lemma tb_mode [simp]:
  "snapshot_mode (tb_append k v t) = snapshot_mode t"
  "snapshot_mode (tb_retire k i t) = snapshot_mode t"
  "tb_fresh (tb_append k v t) = Suc (tb_fresh t)"
  "tb_fresh (tb_retire k i t) = tb_fresh t"
  by (simp_all add: tb_append_def tb_retire_def)

lemma tb_append_inv:
  assumes "tb_inv t" and "map_of (tb_map t) k = None"
  shows "tb_inv (tb_append k v t)"
proof -
  have d: "distinct (map fst (tb_list (tb_append k v t)))"
    using assms tb_fresh_unused [of t]
    by (auto simp: tb_inv_def tb_append_def map_of_eq_None_iff)
  have b: "\<forall>i \<in> fst ` set (tb_list (tb_append k v t)). i < tb_fresh (tb_append k v t)"
    using assms(1) by (auto simp: tb_inv_def tb_append_def less_Suc_eq)
  have m: "distinct (map fst (tb_map (tb_append k v t)))"
    using assms(1) by (simp add: tb_inv_def tb_append_def distinct_update)
  have "map_of (tb_map (tb_append k v t)) k' = Some i
        \<longleftrightarrow> (\<exists>n. map_of (tb_list (tb_append k v t)) i = Some n \<and> active_in_map n \<and> ln_key n = k')" for k' i
    using assms tb_invD(4,5) [OF assms(1)] tb_index_unused [OF assms(1)] tb_fresh_unused [OF assms(1)]
    by (auto simp: tb_append_list [OF assms(1)] tb_append_map)
  with d b m show ?thesis by (simp add: tb_inv_def)
qed

lemma tb_retire_inv:
  assumes "tb_inv t" and "map_of (tb_map t) k = Some i"
  shows "tb_inv (tb_retire k i t)"
proof -
  have d: "distinct (map fst (tb_list (tb_retire k i t)))"
    using assms(1) by (simp add: tb_inv_def tb_retire_def distinct_map_entry)
  have b: "\<forall>j \<in> fst ` set (tb_list (tb_retire k i t)). j < tb_fresh (tb_retire k i t)"
    using assms(1) by (simp add: tb_inv_def tb_retire_def dom_map_entry)
  have m: "distinct (map fst (tb_map (tb_retire k i t)))"
    using assms(1) by (simp add: tb_inv_def tb_retire_def distinct_delete)
  obtain n0 where n0: "map_of (tb_list t) i = Some n0" "ln_key n0 = k"
    using tb_invD(4) [OF assms] by blast
  have "map_of (tb_map (tb_retire k i t)) k' = Some j
        \<longleftrightarrow> (\<exists>n. map_of (tb_list (tb_retire k i t)) j = Some n \<and> active_in_map n \<and> ln_key n = k')"
    (is "?L \<longleftrightarrow> ?R") for k' j
  proof
    assume ?L
    then have k': "k' \<noteq> k" and j: "map_of (tb_map t) k' = Some j"
      by (simp_all add: tb_retire_map split: if_splits)
    obtain n where n: "map_of (tb_list t) j = Some n" "active_in_map n" "ln_key n = k'"
      using tb_invD(4) [OF assms(1) j] by blast
    with k' n0 have "j \<noteq> i" by auto
    with n show ?R by (simp add: tb_retire_list)
  next
    assume ?R
    then obtain n where n: "map_of (tb_list (tb_retire k i t)) j = Some n" "active_in_map n" "ln_key n = k'"
      by blast
    have ji: "j \<noteq> i" using n(1,2) n0(1) by (auto simp: tb_retire_list)
    with n have "map_of (tb_map t) k' = Some j"
      using tb_invD(5) [OF assms(1), of j n] by (simp add: tb_retire_list)
    with ji assms(2) show ?L by (auto simp: tb_retire_map)
  qed
  with d b m show ?thesis by (simp add: tb_inv_def)
qed

lemma tb_append_find:
  "tb_inv t \<Longrightarrow> tb_find (tb_append k v t) = (tb_find t)(k \<mapsto> v)"
  using tb_index_unused [of t]
  by (auto simp: tb_find_def tb_deref_def tb_maps fun_eq_iff split: option.splits)

lemma tb_retire_find:
  assumes "tb_inv t" and "map_of (tb_map t) k = Some i"
  shows "tb_find (tb_retire k i t) = (tb_find t)(k := None)"
  using assms tb_invD(4) [OF assms(1)]
  by (fastforce simp: tb_find_def tb_deref_def tb_maps fun_eq_iff split: option.splits)


section \<open>The interface of a map\<close>

text \<open>
  What the storage relies on.  \<open>lookup\<close> is the map the table stands for; insertion does not
  overwrite, and an update of a present key returns an iterator to the new value.  The lemmas are
  those the undo actions of the storage need.
\<close>

locale keyed_table =
  fixes inv :: "'t \<Rightarrow> bool"
    and lookup :: "'t \<Rightarrow> 'k \<Rightarrow> 'v option"
    and insert_new :: "'k \<Rightarrow> 'v \<Rightarrow> 't \<Rightarrow> bool \<times> 't"
    and erase :: "'k \<Rightarrow> 't \<Rightarrow> bool \<times> 't"
    and update_value :: "'k \<Rightarrow> ('v \<Rightarrow> 'v) \<Rightarrow> 't \<Rightarrow> ('i \<times> 't) option"
    and deref :: "'i \<Rightarrow> 't \<Rightarrow> 'v option"
  assumes insert_inv: "inv t \<Longrightarrow> inv (snd (insert_new k v t))"
    and insert_lookup: "inv t \<Longrightarrow> lookup (snd (insert_new k v t)) =
          (if lookup t k = None then (lookup t)(k \<mapsto> v) else lookup t)"
    and erase_inv: "inv t \<Longrightarrow> inv (snd (erase k t))"
    and erase_lookup: "inv t \<Longrightarrow> lookup (snd (erase k t)) = (lookup t)(k := None)"
    and update_ex: "inv t \<Longrightarrow> lookup t k = Some v \<Longrightarrow>
          \<exists>i u. update_value k f t = Some (i, u) \<and> inv u \<and> lookup u = (lookup t)(k \<mapsto> f v)
                \<and> deref i u = Some (f v)"
    and update_missing: "inv t \<Longrightarrow> lookup t k = None \<Longrightarrow> update_value k f t = None"
begin

lemma update_Some:
  assumes "inv t" and "update_value k f t = Some (i, u)"
  shows "inv u \<and> (\<exists>v. lookup t k = Some v \<and> lookup u = (lookup t)(k \<mapsto> f v) \<and> deref i u = Some (f v))"
proof (cases "lookup t k")
  case None
  then show ?thesis using assms update_missing by fastforce
next
  case (Some v)
  then show ?thesis using assms update_ex [of t k v f] by fastforce
qed

lemma update_defined: "inv t \<Longrightarrow> update_value k f t \<noteq> None \<longleftrightarrow> lookup t k \<noteq> None"
  using update_ex update_missing by fastforce

lemma erase_inserted:
  "inv t \<Longrightarrow> lookup t k = None \<Longrightarrow> lookup (snd (erase k (snd (insert_new k v t)))) = lookup t"
  by (auto simp: insert_inv insert_lookup erase_lookup)

lemma insert_erased:
  "inv t \<Longrightarrow> lookup t k = Some v \<Longrightarrow> lookup (snd (insert_new k v (snd (erase k t)))) = lookup t"
  by (auto simp: erase_inv insert_lookup erase_lookup)

end

lemma tb_insert_inv: "tb_inv t \<Longrightarrow> tb_inv (snd (tb_insert k v t))"
  by (auto simp: tb_insert_def tb_append_inv split: option.splits)

lemma tb_insert_find:
  "tb_inv t \<Longrightarrow> tb_find (snd (tb_insert k v t)) =
     (if tb_find t k = None then (tb_find t)(k \<mapsto> v) else tb_find t)"
  by (auto simp: tb_insert_def tb_append_find tb_find_None split: option.splits)


text \<open>Removing an element from the list and the index at once (\<^verbatim>\<open>erase\<close> outside snapshot mode).\<close>

lemma tb_unlink:
  assumes "tb_inv t" and "map_of (tb_map t) k = Some i"
  defines "u \<equiv> t\<lparr>tb_map := AList.delete k (tb_map t), tb_list := AList.delete i (tb_list t)\<rparr>"
  shows "tb_inv u" and "tb_find u = (tb_find t)(k := None)"
proof -
  have L: "map_of (tb_list u) = (map_of (tb_list t))(i := None)"
    and M: "map_of (tb_map u) = (map_of (tb_map t))(k := None)"
    by (simp_all add: u_def delete_conv')
  obtain n0 where n0: "map_of (tb_list t) i = Some n0" "ln_key n0 = k"
    using tb_invD(4) [OF assms(1,2)] by blast
  have other: "map_of (tb_map t) k' = Some j \<Longrightarrow> k' \<noteq> k \<Longrightarrow> j \<noteq> i" for k' j
    using tb_invD(4) [OF assms(1), of k' j] n0 by auto
  have "map_of (tb_map u) k' = Some j
        \<longleftrightarrow> (\<exists>n. map_of (tb_list u) j = Some n \<and> active_in_map n \<and> ln_key n = k')" (is "?L \<longleftrightarrow> ?R") for k' j
  proof
    assume ?L
    then show ?R using other [of k' j] tb_invD(4) [OF assms(1), of k' j] by (auto simp: L M split: if_splits)
  next
    assume ?R
    then obtain n where n: "map_of (tb_list t) j = Some n" "active_in_map n" "ln_key n = k'" "j \<noteq> i"
      by (auto simp: L split: if_splits)
    then have "map_of (tb_map t) k' = Some j" using tb_invD(5) [OF assms(1), of j n] by simp
    with n(4) assms(2) show ?L by (auto simp: M)
  qed
  moreover have "\<forall>j \<in> fst ` set (tb_list t). j < tb_fresh t" using assms(1) by (simp add: tb_inv_def)
  then have "\<forall>j \<in> fst ` set (tb_list u). j < tb_fresh u"
    using dom_delete_subset [of i "tb_list t"] unfolding u_def by (simp, blast)
  moreover have "distinct (map fst (tb_list u))" "distinct (map fst (tb_map u))"
    using tb_invD(1,2) [OF assms(1)] by (simp_all add: u_def distinct_delete)
  ultimately show "tb_inv u" by (simp add: tb_inv_def)
  show "tb_find u = (tb_find t)(k := None)"
  proof
    fix k'
    show "tb_find u k' = ((tb_find t)(k := None)) k'"
      using other by (auto simp: tb_find_def tb_deref_def L M split: option.splits)
  qed
qed

text \<open>Writing the value of an element in place (updates outside snapshot mode).\<close>

lemma tb_inplace:
  fixes f :: "'v \<Rightarrow> 'v"
  assumes "tb_inv t" and "map_of (tb_map t) k = Some i" and "map_of (tb_list t) i = Some n"
  defines "u \<equiv> t\<lparr>tb_list := AList.map_entry i (\<lambda>n. n\<lparr>ln_value := f (ln_value n)\<rparr>) (tb_list t)\<rparr>"
  shows "tb_inv u" and "tb_find u = (tb_find t)(k \<mapsto> f (ln_value n))"
proof -
  have L: "map_of (tb_list u) = (map_of (tb_list t))(i \<mapsto> n\<lparr>ln_value := f (ln_value n)\<rparr>)"
    and M: "tb_map u = tb_map t"
    using assms(3) by (auto simp: u_def map_of_map_entry fun_eq_iff)
  have other: "map_of (tb_map t) k' = Some j \<Longrightarrow> k' \<noteq> k \<Longrightarrow> j \<noteq> i" for k' j
    using tb_invD(4) [OF assms(1), of k' j] tb_invD(4) [OF assms(1,2)] by auto
  have "map_of (tb_map u) k' = Some j
        \<longleftrightarrow> (\<exists>m. map_of (tb_list u) j = Some m \<and> active_in_map m \<and> ln_key m = k')" (is "?L \<longleftrightarrow> ?R") for k' j
  proof
    assume ?L
    then show ?R using tb_invD(4) [OF assms(1), of k' j] assms(3) by (cases "j = i") (auto simp: L M)
  next
    assume ?R
    then show ?L using tb_invD(5) [OF assms(1), of j] assms(3) by (cases "j = i") (auto simp: L M)
  qed
  moreover have "distinct (map fst (tb_list u))" "distinct (map fst (tb_map u))"
    "\<forall>j \<in> fst ` set (tb_list u). j < tb_fresh u"
    using assms(1) by (auto simp: tb_inv_def u_def distinct_map_entry dom_map_entry)
  ultimately show "tb_inv u" by (simp add: tb_inv_def)
  show "tb_find u = (tb_find t)(k \<mapsto> f (ln_value n))"
  proof
    fix k'
    show "tb_find u k' = ((tb_find t)(k \<mapsto> f (ln_value n))) k'"
      using other assms(2) by (auto simp: tb_find_def tb_deref_def L M split: option.splits)
  qed
qed

lemma tb_erase_inv: "tb_inv t \<Longrightarrow> tb_inv (snd (tb_erase k t))"
  by (auto simp: tb_erase_def tb_retire_inv tb_unlink(1) split: option.splits)

lemma tb_erase_find: "tb_inv t \<Longrightarrow> tb_find (snd (tb_erase k t)) = (tb_find t)(k := None)"
  by (auto simp: tb_erase_def tb_retire_find tb_unlink(2) tb_find_None fun_upd_idem split: option.splits)

lemma tb_update_ex:
  assumes "tb_inv t" and "tb_find t k = Some v"
  shows "\<exists>i u. tb_updateValue k f t = Some (i, u) \<and> tb_inv u \<and> tb_find u = (tb_find t)(k \<mapsto> f v)
           \<and> tb_deref i u = Some (f v)"
proof -
  obtain i n where i: "map_of (tb_map t) k = Some i" and n: "map_of (tb_list t) i = Some n"
    and v: "ln_value n = v"
    using assms by (auto simp: tb_find_Some)
  show ?thesis
  proof (cases "snapshot_mode t")
    case True
    let ?r = "tb_retire k i t"
    have r: "tb_inv ?r" "map_of (tb_map ?r) k = None"
      using tb_retire_inv [OF assms(1) i] by (simp_all add: tb_retire_map)
    have "tb_deref (tb_fresh t) (tb_append k (f v) ?r) = Some (f v)"
      using tb_append_list [OF r(1), of k "f v"] by (simp add: tb_deref_def)
    then show ?thesis using True i n v r
      by (simp add: tb_updateValue_def tb_append_inv tb_append_find tb_retire_find [OF assms(1) i])
  next
    case False
    then show ?thesis using i n v tb_inplace [OF assms(1) i n, of f]
      by (simp add: tb_updateValue_def tb_deref_def map_of_map_entry)
  qed
qed

lemma tb_update_missing: "tb_inv t \<Longrightarrow> tb_find t k = None \<Longrightarrow> tb_updateValue k f t = None"
  by (simp add: tb_updateValue_def tb_find_None)

interpretation kt: keyed_table tb_inv tb_find tb_insert tb_erase tb_updateValue tb_deref
  by unfold_locales
     (simp_all add: tb_insert_inv tb_insert_find tb_erase_inv tb_erase_find tb_update_ex tb_update_missing)

lemma tb_empty_inv [simp]: "tb_inv tb_empty" "tb_find tb_empty = Map.empty"
  by (auto simp: tb_inv_def tb_empty_def tb_find_def)

lemma tb_clear_inv [simp]: "tb_inv (tb_clear t)" "tb_find (tb_clear t) = Map.empty"
  by (auto simp: tb_inv_def tb_clear_def tb_find_def)

lemma tb_mode_switch [simp]:
  "tb_inv (tb_enableSnapshotMode t) = tb_inv t" "tb_find (tb_enableSnapshotMode t) = tb_find t"
  "tb_inv (tb_disableSnapshotMode t) = tb_inv t" "tb_find (tb_disableSnapshotMode t) = tb_find t"
  by (auto simp: tb_inv_def tb_find_def tb_deref_def tb_enableSnapshotMode_def tb_disableSnapshotMode_def
      fun_eq_iff split: option.splits)


lemma tb_insertOrReplace_find:
  assumes "tb_inv t"
  shows "tb_inv (tb_insertOrReplace k v t)" and "tb_find (tb_insertOrReplace k v t) = (tb_find t)(k \<mapsto> v)"
proof -
  have "tb_inv (tb_insertOrReplace k v t) \<and> tb_find (tb_insertOrReplace k v t) = (tb_find t)(k \<mapsto> v)"
  proof (cases "map_of (tb_map t) k")
    case None
    then show ?thesis using assms by (simp add: tb_insertOrReplace_def tb_append_inv tb_append_find)
  next
    case (Some i)
    then obtain n where n: "map_of (tb_list t) i = Some n" using tb_invD(4) [OF assms Some] by blast
    have r: "tb_inv (tb_retire k i t)" "map_of (tb_map (tb_retire k i t)) k = None"
      using tb_retire_inv [OF assms Some] by (simp_all add: tb_retire_map)
    show ?thesis
      using Some tb_inplace [OF assms Some n, of "\<lambda>_. v"] r
      by (simp add: tb_insertOrReplace_def tb_append_inv tb_append_find tb_retire_find [OF assms Some])
  qed
  then show "tb_inv (tb_insertOrReplace k v t)" "tb_find (tb_insertOrReplace k v t) = (tb_find t)(k \<mapsto> v)"
    by blast+
qed

lemma tb_clearOutdated_list:
  "tb_inv t \<Longrightarrow> map_of (tb_list (tb_clearOutdatedNodes t)) i =
     (case map_of (tb_list t) i of None \<Rightarrow> None | Some n \<Rightarrow> if active_in_map n then Some n else None)"
proof -
  assume "tb_inv t"
  then have d: "distinct (map fst (tb_list t))" by (rule tb_invD)
  have d': "distinct (map fst (filter (\<lambda>(i, n). active_in_map n) (tb_list t)))"
    using d by (rule distinct_map_filter)
  show ?thesis
  proof (cases "map_of (tb_list t) i")
    case None
    then have "map_of (filter (\<lambda>(i, n). active_in_map n) (tb_list t)) i = None"
      by (auto simp: map_of_eq_None_iff)
    then show ?thesis using None by (simp add: tb_clearOutdatedNodes_def)
  next
    case (Some n)
    then have "(i, n) \<in> set (tb_list t)" by (rule map_of_SomeD)
    then have "map_of (filter (\<lambda>(i, n). active_in_map n) (tb_list t)) i =
                 (if active_in_map n then Some n else None)"
      using d d' by (auto simp: map_of_eq_None_iff dest: eq_key_imp_eq_value)
    then show ?thesis using Some by (simp add: tb_clearOutdatedNodes_def)
  qed
qed

lemma tb_clearOutdated:
  assumes "tb_inv t"
  shows "tb_inv (tb_clearOutdatedNodes t)" and "tb_find (tb_clearOutdatedNodes t) = tb_find t"
proof -
  let ?u = "tb_clearOutdatedNodes t"
  have M: "tb_map ?u = tb_map t" by (simp add: tb_clearOutdatedNodes_def)
  have "map_of (tb_map ?u) k = Some i
        \<longleftrightarrow> (\<exists>n. map_of (tb_list ?u) i = Some n \<and> active_in_map n \<and> ln_key n = k)" for k i
    using tb_invD(4) [OF assms, of k i] tb_invD(5) [OF assms, of i]
    by (auto simp: tb_clearOutdated_list [OF assms] M split: option.splits if_splits)
  moreover have "\<forall>j \<in> fst ` set (tb_list t). j < tb_fresh t" using assms by (simp add: tb_inv_def)
  then have "\<forall>j \<in> fst ` set (tb_list ?u). j < tb_fresh ?u" by (auto simp: tb_clearOutdatedNodes_def)
  moreover have "distinct (map fst (tb_list ?u))"
    using tb_invD(1) [OF assms] by (simp add: tb_clearOutdatedNodes_def distinct_map_filter)
  ultimately show "tb_inv ?u" using tb_invD(2) [OF assms] by (simp add: tb_inv_def M)
  show "tb_find ?u = tb_find t"
  proof
    fix k
    show "tb_find ?u k = tb_find t k"
      using tb_invD(4) [OF assms, of k]
      by (cases "map_of (tb_map t) k") (auto simp: tb_find_def tb_deref_def tb_clearOutdated_list [OF assms] M)
  qed
qed

text \<open>What an iterator returned by an update points at while other keys change.\<close>

lemma tb_update_index:
  "tb_updateValue k f t = Some (i, u) \<Longrightarrow> map_of (tb_map u) = (map_of (tb_map t))(k \<mapsto> i)"
  by (auto simp: tb_updateValue_def tb_append_map tb_retire_map fun_upd_idem split: option.splits if_splits)

lemma tb_deref_kept:
  assumes "tb_inv t" and "tb_updateValue k f t = Some (i, u)" and "tb_deref j t \<noteq> None"
  shows "tb_deref j u \<noteq> None"
proof (cases "snapshot_mode t")
  case True
  then have "\<exists>it v. map_of (tb_map t) k = Some it \<and> u = tb_append k v (tb_retire k it t)"
    using assms(2) by (fastforce simp: tb_updateValue_def split: option.splits)
  then obtain it v where it: "map_of (tb_map t) k = Some it" "u = tb_append k v (tb_retire k it t)"
    by blast
  have "tb_inv (tb_retire k it t)" by (rule tb_retire_inv [OF assms(1) it(1)])
  then show ?thesis using assms(3) by (auto simp: it(2) tb_deref_def tb_append_list tb_retire_list)
next
  case False
  then show ?thesis using assms(2,3)
    by (auto simp: tb_updateValue_def tb_deref_def map_of_map_entry split: option.splits)
qed

section \<open>Snapshots\<close>

text \<open>
  The changes a request makes to the table while a snapshot is being written, run in sequence;
  \<open>None\<close> is the undefined update of a missing key.
\<close>

datatype 'v tb_op =
    TbInsert string 'v
  | TbReplace string 'v
  | TbErase string
  | TbUpdate string "'v \<Rightarrow> 'v"

fun tb_apply :: "'v tb_op \<Rightarrow> 'v snapshotable_table \<Rightarrow> 'v snapshotable_table option" where
  "tb_apply (TbInsert k v) t = Some (snd (tb_insert k v t))"
| "tb_apply (TbReplace k v) t = Some (tb_insertOrReplace k v t)"
| "tb_apply (TbErase k) t = Some (snd (tb_erase k t))"
| "tb_apply (TbUpdate k f) t = map_option snd (tb_updateValue k f t)"

fun tb_run :: "'v tb_op list \<Rightarrow> 'v snapshotable_table \<Rightarrow> 'v snapshotable_table option" where
  "tb_run [] t = Some t"
| "tb_run (op # ops) t = (case tb_apply op t of None \<Rightarrow> None | Some u \<Rightarrow> tb_run ops u)"

text \<open>The same changes on the map the table stands for.\<close>

fun map_apply :: "'v tb_op \<Rightarrow> (string \<rightharpoonup> 'v) \<Rightarrow> (string \<rightharpoonup> 'v)" where
  "map_apply (TbInsert k v) m = (if m k = None then m(k \<mapsto> v) else m)"
| "map_apply (TbReplace k v) m = m(k \<mapsto> v)"
| "map_apply (TbErase k) m = m(k := None)"
| "map_apply (TbUpdate k f) m = m(k := map_option f (m k))"

definition tb_clean :: "'v snapshotable_table \<Rightarrow> bool" where
  "tb_clean t \<longleftrightarrow> list_all (\<lambda>p. active_in_map (snd p)) (tb_list t)"

definition tb_entries :: "'v snapshotable_table \<Rightarrow> (string \<times> 'v) list" where
  "tb_entries t = map (\<lambda>(i, e). (ln_key e, ln_value e)) (tb_list t)"

lemma tb_prefix_entries: "tb_prefix n t = take n (tb_entries t)"
  by (simp add: tb_prefix_def tb_entries_def take_map)


lemma tb_apply_correct:
  assumes "tb_inv t" and "tb_apply op t = Some u"
  shows "tb_inv u \<and> tb_find u = map_apply op (tb_find t)"
proof (cases op)
  case (TbUpdate k f)
  then obtain i where "tb_updateValue k f t = Some (i, u)" using assms(2) by auto
  then show ?thesis using kt.update_Some [OF assms(1)] TbUpdate by fastforce
qed (use assms in \<open>auto simp: kt.insert_inv kt.insert_lookup kt.erase_inv kt.erase_lookup
       tb_insertOrReplace_find\<close>)

lemma tb_entries_append: "tb_entries (tb_append k v t) = tb_entries t @ [(k, v)]"
  by (simp add: tb_entries_def tb_append_def)

lemma tb_entries_map_entry:
  assumes "\<And>n. ln_key (g n) = ln_key n \<and> ln_value (g n) = ln_value n"
  shows "map (\<lambda>(i, e). (ln_key e, ln_value e)) (AList.map_entry i g xs)
         = map (\<lambda>(i, e). (ln_key e, ln_value e)) xs"
  using assms by (induction xs) auto

lemma tb_entries_retire: "tb_entries (tb_retire k i t) = tb_entries t"
  by (simp add: tb_entries_def tb_retire_def tb_entries_map_entry)

lemma tb_apply_snapshot:
  assumes "snapshot_mode t" and "tb_apply op t = Some u"
  shows "snapshot_mode u \<and> (\<exists>es. tb_entries u = tb_entries t @ es)"
  using assms
  by (cases op)
     (auto simp: tb_insert_def tb_insertOrReplace_def tb_erase_def tb_updateValue_def
        tb_entries_append tb_entries_retire split: option.splits)

lemma tb_run_snapshot:
  assumes "tb_run ops t = Some u" and "tb_inv t" and "snapshot_mode t"
  shows "tb_inv u \<and> snapshot_mode u \<and> (\<exists>es. tb_entries u = tb_entries t @ es)
         \<and> tb_find u = fold map_apply ops (tb_find t)"
  using assms
proof (induction ops arbitrary: t)
  case Nil
  then show ?case by simp
next
  case (Cons op ops)
  then obtain w where w: "tb_apply op t = Some w" "tb_run ops w = Some u" by (auto split: option.splits)
  have "tb_inv w" "tb_find w = map_apply op (tb_find t)"
    using tb_apply_correct [OF Cons.prems(2) w(1)] by blast+
  moreover obtain es where "snapshot_mode w" "tb_entries w = tb_entries t @ es"
    using tb_apply_snapshot [OF Cons.prems(3) w(1)] by blast
  ultimately show ?case using Cons.IH [OF w(2)] by auto
qed

text \<open>Without outdated elements the list is the map: every key once, with its value.\<close>

lemma tb_clean_entries:
  assumes "tb_inv t" and "tb_clean t"
  shows "distinct (map fst (tb_entries t))" and "map_of (tb_entries t) = tb_find t"
proof -
  have key: "(i, n) \<in> set (tb_list t) \<Longrightarrow> map_of (tb_map t) (ln_key n) = Some i" for i n
    using assms tb_invD(1,5) [OF assms(1)] by (fastforce simp: tb_clean_def list_all_iff)
  have "inj_on (\<lambda>(i, n). ln_key n) (set (tb_list t))"
    using key tb_invD(1) [OF assms(1)]
    by (auto simp: inj_on_def) (metis eq_key_imp_eq_value option.inject)+
  moreover have "distinct (tb_list t)" using tb_invD(1) [OF assms(1)] distinct_map by blast
  ultimately have "distinct (map (\<lambda>(i, n). ln_key n) (tb_list t))" by (simp add: distinct_map)
  moreover have "map fst (tb_entries t) = map (\<lambda>(i, n). ln_key n) (tb_list t)"
    by (auto simp: tb_entries_def)
  ultimately show d: "distinct (map fst (tb_entries t))" by simp
  have "map_of (tb_entries t) k = Some v \<longleftrightarrow> tb_find t k = Some v" for k v
  proof
    assume "map_of (tb_entries t) k = Some v"
    then obtain i n where "(i, n) \<in> set (tb_list t)" "ln_key n = k" "ln_value n = v"
      by (auto simp: tb_entries_def dest!: map_of_SomeD)
    then show "tb_find t k = Some v"
      using key tb_invD(1) [OF assms(1)] by (auto simp: tb_find_def tb_deref_def)
  next
    assume "tb_find t k = Some v"
    then obtain i n where i: "map_of (tb_map t) k = Some i" and n: "map_of (tb_list t) i = Some n" "ln_value n = v"
      using tb_find_Some [OF assms(1)] by blast
    then have "ln_key n = k" using tb_invD(4) [OF assms(1) i] by auto
    with n have "(k, v) \<in> set (tb_entries t)"
      by (auto simp: tb_entries_def dest!: map_of_SomeD intro!: rev_image_eqI)
    then show "map_of (tb_entries t) k = Some v" using d by simp
  qed
  then show "map_of (tb_entries t) = tb_find t" by (metis (no_types) ext option.exhaust)
qed


lemma tb_mode_lists [simp]:
  "tb_entries (tb_enableSnapshotMode t) = tb_entries t" "snapshot_mode (tb_enableSnapshotMode t)"
  "tb_list (tb_enableSnapshotMode t) = tb_list t" "tb_list (tb_disableSnapshotMode t) = tb_list t"
  "\<not> snapshot_mode (tb_disableSnapshotMode t)"
  by (simp_all add: tb_entries_def tb_enableSnapshotMode_def tb_disableSnapshotMode_def)

lemma tb_clearOutdated_clean: "tb_clean (tb_clearOutdatedNodes t)"
  by (simp add: tb_clean_def tb_clearOutdatedNodes_def list_all_iff split_beta)

text \<open>Outside snapshot mode no operation leaves an outdated element behind.\<close>

lemma tb_clean_map_entry:
  assumes "\<And>n. active_in_map (g n) = active_in_map n"
  shows "list_all (\<lambda>p. active_in_map (snd p)) (AList.map_entry i g xs)
         \<longleftrightarrow> list_all (\<lambda>p. active_in_map (snd p)) xs"
proof (induction xs)
  case (Cons x xs)
  then show ?case using assms by (cases x) simp
qed simp

lemma tb_clean_delete:
  "list_all P xs \<Longrightarrow> list_all P (AList.delete i xs)"
  by (induction xs) simp_all

lemma tb_apply_clean:
  assumes "\<not> snapshot_mode t" and "tb_clean t" and "tb_apply op t = Some u"
  shows "\<not> snapshot_mode u \<and> tb_clean u"
proof -
  have a: "tb_clean (tb_append k v t)" for k v
    using assms(2) by (simp add: tb_clean_def tb_append_def)
  have e: "tb_clean (t\<lparr>tb_list := AList.map_entry i (\<lambda>n. n\<lparr>ln_value := f (ln_value n)\<rparr>) (tb_list t)\<rparr>)" for i f
    using assms(2) tb_clean_map_entry [of "\<lambda>n. n\<lparr>ln_value := f (ln_value n)\<rparr>" i "tb_list t"]
    by (simp add: tb_clean_def)
  have d: "tb_clean (t\<lparr>tb_map := m, tb_list := AList.delete i (tb_list t)\<rparr>)" for m i
    using assms(2) by (simp add: tb_clean_def tb_clean_delete)
  show ?thesis
  proof (cases op)
    case (TbInsert k v)
    then show ?thesis using assms a [of k v] by (auto simp: tb_insert_def split: option.splits)
  next
    case (TbReplace k v)
    then show ?thesis using assms a [of k v] e [of _ "\<lambda>_. v"]
      by (auto simp: tb_insertOrReplace_def split: option.splits)
  next
    case (TbErase k)
    then show ?thesis using assms d by (auto simp: tb_erase_def split: option.splits)
  next
    case (TbUpdate k f)
    then show ?thesis using assms e [of _ f] by (auto simp: tb_updateValue_def split: option.splits)
  qed
qed

text \<open>
  C4. A snapshot is isolated from the requests that run while it is written: whatever changes are
  applied after snapshot mode was switched on, the first \<^verbatim>\<open>snapshotSize()\<close> elements of the list are
  the map as it was at that moment, every key once; meanwhile the table behaves as the map under
  those changes, and clearing the outdated elements afterwards leaves that map and a table ready
  for the next snapshot.
\<close>

theorem snapshot_isolation:
  assumes "tb_inv t" and "tb_clean t" and "tb_run ops (tb_enableSnapshotMode t) = Some u"
  shows "map_of (tb_prefix (tb_snapshotSize t) u) = tb_find t
       \<and> distinct (map fst (tb_prefix (tb_snapshotSize t) u))
       \<and> (let w = tb_disableSnapshotMode (tb_clearOutdatedNodes u)
          in tb_inv w \<and> tb_clean w \<and> tb_find w = fold map_apply ops (tb_find t))"
proof -
  have r: "tb_inv u" "\<exists>es. tb_entries u = tb_entries t @ es" "tb_find u = fold map_apply ops (tb_find t)"
    using tb_run_snapshot [OF assms(3)] assms(1) by simp_all
  then obtain es where "tb_entries u = tb_entries t @ es" by blast
  then have "tb_prefix (tb_snapshotSize t) u = tb_entries t"
    by (simp add: tb_prefix_entries tb_snapshotSize_def) (simp add: tb_entries_def)
  moreover have "tb_clean (tb_disableSnapshotMode (tb_clearOutdatedNodes u))"
    using tb_clearOutdated_clean [of u] by (simp add: tb_clean_def)
  ultimately show ?thesis
    using tb_clean_entries [OF assms(1,2)] tb_clearOutdated [OF r(1)] r(3) by (simp add: Let_def)
qed

definition sample_table :: "int snapshotable_table" where
  "sample_table = snd (tb_insert ''b'' 2 (snd (tb_insert ''a'' 1 tb_empty)))"

definition sample_ops :: "int tb_op list" where
  "sample_ops = [TbErase ''a'', TbUpdate ''b'' (\<lambda>v. v + 5), TbInsert ''c'' 3]"

lemma sample_table_facts:
  "tb_inv sample_table" "tb_clean sample_table" "tb_snapshotSize sample_table = 2"
  by (simp add: sample_table_def tb_insert_inv)
     (simp_all add: sample_table_def tb_clean_def tb_snapshotSize_def tb_insert_def tb_append_def tb_empty_def)

lemmas sample_eval = sample_table_def sample_ops_def tb_enableSnapshotMode_def tb_insert_def tb_append_def
  tb_empty_def tb_erase_def tb_retire_def tb_updateValue_def tb_find_def tb_deref_def

theorem snapshot_isolation_witness:
  "\<exists>u. tb_run sample_ops (tb_enableSnapshotMode sample_table) = Some u
     \<and> map_of (tb_prefix 2 u) = tb_find sample_table
     \<and> tb_find sample_table ''a'' = Some 1 \<and> tb_find u ''a'' = None \<and> tb_find u ''b'' = Some 7"
proof -
  define u where "u = the (tb_run sample_ops (tb_enableSnapshotMode sample_table))"
  have e: "tb_run sample_ops (tb_enableSnapshotMode sample_table) = Some u"
    unfolding u_def by (simp add: sample_eval)
  moreover have "tb_find sample_table ''a'' = Some 1" "tb_find u ''a'' = None" "tb_find u ''b'' = Some 7"
    unfolding u_def by (simp_all add: sample_eval)
  moreover have "map_of (tb_prefix 2 u) = tb_find sample_table"
    using snapshot_isolation [OF sample_table_facts(1,2) e] sample_table_facts(3) by simp
  ultimately show ?thesis by blast
qed

end
