(* ===== verification/Keeper_Storage.thy ===== *)
theory Keeper_Storage
  imports Keeper_Protocol Keeper_Table Text_IO
begin

text \<open>
  \<^verbatim>\<open>KeeperStorage\<close> (\<^verbatim>\<open>Coordination/KeeperStorage.{h,cpp}\<close>): the tree of nodes, the ephemeral nodes of
  the sessions, the watches, and one function per request class.  The definitions of this theory
  are the code; the theories after it prove what they do.

  The container is the table of \<open>Keeper_Table\<close>.  An undefined step (an update of a missing
  node, the dereference of a missing iterator) is \<open>None\<close>; an exception is \<open>Inl\<close> with the
  storage as it is when the exception leaves \<^verbatim>\<open>processRequest\<close>.  The reading of the system clock
  that a creation or a write stores in the node is an argument.
\<close>

section \<open>Paths\<close>

definition rfind :: "char \<Rightarrow> string \<Rightarrow> nat option" where
  "rfind c s =
     (if c \<in> set s then Some (length s - Suc (length (takeWhile (\<lambda>x. x \<noteq> c) (rev s)))) else None)"

abbreviation slash :: char where "slash \<equiv> CHR ''/''"

text \<open>Without a slash the position is \<^verbatim>\<open>npos\<close>, which is greater than zero: the path itself.\<close>

definition parentPath :: "string \<Rightarrow> string" where
  "parentPath path =
     (case rfind slash path of
        None \<Rightarrow> path
      | Some rslash_pos \<Rightarrow> if rslash_pos > 0 then take rslash_pos path else [slash])"

definition getBaseName :: "string \<Rightarrow> string" where
  "getBaseName path =
     (case rfind slash path of None \<Rightarrow> path | Some basename_start \<Rightarrow> drop (basename_start + 1) path)"

section \<open>Nodes and the state\<close>

record node =
  data :: string
  node_acls :: "acl list"
  is_sequental :: bool
  stat_of :: stat
  seq_num :: i32
  children :: "string set"

definition node_new :: node where
  "node_new = \<lparr>data = [], node_acls = [], is_sequental = False, stat_of = stat_zero, seq_num = 0, children = {}\<rparr>"

type_synonym container = "node snapshotable_table"
type_synonym ephemerals = "(session \<times> string list) list"
type_synonym store = "container \<times> ephemerals"
type_synonym watches = "(string \<times> session list) list"

record keeper_storage =
  session_id_counter :: i64
  ks_container :: container
  ks_ephemerals :: ephemerals
  sessions_and_watchers :: "(session \<times> string list) list"
  session_expiry_queue :: session_queue
  session_and_timeout :: "(session \<times> i64) list"
  ks_zxid :: i64
  finalized :: bool
  ks_watches :: watches
  list_watches :: watches

definition keeper_storage_new :: "int \<Rightarrow> int \<Rightarrow> keeper_storage" where
  "keeper_storage_new tick_time_ms now =
     \<lparr>session_id_counter = 1, ks_container = snd (tb_insert [slash] node_new tb_empty), ks_ephemerals = [],
      sessions_and_watchers = [], session_expiry_queue = sq_new tick_time_ms now, session_and_timeout = [],
      ks_zxid = 0, finalized = False, ks_watches = [], list_watches = []\<rparr>"

text \<open>An unordered map of sets: \<^verbatim>\<open>m[k].emplace(p)\<close> and \<^verbatim>\<open>m[k].erase(p)\<close>, both creating the set.\<close>

definition sets_at :: "('k \<times> 'a list) list \<Rightarrow> 'k \<Rightarrow> 'a list" where
  "sets_at m k = (case map_of m k of None \<Rightarrow> [] | Some ps \<Rightarrow> ps)"

definition sets_emplace :: "'k \<Rightarrow> 'a \<Rightarrow> ('k \<times> 'a list) list \<Rightarrow> ('k \<times> 'a list) list" where
  "sets_emplace k p m = AList.update k (List.insert p (sets_at m k)) m"

definition sets_erase :: "'k \<Rightarrow> 'a \<Rightarrow> ('k \<times> 'a list) list \<Rightarrow> ('k \<times> 'a list) list" where
  "sets_erase k p m = AList.update k (removeAll p (sets_at m k)) m"

text \<open>A change of a node that drops the iterator \<^verbatim>\<open>updateValue\<close> returns.\<close>

definition update_node :: "string \<Rightarrow> (node \<Rightarrow> node) \<Rightarrow> container \<Rightarrow> container option" where
  "update_node path f c = map_option snd (tb_updateValue path f c)"

abbreviation on_stat :: "(stat \<Rightarrow> stat) \<Rightarrow> node \<Rightarrow> node" where
  "on_stat f n \<equiv> n\<lparr>stat_of := f (stat_of n)\<rparr>"

section \<open>Undo actions\<close>

text \<open>The closures a request leaves behind, with the values they capture.\<close>

datatype undo =
    NoUndo
  | UndoCreate session string bool string string
  | UndoRemove node string string
  | UndoSet node string

definition child_added :: "string \<Rightarrow> node \<Rightarrow> node" where
  "child_added child parent =
     parent\<lparr>seq_num := seq_num parent + 1, children := insert child (children parent),
            stat_of := (stat_of parent)\<lparr>cversion := cversion (stat_of parent) + 1,
                                        numChildren := numChildren (stat_of parent) + 1\<rparr>\<rparr>"

definition child_added_undo :: "string \<Rightarrow> node \<Rightarrow> node" where
  "child_added_undo child parent =
     parent\<lparr>seq_num := seq_num parent - 1, children := children parent - {child},
            stat_of := (stat_of parent)\<lparr>cversion := cversion (stat_of parent) - 1,
                                        numChildren := numChildren (stat_of parent) - 1\<rparr>\<rparr>"

definition child_removed :: "string \<Rightarrow> node \<Rightarrow> node" where
  "child_removed child parent =
     parent\<lparr>children := children parent - {child},
            stat_of := (stat_of parent)\<lparr>numChildren := numChildren (stat_of parent) - 1,
                                        cversion := cversion (stat_of parent) + 1\<rparr>\<rparr>"

definition child_removed_undo :: "string \<Rightarrow> node \<Rightarrow> node" where
  "child_removed_undo child parent =
     parent\<lparr>children := insert child (children parent),
            stat_of := (stat_of parent)\<lparr>numChildren := numChildren (stat_of parent) + 1,
                                        cversion := cversion (stat_of parent) - 1\<rparr>\<rparr>"

definition undo_create :: "session \<Rightarrow> string \<Rightarrow> bool \<Rightarrow> string \<Rightarrow> string \<Rightarrow> store \<Rightarrow> store option" where
  "undo_create session_id path_created is_ephemeral parent_path child_path st =
     (let (c, e) = st;
          c1 = snd (tb_erase path_created c);
          e1 = (if is_ephemeral then sets_erase session_id path_created e else e)
      in map_option (\<lambda>c2. (c2, e1)) (update_node parent_path (child_added_undo child_path) c1))"

definition undo_remove :: "node \<Rightarrow> string \<Rightarrow> string \<Rightarrow> store \<Rightarrow> store option" where
  "undo_remove prev_node path child_basename st =
     (let (c, e) = st;
          owner = ephemeralOwner (stat_of prev_node);
          e1 = (if owner \<noteq> 0 then sets_emplace owner path e else e);
          c1 = snd (tb_insert path prev_node c)
      in map_option (\<lambda>c2. (c2, e1)) (update_node (parentPath path) (child_removed_undo child_basename) c1))"

definition undo_set :: "node \<Rightarrow> string \<Rightarrow> store \<Rightarrow> store option" where
  "undo_set prev_node path st =
     (let (c, e) = st in
      case update_node path (\<lambda>_. prev_node) c of
        None \<Rightarrow> None
      | Some c1 \<Rightarrow>
          map_option (\<lambda>c2. (c2, e))
            (update_node (parentPath path) (on_stat (\<lambda>s. s\<lparr>cversion := cversion s - 1\<rparr>)) c1))"

fun run_undo :: "undo \<Rightarrow> store \<Rightarrow> store option" where
  "run_undo NoUndo st = Some st"
| "run_undo (UndoCreate session_id path_created is_ephemeral parent_path child_path) st =
     undo_create session_id path_created is_ephemeral parent_path child_path st"
| "run_undo (UndoRemove prev_node path child_basename) st = undo_remove prev_node path child_basename st"
| "run_undo (UndoSet prev_node path) st = undo_set prev_node path st"

fun run_undos :: "undo list \<Rightarrow> store \<Rightarrow> store option" where
  "run_undos [] st = Some st"
| "run_undos (u # us) st = (case run_undo u st of None \<Rightarrow> None | Some st' \<Rightarrow> run_undos us st')"


section \<open>One function per request class\<close>

text \<open>
  A request answers with a response and the action that undoes it.  \<open>now\<close> is the reading of
  \<^verbatim>\<open>system_clock\<close>, in milliseconds, that the request makes.
\<close>

type_synonym processed = "(zk_response \<times> undo \<times> store) option"

definition answer :: "zk_response \<Rightarrow> store \<Rightarrow> processed" where
  "answer response st = Some (response, NoUndo, st)"

text \<open>\<^verbatim>\<open>setw(10)\<close> and \<^verbatim>\<open>setfill('0')\<close>.\<close>

definition seq_num_str :: "i32 \<Rightarrow> string" where
  "seq_num_str n = (let s = writeIntText (sint n) in replicate (10 - length s) CHR ''0'' @ s)"

definition created_node_of :: "i64 \<Rightarrow> i64 \<Rightarrow> session \<Rightarrow> string \<Rightarrow> bool \<Rightarrow> bool \<Rightarrow> node" where
  "created_node_of now zxid session_id content is_ephemeral is_sequential =
     node_new\<lparr>data := content, is_sequental := is_sequential,
        stat_of := stat_zero\<lparr>czxid := zxid, mzxid := zxid, ctime := now, mtime := now, numChildren := 0,
          dataLength := word_of_nat (length content),
          ephemeralOwner := (if is_ephemeral then session_id else 0)\<rparr>\<rparr>"

definition process_create ::
  "i64 \<Rightarrow> i64 \<Rightarrow> session \<Rightarrow> string \<Rightarrow> string \<Rightarrow> acl list \<Rightarrow> bool \<Rightarrow> bool \<Rightarrow> store \<Rightarrow> processed" where
  "process_create now zxid session_id path content request_acls is_ephemeral is_sequential st =
     (let (c, e) = st;
          fail = (\<lambda>err. answer (response_error (CreateRequest path content request_acls is_ephemeral is_sequential) err) st)
      in if tb_contains path c then fail ZNODEEXISTS
         else
           let parent_path = parentPath path in
           case tb_find c parent_path of
             None \<Rightarrow> fail ZNONODE
           | Some parent \<Rightarrow>
               if ephemeralOwner (stat_of parent) \<noteq> 0 then fail ZNOCHILDRENFOREPHEMERALS
               else
                 let created_node = created_node_of now zxid session_id content is_ephemeral is_sequential;
                     path_created = (if is_sequential then path @ seq_num_str (seq_num parent) else path);
                     child_path = getBaseName path_created
                 in case update_node parent_path (child_added child_path) c of
                      None \<Rightarrow> None
                    | Some c1 \<Rightarrow>
                        let c2 = snd (tb_insert path_created created_node c1);
                            e1 = (if is_ephemeral then sets_emplace session_id path_created e else e)
                        in Some (response_ok (CreateResponse path_created),
                                 UndoCreate session_id path_created is_ephemeral parent_path child_path, (c2, e1)))"

definition process_get :: "string \<Rightarrow> store \<Rightarrow> processed" where
  "process_get path st =
     (case tb_find (fst st) path of
        None \<Rightarrow> answer (response_error (GetRequest path) ZNONODE) st
      | Some n \<Rightarrow> answer (response_ok (GetResponse (data n) (stat_of n))) st)"

definition process_remove :: "string \<Rightarrow> i32 \<Rightarrow> store \<Rightarrow> processed" where
  "process_remove path request_version st =
     (let (c, e) = st; fail = (\<lambda>err. answer (response_error (RemoveRequest path request_version) err) st) in
      case tb_find c path of
        None \<Rightarrow> fail ZNONODE
      | Some prev_node \<Rightarrow>
          if request_version \<noteq> - 1 \<and> request_version \<noteq> version (stat_of prev_node) then fail ZBADVERSION
          else if numChildren (stat_of prev_node) \<noteq> 0 then fail ZNOTEMPTY
          else
            let owner = ephemeralOwner (stat_of prev_node);
                ephemerals_erased =
                  (if owner \<noteq> 0 then
                     (case map_of e owner of
                        None \<Rightarrow> None
                      | Some ps \<Rightarrow>
                          Some (if removeAll path ps = [] then AList.delete owner e
                                else AList.update owner (removeAll path ps) e))
                   else Some e);
                child_basename = getBaseName path
            in case ephemerals_erased of
                 None \<Rightarrow> None
               | Some e1 \<Rightarrow>
                   (case update_node (parentPath path) (child_removed child_basename) c of
                      None \<Rightarrow> None
                    | Some c1 \<Rightarrow>
                        Some (response_ok RemoveResponse, UndoRemove prev_node path child_basename,
                              (snd (tb_erase path c1), e1))))"

definition process_exists :: "string \<Rightarrow> store \<Rightarrow> processed" where
  "process_exists path st =
     (case tb_find (fst st) path of
        None \<Rightarrow> answer (response_error (ExistsRequest path) ZNONODE) st
      | Some n \<Rightarrow> answer (response_ok (ExistsResponse (stat_of n))) st)"

definition written :: "i64 \<Rightarrow> i64 \<Rightarrow> string \<Rightarrow> node \<Rightarrow> node" where
  "written now zxid content n =
     n\<lparr>data := content,
       stat_of := (stat_of n)\<lparr>version := version (stat_of n) + 1, mzxid := zxid, mtime := now,
                              dataLength := word_of_nat (length content)\<rparr>\<rparr>"

text \<open>The response reads the node through the iterator of the first update, after the second.\<close>

definition process_set :: "i64 \<Rightarrow> i64 \<Rightarrow> string \<Rightarrow> string \<Rightarrow> i32 \<Rightarrow> store \<Rightarrow> processed" where
  "process_set now zxid path content request_version st =
     (let (c, e) = st; fail = (\<lambda>err. answer (response_error (SetRequest path content request_version) err) st) in
      case tb_find c path of
        None \<Rightarrow> fail ZNONODE
      | Some prev_node \<Rightarrow>
          if request_version = - 1 \<or> request_version = version (stat_of prev_node) then
            (case tb_updateValue path (written now zxid content) c of
               None \<Rightarrow> None
             | Some (itr, c1) \<Rightarrow>
                 (case update_node (parentPath path) (on_stat (\<lambda>s. s\<lparr>cversion := cversion s + 1\<rparr>)) c1 of
                    None \<Rightarrow> None
                  | Some c2 \<Rightarrow>
                      (case tb_deref itr c2 of
                         None \<Rightarrow> None
                       | Some n \<Rightarrow> Some (response_ok (SetResponse (stat_of n)), UndoSet prev_node path, (c2, e)))))
          else fail ZBADVERSION)"

definition process_check :: "string \<Rightarrow> i32 \<Rightarrow> store \<Rightarrow> processed" where
  "process_check path request_version st =
     (let fail = (\<lambda>err. answer (response_error (CheckRequest path request_version) err) st) in
      case tb_find (fst st) path of
        None \<Rightarrow> fail ZNONODE
      | Some n \<Rightarrow>
          if request_version \<noteq> - 1 \<and> request_version \<noteq> version (stat_of n) then fail ZBADVERSION
          else answer (response_ok CheckResponse) st)"


section \<open>Multi requests\<close>

datatype keeper_exception = LOGICAL_ERROR | BAD_ARGUMENTS

type_synonym outcome = "(keeper_exception, zk_response \<times> undo \<times> store) result option"

definition process_list :: "zk_request_body \<Rightarrow> string \<Rightarrow> store \<Rightarrow> outcome" where
  "process_list body path st =
     (case tb_find (fst st) path of
        None \<Rightarrow> Some (Inr (response_error body ZNONODE, NoUndo, st))
      | Some n \<Rightarrow>
          if path = [] then Some (Inl LOGICAL_ERROR)
          else Some (Inr (response_ok (ListResponse (children n) (stat_of n)), NoUndo, st)))"

text \<open>
  The constructor of a multi request admits four request classes and throws for every other.  None
  of the four throws, so the \<^verbatim>\<open>catch\<close> of the loop, which runs the same undo actions, is not reached.
\<close>

datatype concrete_request =
    ConcreteCreate string string "acl list" bool bool
  | ConcreteRemove string i32
  | ConcreteSet string string i32
  | ConcreteCheck string i32

fun concrete_of :: "zk_request \<Rightarrow> concrete_request option" where
  "concrete_of (ZkRequest xid w (CreateRequest path content acls eph seq)) = Some (ConcreteCreate path content acls eph seq)"
| "concrete_of (ZkRequest xid w (RemoveRequest path ver)) = Some (ConcreteRemove path ver)"
| "concrete_of (ZkRequest xid w (SetRequest path content ver)) = Some (ConcreteSet path content ver)"
| "concrete_of (ZkRequest xid w (CheckRequest path ver)) = Some (ConcreteCheck path ver)"
| "concrete_of _ = None"

fun concrete_requests :: "zk_request list \<Rightarrow> (keeper_exception, concrete_request list) result" where
  "concrete_requests [] = Inr []"
| "concrete_requests (r # rs) =
     (case concrete_of r of
        None \<Rightarrow> Inl BAD_ARGUMENTS
      | Some q \<Rightarrow> bind_result (concrete_requests rs) (\<lambda>qs. Inr (q # qs)))"

fun process_concrete :: "i64 \<Rightarrow> i64 \<Rightarrow> session \<Rightarrow> concrete_request \<Rightarrow> store \<Rightarrow> processed" where
  "process_concrete now zxid s (ConcreteCreate path content acls eph seq) st =
     process_create now zxid s path content acls eph seq st"
| "process_concrete now zxid s (ConcreteRemove path ver) st = process_remove path ver st"
| "process_concrete now zxid s (ConcreteSet path content ver) st = process_set now zxid path content ver st"
| "process_concrete now zxid s (ConcreteCheck path ver) st = process_check path ver st"

definition error_response :: "zk_error \<Rightarrow> zk_response" where
  "error_response err = ZkResponse 0 0 err ErrorResponse"

text \<open>
  The loop, with the clock reading of every sub-request, the responses so far and the undo actions
  so far, latest first.
\<close>

fun multi_loop ::
  "(nat \<Rightarrow> i64) \<Rightarrow> i64 \<Rightarrow> session \<Rightarrow> nat \<Rightarrow> concrete_request list \<Rightarrow> zk_response list \<Rightarrow> undo list \<Rightarrow> store
     \<Rightarrow> (zk_response list \<times> store) option" where
  "multi_loop clock zxid s i [] responses undo_actions st = Some (responses, st)"
| "multi_loop clock zxid s i (q # qs) responses undo_actions st =
     (case process_concrete (clock i) zxid s q st of
        None \<Rightarrow> None
      | Some (cur_response, undo_action, st1) \<Rightarrow>
          if rs_error cur_response \<noteq> ZOK then
            (case run_undos undo_actions st1 of
               None \<Rightarrow> None
             | Some st2 \<Rightarrow>
                 Some (map (\<lambda>r. error_response (rs_error r)) (responses @ [cur_response])
                       @ replicate (length qs) (error_response ZRUNTIMEINCONSISTENCY), st2))
          else multi_loop clock zxid s (Suc i) qs (responses @ [cur_response]) (undo_action # undo_actions) st1)"

definition process_multi :: "(nat \<Rightarrow> i64) \<Rightarrow> i64 \<Rightarrow> session \<Rightarrow> zk_request list \<Rightarrow> store \<Rightarrow> outcome" where
  "process_multi clock zxid s requests st =
     (case concrete_requests requests of
        Inl ex \<Rightarrow> Some (Inl ex)
      | Inr qs \<Rightarrow>
          (case multi_loop clock zxid s 0 qs [] [] st of
             None \<Rightarrow> None
           | Some (responses, st1) \<Rightarrow> Some (Inr (response_ok (MultiResponse responses), NoUndo, st1))))"

definition no_throw :: "processed \<Rightarrow> outcome" where
  "no_throw p = map_option Inr p"

text \<open>\<^verbatim>\<open>KeeperWrapperFactory::get\<close> and the \<^verbatim>\<open>process\<close> it leads to.\<close>

fun process :: "(nat \<Rightarrow> i64) \<Rightarrow> i64 \<Rightarrow> session \<Rightarrow> zk_request_body \<Rightarrow> store \<Rightarrow> outcome" where
  "process clock zxid s HeartbeatRequest st = no_throw (answer (response_ok HeartbeatResponse) st)"
| "process clock zxid s (SyncRequest path) st = no_throw (answer (response_ok (SyncResponse path)) st)"
| "process clock zxid s (AuthRequest type sch dat) st = no_throw (answer (response_ok AuthResponse) st)"
| "process clock zxid s CloseRequest st = Some (Inl LOGICAL_ERROR)"
| "process clock zxid s (CreateRequest path content acls eph seq) st =
     no_throw (process_create (clock 0) zxid s path content acls eph seq st)"
| "process clock zxid s (RemoveRequest path ver) st = no_throw (process_remove path ver st)"
| "process clock zxid s (ExistsRequest path) st = no_throw (process_exists path st)"
| "process clock zxid s (GetRequest path) st = no_throw (process_get path st)"
| "process clock zxid s (SetRequest path content ver) st =
     no_throw (process_set (clock 0) zxid path content ver st)"
| "process clock zxid s (SimpleListRequest path) st = process_list (SimpleListRequest path) path st"
| "process clock zxid s (ListRequest path) st = process_list (ListRequest path) path st"
| "process clock zxid s (CheckRequest path ver) st = no_throw (process_check path ver st)"
| "process clock zxid s (MultiRequest requests) st = process_multi clock zxid s requests st"
| "process clock zxid s (SessionIDRequest internal_id timeout server_id) st = Some (Inl LOGICAL_ERROR)"

section \<open>Watches\<close>

type_synonym responses_for_sessions = "(session \<times> zk_response) list"

definition watch_response :: "string \<Rightarrow> zk_event \<Rightarrow> zk_response" where
  "watch_response path ev = ZkResponse WATCH_XID (- 1) ZOK (WatchResponse path ev)"

definition fire :: "string \<Rightarrow> zk_event \<Rightarrow> watches \<Rightarrow> responses_for_sessions \<times> watches" where
  "fire path ev ws =
     (case map_of ws path of
        None \<Rightarrow> ([], ws)
      | Some sessions \<Rightarrow> (map (\<lambda>s. (s, watch_response path ev)) sessions, AList.delete path ws))"

definition processWatchesImpl ::
  "string \<Rightarrow> zk_event \<Rightarrow> watches \<times> watches \<Rightarrow> responses_for_sessions \<times> watches \<times> watches" where
  "processWatchesImpl path event_type w =
     (let (ws, lws) = w;
          (r1, ws1) = fire path event_type ws;
          (r2, lws1) = fire (parentPath path) CHILD lws
      in (r1 @ r2, ws1, lws1))"

fun concrete_watches ::
  "concrete_request \<Rightarrow> watches \<times> watches \<Rightarrow> responses_for_sessions \<times> watches \<times> watches" where
  "concrete_watches (ConcreteCreate path content acls eph seq) w = processWatchesImpl path CREATED w"
| "concrete_watches (ConcreteRemove path ver) w = processWatchesImpl path DELETED w"
| "concrete_watches (ConcreteSet path content ver) w = processWatchesImpl path CHANGED w"
| "concrete_watches (ConcreteCheck path ver) w = ([], w)"

fun watches_loop ::
  "concrete_request list \<Rightarrow> watches \<times> watches \<Rightarrow> responses_for_sessions \<times> watches \<times> watches" where
  "watches_loop [] w = ([], w)"
| "watches_loop (q # qs) w =
     (let (r, w1) = concrete_watches q w; (rs, w2) = watches_loop qs w1 in (r @ rs, w2))"

definition processWatches ::
  "zk_request_body \<Rightarrow> watches \<times> watches \<Rightarrow> responses_for_sessions \<times> watches \<times> watches" where
  "processWatches body w =
     (case body of
        CreateRequest path _ _ _ _ \<Rightarrow> processWatchesImpl path CREATED w
      | RemoveRequest path _ \<Rightarrow> processWatchesImpl path DELETED w
      | SetRequest path _ _ \<Rightarrow> processWatchesImpl path CHANGED w
      | MultiRequest requests \<Rightarrow>
          (case concrete_requests requests of Inl _ \<Rightarrow> ([], w) | Inr qs \<Rightarrow> watches_loop qs w)
      | _ \<Rightarrow> ([], w))"


section \<open>The storage\<close>

text \<open>\<^verbatim>\<open>clearDeadWatches\<close>: the session leaves the watches of every path it was recorded for.\<close>

definition drop_watcher :: "session \<Rightarrow> string \<Rightarrow> watches \<Rightarrow> watches" where
  "drop_watcher s path ws =
     (case map_of ws path of
        None \<Rightarrow> ws
      | Some sessions \<Rightarrow>
          let left = removeAll s sessions
          in if left = [] then AList.delete path ws else AList.update path left ws)"

definition clearDeadWatches :: "session \<Rightarrow> keeper_storage \<Rightarrow> keeper_storage" where
  "clearDeadWatches s ks =
     (case map_of (sessions_and_watchers ks) s of
        None \<Rightarrow> ks
      | Some paths \<Rightarrow>
          ks\<lparr>ks_watches := fold (drop_watcher s) paths (ks_watches ks),
             list_watches := fold (drop_watcher s) paths (list_watches ks),
             sessions_and_watchers := AList.delete s (sessions_and_watchers ks)\<rparr>)"

text \<open>Closing a session removes its ephemeral nodes one after the other.\<close>

fun close_ephemerals ::
  "string list \<Rightarrow> container \<times> watches \<times> watches
     \<Rightarrow> (responses_for_sessions \<times> container \<times> watches \<times> watches) option" where
  "close_ephemerals [] cw = Some ([], cw)"
| "close_ephemerals (path # paths) (c, w) =
     (case update_node (parentPath path) (child_removed (getBaseName path)) (snd (tb_erase path c)) of
        None \<Rightarrow> None
      | Some c1 \<Rightarrow>
          let (r, w1) = processWatchesImpl path DELETED w in
          map_option (\<lambda>(rs, cw). (r @ rs, cw)) (close_ephemerals paths (c1, w1)))"

definition close_response :: "i32 \<Rightarrow> i64 \<Rightarrow> zk_response" where
  "close_response xid zxid = ZkResponse xid zxid ZOK CloseResponse"

definition close_session :: "session \<Rightarrow> i32 \<Rightarrow> keeper_storage \<Rightarrow> (responses_for_sessions \<times> keeper_storage) option" where
  "close_session s xid ks =
     (let removed =
        (case map_of (ks_ephemerals ks) s of
           None \<Rightarrow> Some ([], ks)
         | Some paths \<Rightarrow>
             map_option
               (\<lambda>(rs, c, ws, lws). (rs, ks\<lparr>ks_container := c, ks_watches := ws, list_watches := lws,
                                          ks_ephemerals := AList.delete s (ks_ephemerals ks)\<rparr>))
               (close_ephemerals paths (ks_container ks, ks_watches ks, list_watches ks)))
      in map_option
           (\<lambda>(rs, ks1).
              let ks2 = clearDeadWatches s ks1 in
              (rs @ [(s, close_response xid (ks_zxid ks2))],
               ks2\<lparr>session_expiry_queue := snd (sq_remove s (session_expiry_queue ks2)),
                   session_and_timeout := AList.delete s (session_and_timeout ks2)\<rparr>))
           removed)"

text \<open>\<^verbatim>\<open>session_expiry_queue.update(session_id, session_and_timeout[session_id])\<close>: an unknown session gets the timeout 0.\<close>

definition touch_session :: "int \<Rightarrow> session \<Rightarrow> keeper_storage \<Rightarrow> keeper_storage" where
  "touch_session now s ks =
     (let timeouts = (case map_of (session_and_timeout ks) s of
                        None \<Rightarrow> AList.update s 0 (session_and_timeout ks)
                      | Some _ \<Rightarrow> session_and_timeout ks);
          timeout = (case map_of timeouts s of None \<Rightarrow> 0 | Some t \<Rightarrow> sint t)
      in ks\<lparr>session_and_timeout := timeouts,
            session_expiry_queue := snd (sq_update now s timeout (session_expiry_queue ks))\<rparr>)"

text \<open>The watch a request leaves: lists watch the children, everything else the node.\<close>

definition register_watch :: "session \<Rightarrow> zk_request \<Rightarrow> zk_error \<Rightarrow> keeper_storage \<Rightarrow> keeper_storage" where
  "register_watch s request err ks =
     (let path = getPath (rq_body request);
          recorded = sets_emplace s path (sessions_and_watchers ks);
          watchers = (\<lambda>ws. AList.update path (sets_at ws path @ [s]) ws);
          op = getOpNum (rq_body request)
      in if \<not> rq_has_watch request then ks
         else if err = ZOK then
           (if op = OpList \<or> op = OpSimpleList
            then ks\<lparr>list_watches := watchers (list_watches ks), sessions_and_watchers := recorded\<rparr>
            else ks\<lparr>ks_watches := watchers (ks_watches ks), sessions_and_watchers := recorded\<rparr>)
         else if err = ZNONODE \<and> op = OpExists
           then ks\<lparr>ks_watches := watchers (ks_watches ks), sessions_and_watchers := recorded\<rparr>
         else ks)"

definition stamp :: "i32 \<Rightarrow> i64 \<Rightarrow> zk_response \<Rightarrow> zk_response" where
  "stamp xid zxid r = ZkResponse xid zxid (rs_error r) (rs_body r)"

type_synonym requested =
  "(keeper_exception \<times> keeper_storage, responses_for_sessions \<times> keeper_storage) result option"

definition run_request ::
  "(nat \<Rightarrow> i64) \<Rightarrow> session \<Rightarrow> zk_request \<Rightarrow> keeper_storage \<Rightarrow> requested" where
  "run_request clock s request ks =
     (case process clock (ks_zxid ks) s (rq_body request) (ks_container ks, ks_ephemerals ks) of
        None \<Rightarrow> None
      | Some (Inl ex) \<Rightarrow> Some (Inl (ex, ks))
      | Some (Inr (response, undo_action, c, e)) \<Rightarrow>
          let ks1 = ks\<lparr>ks_container := c, ks_ephemerals := e\<rparr>;
              answered = stamp (rq_xid request) (ks_zxid ks) response
          in if getOpNum (rq_body request) = OpHeartbeat then Some (Inr ([(s, answered)], ks1))
             else
               let ks2 = register_watch s request (rs_error response) ks1 in
               if rs_error response = ZOK then
                 (let (rs, ws, lws) = processWatches (rq_body request) (ks_watches ks2, list_watches ks2)
                  in Some (Inr (rs @ [(s, answered)], ks2\<lparr>ks_watches := ws, list_watches := lws\<rparr>)))
               else Some (Inr ([(s, answered)], ks2)))"

definition advance_zxid :: "i64 option \<Rightarrow> keeper_storage \<Rightarrow> (keeper_exception, keeper_storage) result" where
  "advance_zxid new_last_zxid ks =
     (case new_last_zxid of
        None \<Rightarrow> Inr ks
      | Some z \<Rightarrow> if sint (ks_zxid ks) \<ge> sint z then Inl LOGICAL_ERROR else Inr (ks\<lparr>ks_zxid := z\<rparr>))"

definition processRequest ::
  "int \<Rightarrow> (nat \<Rightarrow> i64) \<Rightarrow> zk_request \<Rightarrow> session \<Rightarrow> i64 option \<Rightarrow> keeper_storage \<Rightarrow> requested" where
  "processRequest now clock request s new_last_zxid ks =
     (case advance_zxid new_last_zxid ks of
        Inl ex \<Rightarrow> Some (Inl (ex, ks))
      | Inr ks0 \<Rightarrow>
          let ks1 = touch_session now s ks0 in
          if getOpNum (rq_body request) = OpClose
          then map_option Inr (close_session s (rq_xid request) ks1)
          else run_request clock s request ks1)"

definition getSessionID :: "int \<Rightarrow> i64 \<Rightarrow> keeper_storage \<Rightarrow> session \<times> keeper_storage" where
  "getSessionID now session_timeout_ms ks =
     (let result = session_id_counter ks in
      (result,
       ks\<lparr>session_id_counter := result + 1,
          session_and_timeout :=
            (case map_of (session_and_timeout ks) result of
               None \<Rightarrow> AList.update result session_timeout_ms (session_and_timeout ks)
             | Some _ \<Rightarrow> session_and_timeout ks),
          session_expiry_queue := snd (sq_update now result (sint session_timeout_ms) (session_expiry_queue ks))\<rparr>))"

definition addSessionID :: "int \<Rightarrow> session \<Rightarrow> i64 \<Rightarrow> keeper_storage \<Rightarrow> keeper_storage" where
  "addSessionID now s session_timeout_ms ks =
     ks\<lparr>session_and_timeout :=
          (case map_of (session_and_timeout ks) s of
             None \<Rightarrow> AList.update s session_timeout_ms (session_and_timeout ks)
           | Some _ \<Rightarrow> session_and_timeout ks),
        session_expiry_queue := snd (sq_update now s (sint session_timeout_ms) (session_expiry_queue ks))\<rparr>"

definition getDeadSessions :: "int \<Rightarrow> keeper_storage \<Rightarrow> session list \<times> keeper_storage" where
  "getDeadSessions now ks =
     (let (dead, q) = sq_getExpiredSessions now (session_expiry_queue ks)
      in (dead, ks\<lparr>session_expiry_queue := q\<rparr>))"

definition finalize :: "keeper_storage \<Rightarrow> (keeper_exception, keeper_storage) result" where
  "finalize ks =
     (if finalized ks then Inl LOGICAL_ERROR
      else Inr (ks\<lparr>finalized := True,
                   ks_container := fold (\<lambda>path c. snd (tb_erase path c)) (concat (map snd (ks_ephemerals ks))) (ks_container ks),
                   ks_ephemerals := [], ks_watches := [], list_watches := [], sessions_and_watchers := [],
                   session_expiry_queue := sq_clear (session_expiry_queue ks)\<rparr>))"

end
