(* ===== verification/Keeper_Tree.thy ===== *)
theory Keeper_Tree
  imports Keeper_Storage
begin

text \<open>
  The tree the Keeper storage keeps in its flat table of paths.  A node other than the root has a
  parent that lists it, every listed child exists, the counters agree with the lists, and the
  ephemeral nodes are those recorded for their sessions; every request keeps this, and a multi
  request that fails leaves no trace in it.
\<close>

section \<open>Paths\<close>

text \<open>The paths ZooKeeper admits: they start with a slash, do not end with one, and have no empty component.\<close>

definition valid_path :: "string \<Rightarrow> bool" where
  "valid_path p \<longleftrightarrow> p = [slash]
     \<or> p \<noteq> [] \<and> hd p = slash \<and> last p \<noteq> slash \<and> successively (\<lambda>a b. \<not> (a = slash \<and> b = slash)) p"

definition join_path :: "string \<Rightarrow> string \<Rightarrow> string" where
  "join_path parent base = (if parent = [slash] then slash # base else parent @ slash # base)"

lemma rfind_append: "c \<notin> set b \<Longrightarrow> rfind c (a @ c # b) = Some (length a)"
proof -
  assume "c \<notin> set b"
  then have "takeWhile (\<lambda>x. x \<noteq> c) (rev b @ c # rev a) = rev b"
    by (subst takeWhile_append2) auto
  then show ?thesis by (simp add: rfind_def)
qed

lemma rfind_None: "rfind c s = None \<longleftrightarrow> c \<notin> set s"
  by (simp add: rfind_def)

lemma path_parts:
  assumes "slash \<notin> set b"
  shows "parentPath (a @ slash # b) = (if a = [] then [slash] else a)" and "getBaseName (a @ slash # b) = b"
  using rfind_append [OF assms, of a] by (auto simp: parentPath_def getBaseName_def)

lemma parentPath_root [simp]: "parentPath [slash] = [slash]"
  using path_parts(1) [of "[]" "[]"] by simp

lemma valid_path_root [simp]: "valid_path [slash]"
  by (simp add: valid_path_def)

lemma valid_path_split:
  assumes "valid_path p" and "p \<noteq> [slash]"
  obtains a b where "p = a @ slash # b" "slash \<notin> set b" "b \<noteq> []" "a \<noteq> [slash]"
proof -
  have v: "p \<noteq> []" "hd p = slash" "last p \<noteq> slash" "successively (\<lambda>a b. \<not> (a = slash \<and> b = slash)) p"
    using assms by (auto simp: valid_path_def)
  then have "slash \<in> set p" by (metis hd_in_set)
  then obtain a b where ab: "p = a @ slash # b" "slash \<notin> set b" by (meson split_list_last)
  moreover have "b \<noteq> []" using v(3) ab(1) by auto
  moreover have "a \<noteq> [slash]" using v(4) ab(1) by auto
  ultimately show ?thesis by (rule that)
qed

lemma join_parts:
  assumes "valid_path p" and "p \<noteq> [slash]"
  shows "join_path (parentPath p) (getBaseName p) = p" and "parentPath p \<noteq> p"
    and "slash \<notin> set (getBaseName p)" and "getBaseName p \<noteq> []"
proof -
  obtain a b where ab: "p = a @ slash # b" "slash \<notin> set b" "b \<noteq> []" "a \<noteq> [slash]"
    using valid_path_split [OF assms] by blast
  show "join_path (parentPath p) (getBaseName p) = p" "parentPath p \<noteq> p"
    "slash \<notin> set (getBaseName p)" "getBaseName p \<noteq> []"
    using ab path_parts [OF ab(2), of a] by (auto simp: join_path_def)
qed

lemma path_unique:
  assumes "valid_path p" "valid_path q" "p \<noteq> [slash]" "q \<noteq> [slash]"
    and "parentPath p = parentPath q" "getBaseName p = getBaseName q"
  shows "p = q"
proof -
  have "p = join_path (parentPath p) (getBaseName p)" by (rule join_parts(1) [OF assms(1,3), symmetric])
  also have "\<dots> = join_path (parentPath q) (getBaseName q)" by (simp only: assms(5,6))
  also have "\<dots> = q" by (rule join_parts(1) [OF assms(2,4)])
  finally show ?thesis .
qed

text \<open>A sequence number extends the last component and nothing else.\<close>

lemma seq_num_str_digits: "slash \<notin> set (seq_num_str n)"
  using writeIntText_chars [of slash "sint n"] by (auto simp: seq_num_str_def Let_def is_digit_def)

lemma seq_num_str_ne: "seq_num_str n \<noteq> []"
  by (simp add: seq_num_str_def Let_def)

lemma parent_extend:
  assumes "slash \<in> set path" and "slash \<notin> set ext"
  shows "parentPath (path @ ext) = parentPath path" and "getBaseName (path @ ext) = getBaseName path @ ext"
proof -
  obtain a b where ab: "path = a @ slash # b" "slash \<notin> set b" using assms(1) by (meson split_list_last)
  then show "parentPath (path @ ext) = parentPath path" "getBaseName (path @ ext) = getBaseName path @ ext"
    using path_parts [of b a] path_parts [of "b @ ext" a] assms(2) by auto
qed

lemma valid_path_slash: "valid_path p \<Longrightarrow> slash \<in> set p"
  by (auto simp: valid_path_def) (metis hd_in_set)


section \<open>The tree invariant\<close>

type_synonym forest = "string \<rightharpoonup> node"

abbreviation owner :: "node \<Rightarrow> session" where "owner n \<equiv> ephemeralOwner (stat_of n)"

definition counted :: "node \<Rightarrow> bool" where
  "counted n \<longleftrightarrow> finite (children n) \<and> numChildren (stat_of n) = word_of_nat (card (children n))"

definition listed :: "forest \<Rightarrow> string \<Rightarrow> bool" where
  "listed T p \<longleftrightarrow> (\<exists>m. T (parentPath p) = Some m \<and> getBaseName p \<in> children m \<and> owner m = 0)"

definition child_exists :: "forest \<Rightarrow> string \<Rightarrow> string \<Rightarrow> bool" where
  "child_exists T p b \<longleftrightarrow> (\<exists>q. T q \<noteq> None \<and> q \<noteq> [slash] \<and> parentPath q = p \<and> getBaseName q = b)"

definition tree :: "forest \<Rightarrow> bool" where
  "tree T \<longleftrightarrow>
     (\<exists>r. T [slash] = Some r \<and> owner r = 0)
     \<and> (\<forall>p n. T p = Some n \<longrightarrow>
          valid_path p \<and> counted n \<and> (p \<noteq> [slash] \<longrightarrow> listed T p) \<and> (\<forall>b \<in> children n. child_exists T p b))"

definition eph_ok :: "forest \<Rightarrow> ephemerals \<Rightarrow> bool" where
  "eph_ok T e \<longleftrightarrow> (\<forall>s p. p \<in> set (sets_at e s) \<longleftrightarrow> s \<noteq> 0 \<and> (\<exists>n. T p = Some n \<and> owner n = s))"

text \<open>The lists of ephemeral nodes stand for sets.\<close>

definition eph_distinct :: "ephemerals \<Rightarrow> bool" where
  "eph_distinct e \<longleftrightarrow> (\<forall>s. distinct (sets_at e s))"

definition store_inv :: "store \<Rightarrow> bool" where
  "store_inv st \<longleftrightarrow> tb_inv (fst st) \<and> tree (tb_find (fst st)) \<and> eph_ok (tb_find (fst st)) (snd st)
     \<and> eph_distinct (snd st)"

lemma treeD:
  assumes "tree T" and "T p = Some n"
  shows "valid_path p" and "counted n" and "p \<noteq> [slash] \<Longrightarrow> listed T p"
    and "b \<in> children n \<Longrightarrow> child_exists T p b"
  using assms by (auto simp: tree_def)

lemma tree_root: "tree T \<Longrightarrow> \<exists>r. T [slash] = Some r \<and> owner r = 0"
  by (simp add: tree_def)

lemma treeI:
  assumes "\<exists>r. T [slash] = Some r \<and> owner r = 0"
    and "\<And>p n. T p = Some n \<Longrightarrow> valid_path p \<and> counted n"
    and "\<And>p n. T p = Some n \<Longrightarrow> p \<noteq> [slash] \<Longrightarrow> listed T p"
    and "\<And>p n b. T p = Some n \<Longrightarrow> b \<in> children n \<Longrightarrow> child_exists T p b"
  shows "tree T"
  using assms by (simp add: tree_def)

lemma tree_no_child:
  assumes "tree T" and "T p = None" and "valid_path p" and "p \<noteq> [slash]" and "T (parentPath p) = Some m"
  shows "getBaseName p \<notin> children m"
proof
  assume "getBaseName p \<in> children m"
  then have "child_exists T (parentPath p) (getBaseName p)" by (rule treeD(4) [OF assms(1,5)])
  then obtain q where q: "T q \<noteq> None" "q \<noteq> [slash]" "parentPath q = parentPath p" "getBaseName q = getBaseName p"
    unfolding child_exists_def by blast
  then have "valid_path q" using treeD(1) [OF assms(1)] by fastforce
  then have "q = p" using path_unique q assms(3,4) by blast
  with q(1) assms(2) show False by simp
qed

text \<open>Changing a node without touching its children or its owner.\<close>

lemma child_exists_mono:
  "child_exists T p b \<Longrightarrow> (\<And>q. T q \<noteq> None \<Longrightarrow> T' q \<noteq> None) \<Longrightarrow> child_exists T' p b"
  unfolding child_exists_def by blast

lemma tree_touch:
  assumes "tree T" and "T p = Some n" and "children n' = children n" "numChildren (stat_of n') = numChildren (stat_of n)"
    and "owner n' = owner n"
  shows "tree (T(p \<mapsto> n'))"
proof (rule treeI)
  show "\<exists>r. (T(p \<mapsto> n')) [slash] = Some r \<and> owner r = 0"
    using tree_root [OF assms(1)] assms(2,5) by (cases "p = [slash]") simp_all
  show "valid_path q \<and> counted m" if "(T(p \<mapsto> n')) q = Some m" for q m
    using that assms treeD(1,2) [OF assms(1)] by (cases "q = p") (simp_all add: counted_def)
  have l: "listed (T(p \<mapsto> n')) q" if "listed T q" for q
    using that assms(2,3,5) by (cases "parentPath q = p") (simp_all add: listed_def)
  have c: "child_exists (T(p \<mapsto> n')) q b" if "child_exists T q b" for q b
    using that by (rule child_exists_mono) simp
  show "listed (T(p \<mapsto> n')) q" if "(T(p \<mapsto> n')) q = Some m" "q \<noteq> [slash]" for q m
    using that assms(2) treeD(3) [OF assms(1)] l by (cases "q = p") simp_all
  show "child_exists (T(p \<mapsto> n')) q b" if "(T(p \<mapsto> n')) q = Some m" "b \<in> children m" for q m b
    using that assms(2,3) treeD(4) [OF assms(1)] c by (cases "q = p") simp_all
qed

text \<open>A new leaf.\<close>

lemma tree_add:
  assumes "tree T" and "T p = None" and "valid_path p"
    and "T (parentPath p) = Some m" and "owner m = 0"
    and "children n = {}" "numChildren (stat_of n) = 0"
  shows "tree (T(parentPath p \<mapsto> child_added (getBaseName p) m, p \<mapsto> n))" (is "tree ?T'")
proof -
  have pr: "p \<noteq> [slash]" using tree_root [OF assms(1)] assms(2) by auto
  have pp: "parentPath p \<noteq> p" using assms(2,4) by auto
  have new: "getBaseName p \<notin> children m" by (rule tree_no_child [OF assms(1-3) pr assms(4)])
  let ?m' = "child_added (getBaseName p) m"
  have m': "children ?m' = insert (getBaseName p) (children m)" "owner ?m' = 0"
    by (simp_all add: child_added_def assms(5))
  have "counted ?m'"
    using treeD(2) [OF assms(1,4)] new by (simp add: counted_def child_added_def)
  moreover have "counted n" using assms(6,7) by (simp add: counted_def)
  ultimately have cn: "counted ?m'" "counted n" by blast+
  have T'q: "?T' q = (if q = p then Some n else if q = parentPath p then Some ?m' else T q)" for q
    by simp
  have l: "listed ?T' q" if lq: "listed T q" for q
  proof -
    obtain k where k: "T (parentPath q) = Some k" "getBaseName q \<in> children k" "owner k = 0"
      using lq unfolding listed_def by blast
    then have qp: "parentPath q \<noteq> p" using assms(2) by auto
    show ?thesis
    proof (cases "parentPath q = parentPath p")
      case True
      then have "k = m" using k(1) assms(4) by simp
      with True qp k(2) m' show ?thesis by (simp add: listed_def)
    next
      case False
      with qp k show ?thesis by (simp add: listed_def)
    qed
  qed
  have lp: "listed ?T' p" using pp m' by (simp add: listed_def)
  have c: "child_exists ?T' q b" if "child_exists T q b" for q b
    using that by (rule child_exists_mono) (simp add: T'q)
  have cp: "child_exists ?T' (parentPath p) (getBaseName p)"
    unfolding child_exists_def using pr by (intro exI [of _ p]) simp
  show ?thesis
  proof (rule treeI)
    show "\<exists>r. ?T' [slash] = Some r \<and> owner r = 0"
      using tree_root [OF assms(1)] pr m'(2) by (simp add: T'q)
    show "valid_path q \<and> counted k" if "?T' q = Some k" for q k
      using that assms(3) treeD(1,2) [OF assms(1)] assms(4) cn
      by (cases "q = p"; cases "q = parentPath p") (simp_all add: T'q)
    show "listed ?T' q" if "?T' q = Some k" "q \<noteq> [slash]" for q k
      using that l lp treeD(3) [OF assms(1)] assms(4)
      by (cases "q = p"; cases "q = parentPath p") (simp_all add: T'q)
    show "child_exists ?T' q b" if "?T' q = Some k" "b \<in> children k" for q k b
    proof (cases "q = p")
      case True
      then show ?thesis using that assms(6) by (simp add: T'q)
    next
      case False
      have "q = parentPath p \<and> b = getBaseName p \<or> child_exists T q b"
        using that False m'(1) treeD(4) [OF assms(1)] assms(4)
        by (cases "q = parentPath p") (simp_all add: T'q, blast)
      then show ?thesis using c cp by blast
    qed
  qed
qed

text \<open>A leaf removed.\<close>

lemma counted_removed:
  assumes "counted m" and "b \<in> children m"
  shows "counted (child_removed b m)"
proof -
  have "card (children m) = Suc (card (children m - {b}))"
    using assms card_Suc_Diff1 [of "children m" b] by (simp add: counted_def)
  then have "word_of_nat (card (children m)) = (word_of_nat (card (children m - {b})) + 1 :: i32)"
    by (simp del: card_Diff_insert card_Diff_singleton)
  then show ?thesis using assms by (simp add: counted_def child_removed_def del: card_Diff_insert card_Diff_singleton)
qed

lemma child_removed_simps [simp]:
  "children (child_removed b m) = children m - {b}" "owner (child_removed b m) = owner m"
  by (simp_all add: child_removed_def)

lemma tree_del:
  assumes "tree T" and "T p = Some n" and "children n = {}" and "p \<noteq> [slash]" and "T (parentPath p) = Some m"
  shows "tree (T(parentPath p \<mapsto> child_removed (getBaseName p) m, p := None))" (is "tree ?T'")
proof -
  have vp: "valid_path p" by (rule treeD(1) [OF assms(1,2)])
  have pp: "parentPath p \<noteq> p" by (rule join_parts(2) [OF vp assms(4)])
  have bm: "getBaseName p \<in> children m" "owner m = 0"
    using treeD(3) [OF assms(1,2,4)] assms(5) by (simp_all add: listed_def)
  have nochild: "parentPath q \<noteq> p" if "T q = Some k" "q \<noteq> [slash]" for q k
  proof
    assume "parentPath q = p"
    then have "getBaseName q \<in> children n" using treeD(3) [OF assms(1) that] assms(2) by (simp add: listed_def)
    then show False using assms(3) by simp
  qed
  have T'q: "?T' q = (if q = p then None else if q = parentPath p then Some (child_removed (getBaseName p) m) else T q)" for q
    by simp
  show ?thesis
  proof (rule treeI)
    show "\<exists>r. ?T' [slash] = Some r \<and> owner r = 0"
      using tree_root [OF assms(1)] assms(4,5) bm(2) by (simp add: T'q)
    show "valid_path q \<and> counted k" if "?T' q = Some k" for q k
      using that treeD(1,2) [OF assms(1)] assms(5) counted_removed [OF treeD(2) [OF assms(1,5)] bm(1)]
      by (cases "q = parentPath p") (simp_all add: T'q split: if_splits)
    show "listed ?T' q" if q: "?T' q = Some k" "q \<noteq> [slash]" for q k
    proof -
      have qp: "q \<noteq> p" using q(1) by (simp add: T'q split: if_splits)
      obtain k' where k': "T q = Some k'" using q(1) assms(5) by (simp add: T'q split: if_splits)
      obtain l where l: "T (parentPath q) = Some l" "getBaseName q \<in> children l" "owner l = 0"
        using treeD(3) [OF assms(1) k' q(2)] unfolding listed_def by blast
      have qpp: "parentPath q \<noteq> p" by (rule nochild [OF k' q(2)])
      show ?thesis
      proof (cases "parentPath q = parentPath p")
        case True
        have "getBaseName q \<noteq> getBaseName p"
          using path_unique [OF treeD(1) [OF assms(1) k'] vp q(2) assms(4) True] qp by blast
        then show ?thesis using True l assms(5) pp bm(2) by (simp add: listed_def T'q)
      next
        case False
        then show ?thesis using l qpp by (simp add: listed_def T'q)
      qed
    qed
    show "child_exists ?T' q c" if q: "?T' q = Some k" "c \<in> children k" for q k c
    proof -
      have qp: "q \<noteq> p" using q(1) by (simp add: T'q split: if_splits)
      have "\<exists>k'. T q = Some k' \<and> c \<in> children k' \<and> (q = parentPath p \<longrightarrow> c \<noteq> getBaseName p)"
        using q assms(5) by (cases "q = parentPath p") (auto simp: T'q split: if_splits)
      then have c: "child_exists T q c" "q = parentPath p \<longrightarrow> c \<noteq> getBaseName p"
        using treeD(4) [OF assms(1)] by blast+
      then obtain r where r: "T r \<noteq> None" "r \<noteq> [slash]" "parentPath r = q" "getBaseName r = c"
        unfolding child_exists_def by blast
      have "r \<noteq> p" using r(3,4) c(2) by blast
      then have "?T' r \<noteq> None" using r(1) by (simp add: T'q)
      then show ?thesis unfolding child_exists_def using r by blast
    qed
  qed
qed


section \<open>Requests on the store\<close>

text \<open>
  Two stores with the same nodes and the same ephemeral nodes.  They may differ in the order of
  the list behind the table, in outdated elements, and in sessions recorded with an empty set.
\<close>

definition same_store :: "store \<Rightarrow> store \<Rightarrow> bool" where
  "same_store st st' \<longleftrightarrow> tb_inv (fst st) \<and> tb_inv (fst st') \<and> tb_find (fst st) = tb_find (fst st')
     \<and> (\<forall>s. set (sets_at (snd st) s) = set (sets_at (snd st') s))
     \<and> eph_distinct (snd st) \<and> eph_distinct (snd st')"

lemma same_store_refl: "store_inv st \<Longrightarrow> same_store st st"
  by (simp add: same_store_def store_inv_def)

lemma same_store_trans: "same_store st st' \<Longrightarrow> same_store st' st'' \<Longrightarrow> same_store st st''"
  by (simp add: same_store_def)

lemma same_store_inv: "same_store st st' \<Longrightarrow> store_inv st' \<Longrightarrow> store_inv st"
  by (simp add: same_store_def store_inv_def eph_ok_def)

definition undoes :: "undo \<Rightarrow> store \<Rightarrow> store \<Rightarrow> bool" where
  "undoes u st1 st \<longleftrightarrow> (\<forall>st1'. same_store st1' st1 \<longrightarrow> (\<exists>st2. run_undo u st1' = Some st2 \<and> same_store st2 st))"

lemma update_node_Some:
  assumes "tb_inv c" and "tb_find c p = Some n"
  shows "\<exists>c'. update_node p f c = Some c' \<and> tb_inv c' \<and> tb_find c' = (tb_find c)(p \<mapsto> f n)"
  using kt.update_ex [OF assms, of f] by (force simp: update_node_def)

lemma sets_at_delete: "sets_at (AList.delete k m) k' = (if k' = k then [] else sets_at m k')"
  by (simp add: sets_at_def delete_conv')

lemma sets_at_update: "sets_at (AList.update k ps m) k' = (if k' = k then ps else sets_at m k')"
  by (simp add: sets_at_def update_conv')

lemma sets_at_emplace: "set (sets_at (sets_emplace k p m) k') = (if k' = k then insert p (set (sets_at m k)) else set (sets_at m k'))"
  by (simp add: sets_emplace_def sets_at_update)

lemma sets_at_erase: "set (sets_at (sets_erase k p m) k') = (if k' = k then set (sets_at m k) - {p} else set (sets_at m k'))"
  by (simp add: sets_erase_def sets_at_update)

lemma eph_distinct_simps [simp]:
  "eph_distinct e \<Longrightarrow> eph_distinct (sets_emplace k p e)"
  "eph_distinct e \<Longrightarrow> eph_distinct (sets_erase k p e)"
  "eph_distinct e \<Longrightarrow> eph_distinct (AList.delete k e)"
  "eph_distinct e \<Longrightarrow> eph_distinct (AList.update k (removeAll p (sets_at e k)) e)"
  "eph_distinct []"
  by (simp_all add: eph_distinct_def sets_emplace_def sets_erase_def sets_at_update sets_at_delete distinct_removeAll)
     (simp add: sets_at_def)

subsection \<open>Creation\<close>

definition name_created :: "string \<Rightarrow> bool \<Rightarrow> node \<Rightarrow> string" where
  "name_created path is_sequential parent =
     (if is_sequential then path @ seq_num_str (seq_num parent) else path)"

text \<open>
  What a creation needs: a path ZooKeeper admits, a session number for an ephemeral node, and for a
  sequential node that the name the sequence gives is not taken.
\<close>

definition create_ok :: "session \<Rightarrow> string \<Rightarrow> bool \<Rightarrow> bool \<Rightarrow> container \<Rightarrow> bool" where
  "create_ok s path is_ephemeral is_sequential c \<longleftrightarrow>
     (is_ephemeral \<longrightarrow> s \<noteq> 0) \<and> slash \<in> set path
     \<and> (case tb_find c (parentPath path) of
          None \<Rightarrow> True
        | Some parent \<Rightarrow>
            valid_path (name_created path is_sequential parent)
            \<and> (is_sequential \<longrightarrow> tb_find c (name_created path is_sequential parent) = None))"

lemma created_parent:
  "slash \<in> set path \<Longrightarrow> parentPath (name_created path seq parent) = parentPath path"
  by (simp add: name_created_def parent_extend(1) seq_num_str_digits)

lemma created_node_simps [simp]:
  "children (created_node_of now zxid s content eph seq) = {}"
  "numChildren (stat_of (created_node_of now zxid s content eph seq)) = 0"
  "owner (created_node_of now zxid s content eph seq) = (if eph then s else 0)"
  by (simp_all add: created_node_of_def node_new_def stat_zero_def)

lemma process_create_cases:
  assumes "store_inv (c, e)" and "create_ok s path eph seq c"
  obtains (error) err where "err \<noteq> ZOK"
      "process_create now zxid s path content al eph seq (c, e)
         = Some (response_error (CreateRequest path content al eph seq) err, NoUndo, (c, e))"
      "tb_find c path \<noteq> None \<or> tb_find c (parentPath path) = None
         \<or> (\<exists>m. tb_find c (parentPath path) = Some m \<and> owner m \<noteq> 0)"
  | (created) m c2 q where "q = name_created path seq m"
      "tb_find c path = None" "tb_find c (parentPath path) = Some m" "owner m = 0"
      "tb_find c q = None" "valid_path q" "parentPath q = parentPath path"
      "tb_inv c2"
      "tb_find c2 = (tb_find c)(parentPath q \<mapsto> child_added (getBaseName q) m,
                                q \<mapsto> created_node_of now zxid s content eph seq)"
      "process_create now zxid s path content al eph seq (c, e)
         = Some (response_ok (CreateResponse q), UndoCreate s q eph (parentPath q) (getBaseName q),
                 (c2, if eph then sets_emplace s q e else e))"
proof -
  let ?T = "tb_find c"
  have inv: "tb_inv c" using assms(1) by (simp add: store_inv_def)
  consider "?T path \<noteq> None" | "?T path = None" "?T (parentPath path) = None"
    | m where "?T path = None" "?T (parentPath path) = Some m" "owner m \<noteq> 0"
    | m where "?T path = None" "?T (parentPath path) = Some m" "owner m = 0"
    by (cases "?T path"; cases "?T (parentPath path)") auto
  then show ?thesis
  proof cases
    case 1
    then show ?thesis using error [of ZNODEEXISTS] tb_contains_find [OF inv, of path]
      by (simp add: process_create_def answer_def)
  next
    case 2
    then show ?thesis using error [of ZNONODE] tb_contains_find [OF inv, of path]
      by (simp add: process_create_def answer_def)
  next
    case 3
    then show ?thesis using error [of ZNOCHILDRENFOREPHEMERALS] tb_contains_find [OF inv, of path]
      by (simp add: process_create_def answer_def)
  next
    case 4
    define q where "q = name_created path seq m"
    have q: "valid_path q" "?T q = None"
      using assms(2) 4 by (auto simp: create_ok_def q_def name_created_def split: if_splits)
    have pq: "parentPath q = parentPath path"
      using assms(2) by (simp add: q_def created_parent create_ok_def)
    obtain c1 where c1: "update_node (parentPath path) (child_added (getBaseName q)) c = Some c1" "tb_inv c1"
        "tb_find c1 = ?T(parentPath path \<mapsto> child_added (getBaseName q) m)"
      using update_node_Some [OF inv 4(2)] by blast
    have "parentPath path \<noteq> q" using q(2) 4(2) by auto
    then have "tb_find c1 q = None" using c1(3) q(2) by simp
    then have c2: "tb_find (snd (tb_insert q (created_node_of now zxid s content eph seq) c1)) =
        ?T(parentPath q \<mapsto> child_added (getBaseName q) m, q \<mapsto> created_node_of now zxid s content eph seq)"
      using kt.insert_lookup [OF c1(2)] c1(3) pq by simp
    show ?thesis
      using created [OF q_def 4 q(2,1) pq kt.insert_inv [OF c1(2)] c2] c1(1) 4
        tb_contains_find [OF inv, of path] pq
      by (simp add: process_create_def Let_def q_def [symmetric] name_created_def [symmetric])
  qed
qed


text \<open>The ephemeral nodes under the changes a request makes.\<close>

lemma eph_ok_zero:
  assumes "eph_ok T e"
  shows "set (sets_at e 0) = {}"
proof -
  have "p \<notin> set (sets_at e 0)" for p using assms by (simp add: eph_ok_def)
  then show ?thesis by (intro equals0I notI) simp
qed

lemma eph_ok_touch:
  assumes "eph_ok T e" and "T p = Some n" and "owner n' = owner n"
  shows "eph_ok (T(p \<mapsto> n')) e"
  unfolding eph_ok_def
proof (intro allI)
  fix s q
  have "(\<exists>k. (T(p \<mapsto> n')) q = Some k \<and> owner k = s) \<longleftrightarrow> (\<exists>k. T q = Some k \<and> owner k = s)"
    using assms(2,3) by (cases "q = p") simp_all
  then show "q \<in> set (sets_at e s) \<longleftrightarrow> s \<noteq> 0 \<and> (\<exists>k. (T(p \<mapsto> n')) q = Some k \<and> owner k = s)"
    using assms(1) by (simp add: eph_ok_def)
qed

lemma eph_ok_new:
  assumes "eph_ok T e" and "T p = None" and "owner n = (if eph then s else 0)" and "eph \<longrightarrow> s \<noteq> 0"
  shows "eph_ok (T(p \<mapsto> n)) (if eph then sets_emplace s p e else e)"
  unfolding eph_ok_def
proof (intro allI)
  fix s' q
  show "q \<in> set (sets_at (if eph then sets_emplace s p e else e) s')
        \<longleftrightarrow> s' \<noteq> 0 \<and> (\<exists>k. (T(p \<mapsto> n)) q = Some k \<and> owner k = s')"
  proof (cases "q = p")
    case True
    have "p \<notin> set (sets_at e s'')" for s'' using assms(1,2) by (simp add: eph_ok_def)
    then have "q \<in> set (sets_at (if eph then sets_emplace s p e else e) s') \<longleftrightarrow> eph \<and> s' = s"
      using True by (simp add: sets_at_emplace)
    moreover have "(\<exists>k. (T(p \<mapsto> n)) q = Some k \<and> owner k = s') \<longleftrightarrow> owner n = s'" using True by simp
    ultimately show ?thesis using assms(3,4) by (cases eph) auto
  next
    case False
    then show ?thesis using assms(1) by (simp add: eph_ok_def sets_at_emplace)
  qed
qed

lemma eph_ok_del:
  assumes "eph_ok T e" and "T p = Some n"
    and "\<And>s. set (sets_at e' s) = (if s = owner n then set (sets_at e s) - {p} else set (sets_at e s))"
  shows "eph_ok (T(p := None)) e'"
  unfolding eph_ok_def
proof (intro allI)
  fix s q
  show "q \<in> set (sets_at e' s) \<longleftrightarrow> s \<noteq> 0 \<and> (\<exists>k. (T(p := None)) q = Some k \<and> owner k = s)"
  proof (cases "q = p")
    case True
    then show ?thesis using assms(1,2) assms(3) [of s] by (simp add: eph_ok_def)
  next
    case False
    then show ?thesis using assms(1) assms(3) [of s] by (simp add: eph_ok_def)
  qed
qed

lemma child_added_inverse: "b \<notin> children m \<Longrightarrow> child_added_undo b (child_added b m) = m"
  by (simp add: child_added_def child_added_undo_def)

lemma child_removed_inverse: "b \<in> children m \<Longrightarrow> child_removed_undo b (child_removed b m) = m"
  by (simp add: child_removed_def child_removed_undo_def insert_absorb)

lemma child_added_owner [simp]: "owner (child_added b m) = owner m"
  by (simp add: child_added_def)

text \<open>What holds after a request: an error changes nothing, a success keeps the tree and can be undone.\<close>

definition step_ok :: "store \<Rightarrow> processed \<Rightarrow> bool" where
  "step_ok st pr \<longleftrightarrow>
     (\<exists>r u st1. pr = Some (r, u, st1)
        \<and> (if rs_error r = ZOK then store_inv st1 \<and> undoes u st1 st else u = NoUndo \<and> st1 = st))"

lemma step_ok_answer: "store_inv st \<Longrightarrow> step_ok st (answer r st)"
  by (simp add: step_ok_def answer_def undoes_def)

lemma step_ok_intro:
  "pr = Some (r, u, st1) \<Longrightarrow> store_inv st1 \<Longrightarrow> undoes u st1 st \<Longrightarrow> rs_error r = ZOK \<Longrightarrow> step_ok st pr"
  by (simp add: step_ok_def)

lemma create_step:
  assumes "store_inv (c, e)" and "create_ok s path eph seq c"
  shows "step_ok (c, e) (process_create now zxid s path content al eph seq (c, e))"
  using assms
proof (cases rule: process_create_cases [where now = now and zxid = zxid and content = content and al = al])
  case (error err)
  then show ?thesis by (simp add: step_ok_def)
next
  case (created m c2 q)
  let ?T = "tb_find c" and ?n = "created_node_of now zxid s content eph seq"
  let ?e = "if eph then sets_emplace s q e else e"
  have t: "tree ?T" "eph_ok ?T e" "tb_inv c" "eph_distinct e" using assms(1) by (simp_all add: store_inv_def)
  have pm: "?T (parentPath q) = Some m" using created by simp
  have pq: "parentPath q \<noteq> q" using created(5) pm by auto
  have qr: "q \<noteq> [slash]" using tree_root [OF t(1)] created(5) by auto
  have fresh: "getBaseName q \<notin> children m" by (rule tree_no_child [OF t(1) created(5,6) qr pm])
  have tr: "tree (tb_find c2)"
    unfolding created(9) by (rule tree_add [OF t(1) created(5,6) pm created(4)]) simp_all
  have "eph_ok (?T(parentPath q \<mapsto> child_added (getBaseName q) m)) e"
    by (rule eph_ok_touch [OF t(2) pm]) simp
  then have ep: "eph_ok (tb_find c2) ?e"
    unfolding created(9) using created(5) pq assms(2)
    by (intro eph_ok_new) (simp_all add: create_ok_def)
  have "undoes (UndoCreate s q eph (parentPath q) (getBaseName q)) (c2, ?e) (c, e)"
    unfolding undoes_def
  proof (intro allI impI)
    fix st1'
    assume "same_store st1' (c2, ?e)"
    then obtain c' e' where st1': "st1' = (c', e')" and c': "tb_inv c'" "tb_find c' = tb_find c2"
      and e': "\<And>s'. set (sets_at e' s') = set (sets_at ?e s')" "eph_distinct e'"
      by (cases st1') (simp add: same_store_def)
    have er: "tb_inv (snd (tb_erase q c'))"
        "tb_find (snd (tb_erase q c')) = ?T(parentPath q \<mapsto> child_added (getBaseName q) m)"
      using kt.erase_inv [OF c'(1)] kt.erase_lookup [OF c'(1)] c'(2) created(5,9) pq
      by (simp_all add: fun_upd_twist fun_upd_idem)
    obtain c3 where c3: "update_node (parentPath q) (child_added_undo (getBaseName q)) (snd (tb_erase q c')) = Some c3"
        "tb_inv c3" "tb_find c3 = ?T"
      using update_node_Some [OF er(1), of "parentPath q" _ "child_added_undo (getBaseName q)"]
        er(2) child_added_inverse [OF fresh] pm by (auto simp: fun_upd_idem)
    have "q \<notin> set (sets_at e s')" for s' using t(2) created(5) by (simp add: eph_ok_def)
    then have "set (sets_at (if eph then sets_erase s q e' else e') s') = set (sets_at e s')" for s'
      using e'(1) [of s'] e'(1) [of s] by (simp add: sets_at_erase sets_at_emplace)
    then show "\<exists>st2. run_undo (UndoCreate s q eph (parentPath q) (getBaseName q)) st1' = Some st2
                 \<and> same_store st2 (c, e)"
      using c3 t(3,4) e'(2) by (simp add: st1' undo_create_def same_store_def)
  qed
  then show ?thesis
    using created(8,10) tr ep t(4) by (intro step_ok_intro [OF created(10)]) (simp_all add: store_inv_def)
qed


subsection \<open>Removal\<close>

text \<open>The root is not removed, and the table has fewer nodes than the 32-bit counter of children has values.\<close>

definition remove_ok :: "string \<Rightarrow> container \<Rightarrow> bool" where
  "remove_ok path c \<longleftrightarrow> path \<noteq> [slash] \<and> int (tb_size c) < 2 ^ 32"

lemma tb_dom_card: "tb_inv c \<Longrightarrow> finite (dom (tb_find c)) \<and> card (dom (tb_find c)) = tb_size c"
proof -
  assume inv: "tb_inv c"
  have "dom (tb_find c) = dom (map_of (tb_map c))" using tb_find_None [OF inv] by (auto simp: dom_def)
  also have "\<dots> = set (map fst (tb_map c))" by (simp add: dom_map_of_conv_image_fst)
  finally have "dom (tb_find c) = set (map fst (tb_map c))" .
  moreover have "card (set (map fst (tb_map c))) = tb_size c"
    using distinct_card [OF tb_invD(2) [OF inv]] by (simp add: tb_size_def)
  ultimately show ?thesis by (metis List.finite_set)
qed

lemma no_children:
  assumes "tree T" and "T p = Some n" and "numChildren (stat_of n) = 0" and "finite (dom T)" "card (dom T) < 2 ^ 32"
  shows "children n = {}"
proof -
  have "children n \<subseteq> getBaseName ` dom T"
  proof
    fix b
    assume "b \<in> children n"
    then show "b \<in> getBaseName ` dom T"
      using treeD(4) [OF assms(1,2)] unfolding child_exists_def by blast
  qed
  then have "card (children n) \<le> card (getBaseName ` dom T)" using assms(4) by (intro card_mono) simp_all
  also have "\<dots> \<le> card (dom T)" by (rule card_image_le [OF assms(4)])
  finally have lt: "card (children n) < 2 ^ 32" using assms(5) by simp
  have c: "finite (children n)" "word_of_nat (card (children n)) = (0 :: i32)"
    using treeD(2) [OF assms(1,2)] assms(3) by (simp_all add: counted_def)
  then have "(2 :: nat) ^ 32 dvd card (children n)" by (simp add: word_of_nat_eq_0_iff)
  then have "card (children n) = 0" using lt by (auto dest: nat_dvd_not_less)
  then show ?thesis using c(1) by simp
qed

lemma remove_step:
  assumes "store_inv (c, e)" and "remove_ok path c"
  shows "step_ok (c, e) (process_remove path ver (c, e))"
proof -
  let ?T = "tb_find c"
  have t: "tree ?T" "eph_ok ?T e" "tb_inv c" "eph_distinct e" using assms(1) by (simp_all add: store_inv_def)
  consider "?T path = None" | n where "?T path = Some n" "ver \<noteq> - 1 \<and> ver \<noteq> version (stat_of n)"
    | n where "?T path = Some n" "\<not> (ver \<noteq> - 1 \<and> ver \<noteq> version (stat_of n))" "numChildren (stat_of n) \<noteq> 0"
    | n where "?T path = Some n" "\<not> (ver \<noteq> - 1 \<and> ver \<noteq> version (stat_of n))" "numChildren (stat_of n) = 0"
    by blast
  then show ?thesis
  proof cases
    case 4
    have r: "path \<noteq> [slash]" using assms(2) by (simp add: remove_ok_def)
    have kids: "children n = {}"
      using no_children [OF t(1) 4(1,3)] tb_dom_card [OF t(3)] assms(2) by (simp add: remove_ok_def)
    obtain m where m: "?T (parentPath path) = Some m" "getBaseName path \<in> children m" "owner m = 0"
      using treeD(3) [OF t(1) 4(1) r] unfolding listed_def by blast
    have pp: "parentPath path \<noteq> path" by (rule join_parts(2) [OF treeD(1) [OF t(1) 4(1)] r])
    let ?ps = "removeAll path (sets_at e (owner n))"
    define e1 where "e1 = (if owner n = 0 then e else if ?ps = [] then AList.delete (owner n) e
                           else AList.update (owner n) ?ps e)"
    have zero: "set (sets_at e 0) = {}" by (rule eph_ok_zero [OF t(2)])
    have e1: "set (sets_at e1 s) = (if s = owner n then set (sets_at e s) - {path} else set (sets_at e s))" for s
    proof (cases "owner n = 0")
      case True
      then show ?thesis using zero by (simp add: e1_def)
    next
      case False
      have "set ?ps = set (sets_at e (owner n)) - {path}" by simp
      moreover have "?ps = [] \<longleftrightarrow> set ?ps = {}" by (simp only: set_empty)
      ultimately show ?thesis using False by (simp add: e1_def sets_at_delete sets_at_update del: set_removeAll)
    qed
    have mine: "path \<in> set (sets_at e (owner n))" if "owner n \<noteq> 0"
      using t(2) 4(1) that by (simp add: eph_ok_def)
    have eph: "(if owner n \<noteq> 0 then
                     (case map_of e (owner n) of
                        None \<Rightarrow> None
                      | Some ps \<Rightarrow>
                          Some (if removeAll path ps = [] then AList.delete (owner n) e
                                else AList.update (owner n) (removeAll path ps) e))
                   else Some e) = Some e1"
    proof (cases "owner n = 0")
      case False
      then obtain ps where "map_of e (owner n) = Some ps"
        using mine by (cases "map_of e (owner n)") (simp_all add: sets_at_def)
      then show ?thesis using False by (simp add: e1_def sets_at_def)
    qed (simp add: e1_def)
    obtain c1 where c1: "update_node (parentPath path) (child_removed (getBaseName path)) c = Some c1" "tb_inv c1"
        "tb_find c1 = ?T(parentPath path \<mapsto> child_removed (getBaseName path) m)"
      using update_node_Some [OF t(3) m(1)] by blast
    define c2 where "c2 = snd (tb_erase path c1)"
    have c2: "tb_inv c2" "tb_find c2 = ?T(parentPath path \<mapsto> child_removed (getBaseName path) m, path := None)"
      using kt.erase_inv [OF c1(2)] kt.erase_lookup [OF c1(2)] c1(3) by (simp_all add: c2_def)
    have pr: "process_remove path ver (c, e)
        = Some (response_ok RemoveResponse, UndoRemove n path (getBaseName path), (c2, e1))"
      using 4 eph c1(1) by (cases "ver = - 1") (simp_all add: process_remove_def Let_def c2_def)
    have tr: "tree (tb_find c2)" unfolding c2(2) by (rule tree_del [OF t(1) 4(1) kids r m(1)])
    have "eph_ok (?T(parentPath path \<mapsto> child_removed (getBaseName path) m)) e"
      by (rule eph_ok_touch [OF t(2) m(1)]) simp
    then have ep: "eph_ok (tb_find c2) e1"
      unfolding c2(2) by (rule eph_ok_del [where n = n]) (use 4(1) pp e1 in simp_all)
    have "undoes (UndoRemove n path (getBaseName path)) (c2, e1) (c, e)"
      unfolding undoes_def
    proof (intro allI impI)
      fix st1'
      assume "same_store st1' (c2, e1)"
      then obtain c' e' where st1': "st1' = (c', e')" and c': "tb_inv c'" "tb_find c' = tb_find c2"
        and e': "\<And>s'. set (sets_at e' s') = set (sets_at e1 s')" "eph_distinct e'"
        by (cases st1') (simp add: same_store_def)
      let ?c = "snd (tb_insert path n c')"
      have ins: "tb_inv ?c" "tb_find ?c = ?T(parentPath path \<mapsto> child_removed (getBaseName path) m, path \<mapsto> n)"
        using kt.insert_inv [OF c'(1)] kt.insert_lookup [OF c'(1)] c'(2) c2(2) by simp_all
      obtain c3 where c3: "update_node (parentPath path) (child_removed_undo (getBaseName path)) ?c = Some c3"
          "tb_inv c3" "tb_find c3 = ?T"
        using update_node_Some [OF ins(1), of "parentPath path" _ "child_removed_undo (getBaseName path)"]
          ins(2) child_removed_inverse [OF m(2)] m(1) pp 4(1) by (auto simp: fun_upd_idem fun_upd_twist)
      have "set (sets_at (if owner n \<noteq> 0 then sets_emplace (owner n) path e' else e') s') = set (sets_at e s')" for s'
        using e'(1) [of s'] e'(1) [of "owner n"] e1 mine zero by (auto simp: sets_at_emplace split: if_splits)
      then show "\<exists>st2. run_undo (UndoRemove n path (getBaseName path)) st1' = Some st2 \<and> same_store st2 (c, e)"
        using c3 t(3,4) e'(2) by (simp add: st1' undo_remove_def same_store_def Let_def)
    qed
    moreover have "eph_distinct e1" using t(4) by (simp add: e1_def)
    ultimately show ?thesis using tr ep c2(1) by (intro step_ok_intro [OF pr]) (simp_all add: store_inv_def)
  qed (simp_all add: step_ok_def process_remove_def answer_def)
qed


subsection \<open>Writing\<close>

lemma written_simps [simp]:
  "children (written now zxid content n) = children n"
  "numChildren (stat_of (written now zxid content n)) = numChildren (stat_of n)"
  "owner (written now zxid content n) = owner n"
  by (simp_all add: written_def)

abbreviation cversion_by :: "i32 \<Rightarrow> node \<Rightarrow> node" where
  "cversion_by d \<equiv> on_stat (\<lambda>s. s\<lparr>cversion := cversion s + d\<rparr>)"

text \<open>A write that is not refused, on any path; for the root both changes meet in the same node.\<close>

lemma process_set_written:
  assumes "tb_inv c" and "tree (tb_find c)" and "tb_find c path = Some n"
    and "ver = - 1 \<or> ver = version (stat_of n)"
  obtains k c2 where
    "process_set now zxid path content ver (c, e) = Some (response_ok (SetResponse (stat_of k)), UndoSet n path, (c2, e))"
    "tb_inv c2" "tree (tb_find c2)" "\<And>e. eph_ok (tb_find c) e \<Longrightarrow> eph_ok (tb_find c2) e"
    "path \<noteq> [slash] \<Longrightarrow> k = written now zxid content n
       \<and> (\<exists>m. tb_find c (parentPath path) = Some m
              \<and> tb_find c2 = (tb_find c)(path \<mapsto> written now zxid content n, parentPath path \<mapsto> cversion_by 1 m))"
proof -
  let ?T = "tb_find c" and ?w = "written now zxid content n"
  obtain i c1 where c1: "tb_updateValue path (written now zxid content) c = Some (i, c1)" "tb_inv c1"
      "tb_find c1 = ?T(path \<mapsto> ?w)" "tb_deref i c1 = Some ?w"
    using kt.update_ex [OF assms(1,3)] by blast
  have t1: "tree (tb_find c1)" unfolding c1(3) by (rule tree_touch [OF assms(2,3)]) simp_all
  have "\<exists>m. tb_find c1 (parentPath path) = Some m"
  proof (cases "path = [slash]")
    case True
    then show ?thesis using c1(3) by simp
  next
    case False
    then show ?thesis using treeD(3) [OF t1, of path ?w] c1(3) unfolding listed_def by auto
  qed
  then obtain m where m: "tb_find c1 (parentPath path) = Some m" by blast
  obtain j c2 where c2: "tb_updateValue (parentPath path) (cversion_by 1) c1 = Some (j, c2)" "tb_inv c2"
      "tb_find c2 = (tb_find c1)(parentPath path \<mapsto> cversion_by 1 m)"
    using kt.update_ex [OF c1(2) m] by blast
  have t2: "tree (tb_find c2)" unfolding c2(3) by (rule tree_touch [OF t1 m]) simp_all
  have "tb_deref i c2 \<noteq> None" using tb_deref_kept [OF c1(2) c2(1)] c1(4) by simp
  then obtain k where k: "tb_deref i c2 = Some k" by blast
  have pr: "process_set now zxid path content ver (c, e)
      = Some (response_ok (SetResponse (stat_of k)), UndoSet n path, (c2, e))"
    using assms(3,4) c1(1) c2(1) k by (simp add: process_set_def Let_def update_node_def)
  have ep: "eph_ok (tb_find c2) e'" if "eph_ok ?T e'" for e'
  proof -
    have e1: "eph_ok (tb_find c1) e'" unfolding c1(3) by (rule eph_ok_touch [OF that assms(3)]) simp
    show ?thesis unfolding c2(3) by (rule eph_ok_touch [OF e1 m]) simp
  qed
  have "k = ?w \<and> (\<exists>m. ?T (parentPath path) = Some m
            \<and> tb_find c2 = ?T(path \<mapsto> ?w, parentPath path \<mapsto> cversion_by 1 m))" if p: "path \<noteq> [slash]"
  proof -
    have pp: "parentPath path \<noteq> path" by (rule join_parts(2) [OF treeD(1) [OF assms(2,3)] p])
    have "map_of (tb_map c2) path = Some i"
      using tb_update_index [OF c1(1)] tb_update_index [OF c2(1)] pp by simp
    then have "tb_find c2 path = Some k" using k by (simp add: tb_find_def)
    then have "k = ?w" using c2(3) c1(3) pp by simp
    moreover have "?T (parentPath path) = Some m" using m c1(3) pp by simp
    ultimately show ?thesis using c2(3) c1(3) by simp
  qed
  then show ?thesis using that [OF pr c2(2) t2 ep] by blast
qed

lemma process_set_refused:
  "\<not> (\<exists>n. tb_find c path = Some n \<and> (ver = - 1 \<or> ver = version (stat_of n))) \<Longrightarrow>
     \<exists>err. err \<noteq> ZOK \<and> process_set now zxid path content ver (c, e)
       = answer (response_error (SetRequest path content ver) err) (c, e)"
  by (cases "tb_find c path") (auto simp: process_set_def)


lemma set_step:
  assumes "store_inv (c, e)" and "path \<noteq> [slash]"
  shows "step_ok (c, e) (process_set now zxid path content ver (c, e))"
proof (cases "\<exists>n. tb_find c path = Some n \<and> (ver = - 1 \<or> ver = version (stat_of n))")
  case False
  then show ?thesis using process_set_refused [OF False] assms(1) by (fastforce simp: step_ok_def answer_def)
next
  case True
  let ?T = "tb_find c"
  have t: "tree ?T" "eph_ok ?T e" "tb_inv c" "eph_distinct e" using assms(1) by (simp_all add: store_inv_def)
  obtain n where n: "?T path = Some n" "ver = - 1 \<or> ver = version (stat_of n)" using True by blast
  obtain k c2 where pr: "process_set now zxid path content ver (c, e)
        = Some (response_ok (SetResponse (stat_of k)), UndoSet n path, (c2, e))"
      and c2: "tb_inv c2" "tree (tb_find c2)" "eph_ok (tb_find c2) e"
      and w: "k = written now zxid content n" "\<exists>m. ?T (parentPath path) = Some m
            \<and> tb_find c2 = ?T(path \<mapsto> written now zxid content n, parentPath path \<mapsto> cversion_by 1 m)"
    using process_set_written [OF t(3,1) n] t(2) assms(2) by metis
  obtain m where m: "?T (parentPath path) = Some m"
      "tb_find c2 = ?T(path \<mapsto> written now zxid content n, parentPath path \<mapsto> cversion_by 1 m)"
    using w(2) by blast
  have pp: "parentPath path \<noteq> path" by (rule join_parts(2) [OF treeD(1) [OF t(1) n(1)] assms(2)])
  have "undoes (UndoSet n path) (c2, e) (c, e)"
    unfolding undoes_def
  proof (intro allI impI)
    fix st1'
    assume "same_store st1' (c2, e)"
    then obtain c' e' where st1': "st1' = (c', e')" and c': "tb_inv c'" "tb_find c' = tb_find c2"
      and e': "\<And>s'. set (sets_at e' s') = set (sets_at e s')" "eph_distinct e'"
      by (cases st1') (simp add: same_store_def)
    have "tb_find c' path = Some (written now zxid content n)" using c'(2) m(2) pp by simp
    then obtain c3 where c3: "update_node path (\<lambda>_. n) c' = Some c3" "tb_inv c3"
        "tb_find c3 = ?T(parentPath path \<mapsto> cversion_by 1 m)"
      using update_node_Some [OF c'(1), of path _ "\<lambda>_. n"] c'(2) m(2) n(1) pp
      by (auto simp: fun_upd_twist fun_upd_idem)
    let ?dec = "on_stat (\<lambda>s. s\<lparr>cversion := cversion s - 1\<rparr>)"
    have inverse: "?dec (cversion_by 1 m) = m" by simp
    obtain c4 where c4: "update_node (parentPath path) ?dec c3 = Some c4" "tb_inv c4" "tb_find c4 = ?T"
      using update_node_Some [OF c3(2), of "parentPath path" _ ?dec] c3(3) m(1) inverse
      by (auto simp: fun_upd_idem)
    then show "\<exists>st2. run_undo (UndoSet n path) st1' = Some st2 \<and> same_store st2 (c, e)"
      using c3(1) e' t(3,4) by (simp add: st1' undo_set_def same_store_def)
  qed
  then show ?thesis using c2 t(4) by (intro step_ok_intro [OF pr]) (simp_all add: store_inv_def)
qed

section \<open>Multi requests\<close>

text \<open>
  What a request needs in the state it meets: no removal of the root and no write to it, admissible
  paths, and free names for sequential nodes.
\<close>

fun concrete_ok :: "session \<Rightarrow> concrete_request \<Rightarrow> store \<Rightarrow> bool" where
  "concrete_ok s (ConcreteCreate path content al eph seq) st = create_ok s path eph seq (fst st)"
| "concrete_ok s (ConcreteRemove path ver) st = remove_ok path (fst st)"
| "concrete_ok s (ConcreteSet path content ver) st = (path \<noteq> [slash])"
| "concrete_ok s (ConcreteCheck path ver) st = True"

lemma concrete_step:
  assumes "store_inv st" and "concrete_ok s q st"
  shows "step_ok st (process_concrete now zxid s q st)"
proof (cases st)
  case (Pair c e)
  then show ?thesis using assms
    by (cases q) (simp_all add: create_step remove_step set_step process_check_def step_ok_answer Let_def
        split: option.splits)
qed

text \<open>Every sub-request meets its needs, in the state the ones before it lead to.\<close>

fun multi_ok :: "(nat \<Rightarrow> i64) \<Rightarrow> i64 \<Rightarrow> session \<Rightarrow> nat \<Rightarrow> concrete_request list \<Rightarrow> store \<Rightarrow> bool" where
  "multi_ok clock zxid s i [] st = True"
| "multi_ok clock zxid s i (q # qs) st =
     (concrete_ok s q st
      \<and> (case process_concrete (clock i) zxid s q st of
           None \<Rightarrow> True
         | Some (r, u, st1) \<Rightarrow> rs_error r = ZOK \<longrightarrow> multi_ok clock zxid s (Suc i) qs st1))"

text \<open>The undo actions of a prefix lead back to the state before it.\<close>

definition undoes_all :: "undo list \<Rightarrow> store \<Rightarrow> store \<Rightarrow> bool" where
  "undoes_all us st1 st \<longleftrightarrow>
     (\<forall>st1'. same_store st1' st1 \<longrightarrow> (\<exists>st2. run_undos us st1' = Some st2 \<and> same_store st2 st))"

lemma undoes_all_Nil: "undoes_all [] st st"
  by (simp add: undoes_all_def)

lemma undoes_all_Cons: "undoes u st2 st1 \<Longrightarrow> undoes_all us st1 st \<Longrightarrow> undoes_all (u # us) st2 st"
  unfolding undoes_all_def undoes_def by (metis option.simps(5) run_undos.simps(2))

text \<open>The sub-requests one after the other, without any undo; \<open>None\<close> when one of them fails.\<close>

fun in_sequence ::
  "(nat \<Rightarrow> i64) \<Rightarrow> i64 \<Rightarrow> session \<Rightarrow> nat \<Rightarrow> concrete_request list \<Rightarrow> store \<Rightarrow> (zk_response list \<times> store) option" where
  "in_sequence clock zxid s i [] st = Some ([], st)"
| "in_sequence clock zxid s i (q # qs) st =
     (case process_concrete (clock i) zxid s q st of
        None \<Rightarrow> None
      | Some (r, u, st1) \<Rightarrow>
          if rs_error r = ZOK
          then map_option (\<lambda>(rs, st2). (r # rs, st2)) (in_sequence clock zxid s (Suc i) qs st1)
          else None)"

definition all_or_nothing ::
  "zk_response list \<Rightarrow> nat \<Rightarrow> store \<Rightarrow> (zk_response list \<times> store) option \<Rightarrow> (zk_response list \<times> store) option \<Rightarrow> bool" where
  "all_or_nothing responses n st reference result \<longleftrightarrow>
     (case reference of
        Some (rs, st2) \<Rightarrow> result = Some (responses @ rs, st2) \<and> store_inv st2
      | None \<Rightarrow>
          (\<exists>rs st2. result = Some (rs, st2) \<and> length rs = length responses + n \<and> same_store st2 st
             \<and> (\<exists>r \<in> set rs. rs_error r \<noteq> ZOK) \<and> (\<forall>r \<in> set rs. rs_body r = ErrorResponse)))"

lemma multi_loop_correct:
  assumes "store_inv st1" and "multi_ok clock zxid s i qs st1" and "undoes_all us st1 st"
  shows "all_or_nothing responses (length qs) st (in_sequence clock zxid s i qs st1)
           (multi_loop clock zxid s i qs responses us st1)"
  using assms
proof (induction qs arbitrary: i responses us st1)
  case Nil
  then show ?case by (simp add: all_or_nothing_def)
next
  case (Cons q qs)
  have ok: "concrete_ok s q st1" using Cons.prems(2) by simp
  obtain r u st1' where pr: "process_concrete (clock i) zxid s q st1 = Some (r, u, st1')"
      and step: "if rs_error r = ZOK then store_inv st1' \<and> undoes u st1' st1 else u = NoUndo \<and> st1' = st1"
    using concrete_step [OF Cons.prems(1) ok] unfolding step_ok_def by blast
  show ?case
  proof (cases "rs_error r = ZOK")
    case True
    have "undoes_all (u # us) st1' st" using step True undoes_all_Cons [OF _ Cons.prems(3)] by simp
    moreover have "multi_ok clock zxid s (Suc i) qs st1'" using Cons.prems(2) pr True by simp
    ultimately have "all_or_nothing (responses @ [r]) (length qs) st (in_sequence clock zxid s (Suc i) qs st1')
        (multi_loop clock zxid s (Suc i) qs (responses @ [r]) (u # us) st1')"
      using Cons.IH step True by simp
    then show ?thesis using pr True
      by (cases "in_sequence clock zxid s (Suc i) qs st1'") (simp_all add: all_or_nothing_def split_beta)
  next
    case False
    obtain st2 where "run_undos us st1 = Some st2" "same_store st2 st"
      using Cons.prems(3) same_store_refl [OF Cons.prems(1)] unfolding undoes_all_def by blast
    then show ?thesis using False pr step
      by (auto simp: all_or_nothing_def error_response_def)
  qed
qed



definition keeper_start :: store where
  "keeper_start = (snd (tb_insert [slash] node_new tb_empty), [])"

lemma keeper_start_inv: "store_inv keeper_start"
proof -
  let ?c = "snd (tb_insert [slash] node_new tb_empty)"
  have f: "tb_inv ?c" "tb_find ?c = [[slash] \<mapsto> node_new]"
    using kt.insert_inv [OF tb_empty_inv(1)] kt.insert_lookup [OF tb_empty_inv(1)] by simp_all
  have n: "owner node_new = 0" "children node_new = {}" "counted node_new"
    by (simp_all add: node_new_def stat_zero_def counted_def)
  have "tree [[slash] \<mapsto> node_new]"
  proof (rule treeI)
    show "\<exists>r. [[slash] \<mapsto> node_new] [slash] = Some r \<and> owner r = 0" using n(1) by simp
  qed (use n in \<open>simp_all split: if_splits\<close>)
  moreover have "eph_ok [[slash] \<mapsto> node_new] []"
    unfolding eph_ok_def using n(1) by (simp add: sets_at_def)
  ultimately show ?thesis using f by (simp add: store_inv_def keeper_start_def)
qed

definition sample_multi :: "zk_request list" where
  "sample_multi =
     [ZkRequest 0 False (CreateRequest ''/a'' ''x'' [] False False),
      ZkRequest 0 False (CreateRequest ''/a/b'' ''y'' [] True False),
      ZkRequest 0 False (CheckRequest ''/nowhere'' 0)]"


end
