(* ===== verification/Keeper_Requests.thy ===== *)
theory Keeper_Requests
  imports Keeper_Tree
begin

text \<open>
  Whole requests of the Keeper: what \<^verbatim>\<open>processRequest\<close> keeps, whom it answers and how, what closing a
  session removes, and four places where the answer is not what the tree says.
\<close>

section \<open>One request on the store\<close>

fun request_ok :: "(nat \<Rightarrow> i64) \<Rightarrow> i64 \<Rightarrow> session \<Rightarrow> zk_request_body \<Rightarrow> store \<Rightarrow> bool" where
  "request_ok clock zxid s (CreateRequest path content al eph seq) st = create_ok s path eph seq (fst st)"
| "request_ok clock zxid s (RemoveRequest path ver) st = remove_ok path (fst st)"
| "request_ok clock zxid s (MultiRequest requests) st =
     (case concrete_requests requests of Inl _ \<Rightarrow> True | Inr qs \<Rightarrow> multi_ok clock zxid s 0 qs st)"
| "request_ok clock zxid s _ st = True"

definition answered_ok :: "zk_request_body \<Rightarrow> outcome \<Rightarrow> bool" where
  "answered_ok body out \<longleftrightarrow>
     (case out of
        None \<Rightarrow> False
      | Some (Inl ex) \<Rightarrow> getOpNum body \<in> {OpClose, OpSessionID, OpMulti}
      | Some (Inr (r, u, st')) \<Rightarrow> store_inv st' \<and> class_of (rs_body r) = class_of (makeResponseBody body))"

lemma step_ok_inv:
  assumes "step_ok st pr" and "store_inv st"
  shows "\<exists>r u st1. pr = Some (r, u, st1) \<and> store_inv st1"
  using assms unfolding step_ok_def by (metis (full_types))

lemma create_class:
  "process_create now zxid s path content al eph seq st = Some (r, u, st1) \<Longrightarrow> class_of (rs_body r) = RcCreate"
  by (auto simp: process_create_def answer_def Let_def split: prod.splits option.splits if_splits)

lemma remove_class: "process_remove path ver st = Some (r, u, st1) \<Longrightarrow> class_of (rs_body r) = RcRemove"
  by (auto simp: process_remove_def answer_def Let_def split: prod.splits option.splits if_splits)

lemma set_class: "process_set now zxid path content ver st = Some (r, u, st1) \<Longrightarrow> class_of (rs_body r) = RcSet"
  by (auto simp: process_set_def answer_def Let_def split: prod.splits option.splits if_splits)

lemma set_inv:
  assumes "store_inv (c, e)"
  shows "\<exists>r u st1. process_set now zxid path content ver (c, e) = Some (r, u, st1) \<and> store_inv st1"
proof (cases "\<exists>n. tb_find c path = Some n \<and> (ver = - 1 \<or> ver = version (stat_of n))")
  case False
  then show ?thesis using process_set_refused [OF False] assms by (fastforce simp: answer_def)
next
  case True
  then obtain n where n: "tb_find c path = Some n" "ver = - 1 \<or> ver = version (stat_of n)" by blast
  have t: "tb_inv c" "tree (tb_find c)" "eph_ok (tb_find c) e" "eph_distinct e"
    using assms by (simp_all add: store_inv_def)
  show ?thesis
  proof (rule process_set_written [OF t(1,2) n, of now zxid content e])
    fix k c2
    assume "process_set now zxid path content ver (c, e)
        = Some (response_ok (SetResponse (stat_of k)), UndoSet n path, (c2, e))"
      and "tb_inv c2" "tree (tb_find c2)" and ep: "\<And>e. eph_ok (tb_find c) e \<Longrightarrow> eph_ok (tb_find c2) e"
    then show ?thesis using ep [OF t(3)] t(4) by (simp add: store_inv_def)
  qed
qed

lemma no_path: "tree T \<Longrightarrow> T [] = None"
  using treeD(1) [of T "[]"] by (cases "T []") (auto simp: valid_path_def)

lemma process_answers:
  assumes "store_inv st" and "request_ok clock zxid s body st"
  shows "answered_ok body (process clock zxid s body st)"
proof (cases st)
  case (Pair c e)
  have inv: "store_inv (c, e)" using assms(1) Pair by simp
  have empty: "tb_find c [] = None" using inv no_path by (simp add: store_inv_def)
  show ?thesis
  proof (cases body)
    case (CreateRequest path content al eph seq)
    obtain r u st1 where p: "process_create (clock 0) zxid s path content al eph seq (c, e) = Some (r, u, st1)"
        "store_inv st1"
      using step_ok_inv [OF create_step inv] inv assms(2) CreateRequest Pair by fastforce
    then show ?thesis using create_class [OF p(1)] CreateRequest Pair
      by (simp add: answered_ok_def no_throw_def)
  next
    case (RemoveRequest path ver)
    obtain r u st1 where p: "process_remove path ver (c, e) = Some (r, u, st1)" "store_inv st1"
      using step_ok_inv [OF remove_step inv] inv assms(2) RemoveRequest Pair by fastforce
    then show ?thesis using remove_class [OF p(1)] RemoveRequest Pair
      by (simp add: answered_ok_def no_throw_def)
  next
    case (SetRequest path content ver)
    obtain r u st1 where p: "process_set (clock 0) zxid path content ver (c, e) = Some (r, u, st1)" "store_inv st1"
      using set_inv [OF inv] by blast
    then show ?thesis using set_class [OF p(1)] SetRequest Pair
      by (simp add: answered_ok_def no_throw_def)
  next
    case (MultiRequest requests)
    show ?thesis
    proof (cases "concrete_requests requests")
      case (Inl ex)
      then show ?thesis using MultiRequest by (simp add: answered_ok_def process_multi_def)
    next
      case (Inr qs)
      have "multi_ok clock zxid s 0 qs st" using assms(2) MultiRequest Inr by simp
      then have loop: "all_or_nothing [] (length qs) st (in_sequence clock zxid s 0 qs st)
          (multi_loop clock zxid s 0 qs [] [] st)"
        by (rule multi_loop_correct [OF assms(1) _ undoes_all_Nil])
      have "\<exists>rs st1. multi_loop clock zxid s 0 qs [] [] st = Some (rs, st1) \<and> store_inv st1"
      proof (cases "in_sequence clock zxid s 0 qs st")
        case None
        then obtain rs st1 where "multi_loop clock zxid s 0 qs [] [] st = Some (rs, st1)" "same_store st1 st"
          using loop unfolding all_or_nothing_def by auto
        then show ?thesis using same_store_inv [OF _ assms(1)] by blast
      next
        case (Some p)
        then show ?thesis using loop unfolding all_or_nothing_def by (cases p) simp
      qed
      then show ?thesis using Inr MultiRequest by (auto simp: answered_ok_def process_multi_def)
    qed
  qed (use inv Pair empty in \<open>simp_all add: answered_ok_def no_throw_def answer_def process_exists_def process_get_def
        process_list_def process_check_def Let_def split: option.splits\<close>)
qed


section \<open>Watches\<close>

text \<open>Every watch is recorded for its session, so that closing the session finds it.\<close>

definition watch_inv :: "watches \<Rightarrow> watches \<Rightarrow> (session \<times> string list) list \<Rightarrow> bool" where
  "watch_inv ws lws sw \<longleftrightarrow>
     (\<forall>path s. s \<in> set (sets_at ws path) \<or> s \<in> set (sets_at lws path) \<longrightarrow> path \<in> set (sets_at sw s))"

definition notifies :: "watches \<times> watches \<Rightarrow> responses_for_sessions \<times> watches \<times> watches \<Rightarrow> bool" where
  "notifies w res \<longleftrightarrow>
     (\<forall>path. set (sets_at (fst (snd res)) path) \<subseteq> set (sets_at (fst w) path)
           \<and> set (sets_at (snd (snd res)) path) \<subseteq> set (sets_at (snd w) path))
     \<and> (\<forall>(s, r) \<in> set (fst res). \<exists>path ev. r = watch_response path ev
           \<and> (s \<in> set (sets_at (fst w) path) \<or> s \<in> set (sets_at (snd w) path)))"

lemma fire_watches:
  "sets_at (snd (fire path ev ws)) p = (if p = path then [] else sets_at ws p)"
  "fst (fire path ev ws) = map (\<lambda>s. (s, watch_response path ev)) (sets_at ws path)"
  by (auto simp: fire_def sets_at_def delete_conv' split: option.splits)

lemma impl_notifies: "notifies w (processWatchesImpl path ev w)"
  by (auto simp: notifies_def processWatchesImpl_def split_beta Let_def fire_watches) blast+

lemma notifies_nothing: "notifies w ([], w)"
  by (simp add: notifies_def)

lemma notifies_trans:
  assumes "notifies w (r, w1)" and "notifies w1 (rs, w2)"
  shows "notifies w (r @ rs, w2)"
  using assms unfolding notifies_def by (fastforce simp: subset_iff)

lemma concrete_notifies: "notifies w (concrete_watches q w)"
  by (cases q) (simp_all add: impl_notifies notifies_nothing)

lemma loop_notifies: "notifies w (watches_loop qs w)"
proof (induction qs arbitrary: w)
  case (Cons q qs)
  obtain r w1 where r: "concrete_watches q w = (r, w1)" by (rule prod.exhaust)
  obtain rs w2 where rs: "watches_loop qs w1 = (rs, w2)" by (rule prod.exhaust)
  have "notifies w (r, w1)" "notifies w1 (rs, w2)"
    using concrete_notifies [of w q] r Cons.IH [of w1] rs by simp_all
  then show ?case using notifies_trans r rs by simp
qed (simp add: notifies_nothing)

lemma processWatches_notifies: "notifies w (processWatches body w)"
  by (cases body)
     (simp_all add: processWatches_def impl_notifies notifies_nothing loop_notifies split: sum.splits)

lemma notifies_responses:
  assumes "notifies w (rs, w')" and "(t, r) \<in> set rs"
  shows "\<exists>path ev. r = watch_response path ev"
proof -
  have "case (t, r) of (s, r) \<Rightarrow> \<exists>path ev. r = watch_response path ev
          \<and> (s \<in> set (sets_at (fst w) path) \<or> s \<in> set (sets_at (snd w) path))"
    using assms unfolding notifies_def fst_conv by blast
  then show ?thesis by auto
qed

lemma notifies_inv:
  "notifies (ws, lws) (rs, ws', lws') \<Longrightarrow> watch_inv ws lws sw \<Longrightarrow> watch_inv ws' lws' sw"
  by (fastforce simp: notifies_def watch_inv_def)

lemma register_watch_inv:
  assumes "watch_inv (ks_watches ks) (list_watches ks) (sessions_and_watchers ks)"
  shows "let ks1 = register_watch s request err ks in
           watch_inv (ks_watches ks1) (list_watches ks1) (sessions_and_watchers ks1)
           \<and> ks_container ks1 = ks_container ks \<and> ks_ephemerals ks1 = ks_ephemerals ks \<and> ks_zxid ks1 = ks_zxid ks"
proof -
  let ?p = "getPath (rq_body request)"
  let ?sw = "sets_emplace s ?p (sessions_and_watchers ks)"
  let ?add = "\<lambda>ws. AList.update ?p (sets_at ws ?p @ [s]) ws"
  have "watch_inv (?add (ks_watches ks)) (list_watches ks) ?sw" "watch_inv (ks_watches ks) (?add (list_watches ks)) ?sw"
    using assms by (auto simp: watch_inv_def sets_at_update sets_at_emplace)
  then show ?thesis using assms by (simp add: register_watch_def Let_def)
qed

section \<open>Closing a session\<close>

lemma ephemeral_leaf:
  assumes "tree T" and "T p = Some n" and "owner n \<noteq> 0"
  shows "children n = {}" and "p \<noteq> [slash]"
proof -
  show "p \<noteq> [slash]" using tree_root [OF assms(1)] assms(2,3) by auto
  have "b \<notin> children n" for b
  proof
    assume "b \<in> children n"
    then obtain q where q: "T q \<noteq> None" "q \<noteq> [slash]" "parentPath q = p"
      using treeD(4) [OF assms(1,2)] unfolding child_exists_def by blast
    then obtain k where "T q = Some k" by blast
    then show False using treeD(3) [OF assms(1) _ q(2)] q(3) assms(2,3) by (auto simp: listed_def)
  qed
  then show "children n = {}" by (intro equals0I notI) simp
qed

text \<open>The nodes that stay keep their data and their owner.\<close>

definition kept_nodes :: "forest \<Rightarrow> string set \<Rightarrow> forest \<Rightarrow> bool" where
  "kept_nodes T gone T' \<longleftrightarrow>
     (\<forall>p. if p \<in> gone then T' p = None
          else map_option owner (T' p) = map_option owner (T p) \<and> map_option data (T' p) = map_option data (T p))"

lemma kept_nodes_owner:
  assumes "kept_nodes T gone T'"
  shows "(\<exists>n. T' p = Some n \<and> owner n = s) \<longleftrightarrow> p \<notin> gone \<and> (\<exists>n. T p = Some n \<and> owner n = s)"
proof (cases "p \<in> gone")
  case False
  then have "map_option owner (T' p) = map_option owner (T p)"
    using assms by (simp add: kept_nodes_def)
  then show ?thesis using False by (cases "T p"; cases "T' p") simp_all
qed (use assms in \<open>simp add: kept_nodes_def\<close>)

lemma close_ephemerals_tree:
  assumes "tb_inv c" and "tree (tb_find c)" and "s \<noteq> 0" and "distinct paths"
    and "\<forall>p \<in> set paths. \<exists>n. tb_find c p = Some n \<and> owner n = s"
  shows "\<exists>rs c' w'. close_ephemerals paths (c, w) = Some (rs, c', w') \<and> tb_inv c' \<and> tree (tb_find c')
           \<and> kept_nodes (tb_find c) (set paths) (tb_find c') \<and> notifies w (rs, w')"
  using assms
proof (induction paths arbitrary: c w)
  case Nil
  then show ?case by (simp add: kept_nodes_def notifies_nothing)
next
  case (Cons p paths)
  let ?T = "tb_find c"
  obtain n where n: "?T p = Some n" "owner n = s" using Cons.prems(5) by auto
  have leaf: "children n = {}" "p \<noteq> [slash]" using ephemeral_leaf [OF Cons.prems(2) n(1)] n(2) Cons.prems(3) by simp_all
  have pp: "parentPath p \<noteq> p" by (rule join_parts(2) [OF treeD(1) [OF Cons.prems(2) n(1)] leaf(2)])
  obtain m where m: "?T (parentPath p) = Some m" "owner m = 0"
    using treeD(3) [OF Cons.prems(2) n(1) leaf(2)] unfolding listed_def by blast
  have er: "tb_inv (snd (tb_erase p c))" "tb_find (snd (tb_erase p c)) = ?T(p := None)"
    using kt.erase_inv [OF Cons.prems(1)] kt.erase_lookup [OF Cons.prems(1)] by simp_all
  have "tb_find (snd (tb_erase p c)) (parentPath p) = Some m" using er(2) m(1) pp by simp
  then obtain c1 where c1: "update_node (parentPath p) (child_removed (getBaseName p)) (snd (tb_erase p c)) = Some c1"
      "tb_inv c1" "tb_find c1 = ?T(p := None, parentPath p \<mapsto> child_removed (getBaseName p) m)"
    using update_node_Some [OF er(1)] er(2) by fastforce
  have c1T: "tb_find c1 = ?T(parentPath p \<mapsto> child_removed (getBaseName p) m, p := None)"
    using c1(3) pp by (simp add: fun_upd_twist)
  have t1: "tree (tb_find c1)" unfolding c1T by (rule tree_del [OF Cons.prems(2) n(1) leaf m(1)])
  have kept: "kept_nodes ?T {p} (tb_find c1)"
    unfolding kept_nodes_def c1T using m(1) by (simp add: child_removed_def)
  obtain r w1 where r: "processWatchesImpl p DELETED w = (r, w1)" by (rule prod.exhaust)
  have "\<exists>n. tb_find c1 q = Some n \<and> owner n = s" if "q \<in> set paths" for q
    using Cons.prems(4,5) that kept_nodes_owner [OF kept, of q s] by auto
  then obtain rs c' w' where rec: "close_ephemerals paths (c1, w1) = Some (rs, c', w')" "tb_inv c'" "tree (tb_find c')"
      "kept_nodes (tb_find c1) (set paths) (tb_find c')" "notifies w1 (rs, w')"
    using Cons.IH [OF c1(2) t1 Cons.prems(3), of w1] Cons.prems(4) by auto
  have "kept_nodes ?T (set (p # paths)) (tb_find c')"
    using kept rec(4) unfolding kept_nodes_def by (metis list.set_intros(1) list.simps(15) insert_iff singletonD map_option_is_None)
  moreover have "notifies w (r @ rs, w')"
    using notifies_trans [OF _ rec(5)] impl_notifies [of w p DELETED] r by simp
  ultimately show ?case using c1(1) r rec(1-3) by simp
qed


definition ks_inv :: "keeper_storage \<Rightarrow> bool" where
  "ks_inv ks \<longleftrightarrow> store_inv (ks_container ks, ks_ephemerals ks)
     \<and> watch_inv (ks_watches ks) (list_watches ks) (sessions_and_watchers ks)"

lemma drop_watcher_at:
  "set (sets_at (drop_watcher s path ws) p) = (if p = path then set (sets_at ws p) - {s} else set (sets_at ws p))"
proof (cases "map_of ws path")
  case None
  then show ?thesis by (simp add: drop_watcher_def sets_at_def)
next
  case (Some sessions)
  then have at: "sets_at ws path = sessions" by (simp add: sets_at_def)
  have "removeAll s sessions = [] \<longleftrightarrow> set sessions - {s} = {}" by (metis set_empty set_removeAll)
  then show ?thesis using Some at by (simp add: drop_watcher_def Let_def sets_at_delete sets_at_update)
qed

lemma drop_watcher_fold:
  "set (sets_at (fold (drop_watcher s) paths ws) p) =
     (if p \<in> set paths then set (sets_at ws p) - {s} else set (sets_at ws p))"
  by (induction paths arbitrary: ws) (auto simp: drop_watcher_at)

definition no_watch :: "session \<Rightarrow> keeper_storage \<Rightarrow> bool" where
  "no_watch s ks \<longleftrightarrow> (\<forall>p. s \<notin> set (sets_at (ks_watches ks) p) \<and> s \<notin> set (sets_at (list_watches ks) p))"

lemma clearDeadWatches_at:
  shows "set (sets_at (ks_watches (clearDeadWatches s ks)) p) =
     (if p \<in> set (sets_at (sessions_and_watchers ks) s) then set (sets_at (ks_watches ks) p) - {s}
      else set (sets_at (ks_watches ks) p))" (is ?thesis1)
    and "set (sets_at (list_watches (clearDeadWatches s ks)) p) =
     (if p \<in> set (sets_at (sessions_and_watchers ks) s) then set (sets_at (list_watches ks) p) - {s}
      else set (sets_at (list_watches ks) p))" (is ?thesis2)
    and "sets_at (sessions_and_watchers (clearDeadWatches s ks)) t =
     (if t = s then [] else sets_at (sessions_and_watchers ks) t)" (is ?thesis3)
proof -
  have "sets_at (sessions_and_watchers ks) s = (case map_of (sessions_and_watchers ks) s of None \<Rightarrow> [] | Some ps \<Rightarrow> ps)"
    by (simp add: sets_at_def)
  then show ?thesis1 ?thesis2 ?thesis3
    by (cases "map_of (sessions_and_watchers ks) s";
        simp add: clearDeadWatches_def drop_watcher_fold sets_at_delete)+
qed

lemma clearDeadWatches_fields [simp]:
  "ks_container (clearDeadWatches s ks) = ks_container ks"
  "ks_ephemerals (clearDeadWatches s ks) = ks_ephemerals ks"
  "ks_zxid (clearDeadWatches s ks) = ks_zxid ks"
  by (simp_all add: clearDeadWatches_def split: option.splits)

lemma clearDeadWatches_correct:
  assumes "watch_inv (ks_watches ks) (list_watches ks) (sessions_and_watchers ks)"
  shows "watch_inv (ks_watches (clearDeadWatches s ks)) (list_watches (clearDeadWatches s ks))
           (sessions_and_watchers (clearDeadWatches s ks))"
    and "no_watch s (clearDeadWatches s ks)"
proof -
  have rec: "t \<in> set (sets_at (ks_watches ks) p) \<or> t \<in> set (sets_at (list_watches ks) p)
      \<Longrightarrow> p \<in> set (sets_at (sessions_and_watchers ks) t)" for t p
    using assms unfolding watch_inv_def by blast
  show no: "no_watch s (clearDeadWatches s ks)"
    unfolding no_watch_def clearDeadWatches_at using rec [of s] by auto
  show "watch_inv (ks_watches (clearDeadWatches s ks)) (list_watches (clearDeadWatches s ks))
           (sessions_and_watchers (clearDeadWatches s ks))"
    unfolding watch_inv_def
  proof (intro allI impI)
    fix p t
    assume t: "t \<in> set (sets_at (ks_watches (clearDeadWatches s ks)) p)
      \<or> t \<in> set (sets_at (list_watches (clearDeadWatches s ks)) p)"
    then have "t \<noteq> s" using no unfolding no_watch_def by blast
    moreover have "t \<in> set (sets_at (ks_watches ks) p) \<or> t \<in> set (sets_at (list_watches ks) p)"
      using t by (auto simp: clearDeadWatches_at split: if_splits)
    ultimately show "p \<in> set (sets_at (sessions_and_watchers (clearDeadWatches s ks)) t)"
      using rec by (simp add: clearDeadWatches_at)
  qed
qed

text \<open>The ephemeral part of closing: what is left of the nodes of the session, and of the others.\<close>

lemma close_store:
  assumes "store_inv (c, e)" and "close_ephemerals (sets_at e s) (c, w) = Some (rs, c', w')"
  shows "store_inv (c', AList.delete s e)" and "kept_nodes (tb_find c) (set (sets_at e s)) (tb_find c')"
    and "notifies w (rs, w')"
proof -
  have t: "tb_inv c" "tree (tb_find c)" "eph_ok (tb_find c) e" "eph_distinct e"
    using assms(1) by (simp_all add: store_inv_def)
  have "tb_inv c' \<and> tree (tb_find c') \<and> kept_nodes (tb_find c) (set (sets_at e s)) (tb_find c') \<and> notifies w (rs, w')"
  proof (cases "s = 0")
    case True
    then have "sets_at e s = []" using eph_ok_zero [OF t(3)] by simp
    then show ?thesis using assms(2) t by (simp add: kept_nodes_def notifies_nothing)
  next
    case False
    have "\<forall>p \<in> set (sets_at e s). \<exists>n. tb_find c p = Some n \<and> owner n = s"
      using t(3) by (simp add: eph_ok_def)
    then show ?thesis
      using close_ephemerals_tree [OF t(1,2) False, of "sets_at e s" w] t(4) assms(2)
      by (simp add: eph_distinct_def)
  qed
  then have c': "tb_inv c'" "tree (tb_find c')" and k: "kept_nodes (tb_find c) (set (sets_at e s)) (tb_find c')"
    and nt: "notifies w (rs, w')" by blast+
  have "eph_ok (tb_find c') (AList.delete s e)"
    unfolding eph_ok_def
  proof (intro allI)
    fix s' p
    have iff: "p \<in> set (sets_at e s'') \<longleftrightarrow> s'' \<noteq> 0 \<and> (\<exists>n. tb_find c p = Some n \<and> owner n = s'')" for s''
      using t(3) by (simp add: eph_ok_def)
    show "p \<in> set (sets_at (AList.delete s e) s')
        \<longleftrightarrow> s' \<noteq> 0 \<and> (\<exists>n. tb_find c' p = Some n \<and> owner n = s')"
      unfolding kept_nodes_owner [OF k] sets_at_delete
      using iff [of s] iff [of s'] by (cases "tb_find c p"; cases "s' = s") (simp_all, blast+)
  qed
  then show "store_inv (c', AList.delete s e)" using c' t(4) by (simp add: store_inv_def)
  show "kept_nodes (tb_find c) (set (sets_at e s)) (tb_find c')" "notifies w (rs, w')" using k nt by blast+
qed

lemma close_store_ex:
  assumes "store_inv (c, e)"
  shows "\<exists>rs c' w'. close_ephemerals (sets_at e s) (c, w) = Some (rs, c', w')"
proof (cases "s = 0")
  case True
  have "sets_at e s = []" using eph_ok_zero [of "tb_find c" e] assms True by (simp add: store_inv_def)
  then show ?thesis by simp
next
  case False
  have t: "tb_inv c" "tree (tb_find c)" "eph_distinct e" using assms by (simp_all add: store_inv_def)
  have "\<forall>p \<in> set (sets_at e s). \<exists>n. tb_find c p = Some n \<and> owner n = s"
    using assms by (simp add: store_inv_def eph_ok_def)
  then show ?thesis
    using close_ephemerals_tree [OF t(1,2) False, of "sets_at e s" w] t(3) by (auto simp: eph_distinct_def)
qed


text \<open>
  Closing a session removes what the session owned and nothing else: afterwards the tree has no
  node of the session and the storage has no watch of it, every other node keeps its data and its
  owner, the watches of other sessions are at most notified, and the storage invariant holds.
  The last response is the answer to the session, after the notifications of watchers.
\<close>

lemma close_session_correct:
  assumes "ks_inv ks"
  shows "\<exists>rs ks'. close_session s xid ks = Some (rs @ [(s, close_response xid (ks_zxid ks))], ks') \<and> ks_inv ks'
           \<and> (\<forall>p n. tb_find (ks_container ks') p = Some n \<longrightarrow> s = 0 \<or> owner n \<noteq> s)
           \<and> no_watch s ks' \<and> map_of (session_and_timeout ks') s = None
           \<and> kept_nodes (tb_find (ks_container ks)) (set (sets_at (ks_ephemerals ks) s)) (tb_find (ks_container ks'))
           \<and> (\<forall>(t, r) \<in> set rs. \<exists>path ev. r = watch_response path ev)"
proof -
  let ?c = "ks_container ks" and ?e = "ks_ephemerals ks" and ?w = "(ks_watches ks, list_watches ks)"
  have inv: "store_inv (?c, ?e)" and wi: "watch_inv (ks_watches ks) (list_watches ks) (sessions_and_watchers ks)"
    using assms by (simp_all add: ks_inv_def)
  obtain rs c' ws lws where cl: "close_ephemerals (sets_at ?e s) (?c, ?w) = Some (rs, c', ws, lws)"
    using close_store_ex [OF inv, of s ?w] by auto
  note cs = close_store [OF inv cl]
  define ks1 where "ks1 = ks\<lparr>ks_container := c', ks_watches := ws, list_watches := lws,
                              ks_ephemerals := AList.delete s ?e\<rparr>"
  have "(case map_of ?e s of
           None \<Rightarrow> Some ([], ks)
         | Some paths \<Rightarrow>
             map_option
               (\<lambda>(rs, c, ws, lws). (rs, ks\<lparr>ks_container := c, ks_watches := ws, list_watches := lws,
                                          ks_ephemerals := AList.delete s ?e\<rparr>))
               (close_ephemerals paths (?c, ?w))) = Some (rs, ks1)"
  proof (cases "map_of ?e s")
    case None
    have "sets_at ?e s = []" using None by (simp add: sets_at_def)
    moreover have "AList.delete s ?e = ?e" using None by (simp add: map_of_eq_None_iff)
    ultimately show ?thesis using cl None by (simp add: ks1_def)
  next
    case (Some paths)
    then have "sets_at ?e s = paths" by (simp add: sets_at_def)
    then show ?thesis using cl Some by (simp add: ks1_def)
  qed
  then have close: "close_session s xid ks =
      Some (rs @ [(s, close_response xid (ks_zxid ks))],
        (clearDeadWatches s ks1)\<lparr>session_expiry_queue := snd (sq_remove s (session_expiry_queue (clearDeadWatches s ks1))),
           session_and_timeout := AList.delete s (session_and_timeout (clearDeadWatches s ks1))\<rparr>)"
    by (simp add: close_session_def Let_def ks1_def)
  have "watch_inv (ks_watches ks1) (list_watches ks1) (sessions_and_watchers ks1)"
    using notifies_inv [OF cs(3)] wi by (simp add: ks1_def)
  note cd = clearDeadWatches_correct [OF this, of s]
  have none: "s = 0 \<or> owner n \<noteq> s" if "tb_find c' p = Some n" for p n
  proof (rule ccontr)
    assume "\<not> (s = 0 \<or> owner n \<noteq> s)"
    then have "p \<in> set (sets_at (AList.delete s ?e) s)"
      using cs(1) that by (simp add: store_inv_def eph_ok_def)
    then show False by (simp add: sets_at_delete)
  qed
  have watch: "\<forall>(t, r) \<in> set rs. \<exists>path ev. r = watch_response path ev"
    using notifies_responses [OF cs(3)] by auto
  show ?thesis
    unfolding close
    by (intro exI conjI, rule refl)
       (use cs(1,2) cd none watch in \<open>simp_all add: ks_inv_def no_watch_def ks1_def delete_conv'\<close>)
qed


section \<open>Whole requests\<close>

definition zxid_of :: "i64 option \<Rightarrow> keeper_storage \<Rightarrow> i64" where
  "zxid_of new_last_zxid ks = (case new_last_zxid of None \<Rightarrow> ks_zxid ks | Some z \<Rightarrow> z)"

text \<open>The answer to the session comes last, with the number of the request, after notifications only.\<close>

definition answers :: "session \<Rightarrow> zk_request \<Rightarrow> i64 \<Rightarrow> responses_for_sessions \<Rightarrow> bool" where
  "answers s request zxid rs \<longleftrightarrow>
     (\<exists>ws r. rs = ws @ [(s, r)] \<and> rs_xid r = rq_xid request \<and> rs_zxid r = zxid
        \<and> class_of (rs_body r) = class_of (makeResponseBody (rq_body request))
        \<and> (\<forall>(t, w) \<in> set ws. \<exists>path ev. w = watch_response path ev))"

definition request_result :: "session \<Rightarrow> zk_request \<Rightarrow> requested \<Rightarrow> bool" where
  "request_result s request res \<longleftrightarrow>
     (case res of
        None \<Rightarrow> False
      | Some (Inl (ex, ks')) \<Rightarrow> ks_inv ks'
      | Some (Inr (rs, ks')) \<Rightarrow> ks_inv ks' \<and> answers s request (ks_zxid ks') rs)"

lemma stamp_simps [simp]:
  "rs_xid (stamp x z r) = x" "rs_zxid (stamp x z r) = z" "rs_body (stamp x z r) = rs_body r"
  "rs_error (stamp x z r) = rs_error r"
  by (simp_all add: stamp_def)

lemma run_request_correct:
  assumes "ks_inv ks" and "request_ok clock (ks_zxid ks) s (rq_body request) (ks_container ks, ks_ephemerals ks)"
  shows "request_result s request (run_request clock s request ks)"
proof -
  let ?out = "process clock (ks_zxid ks) s (rq_body request) (ks_container ks, ks_ephemerals ks)"
  have inv: "store_inv (ks_container ks, ks_ephemerals ks)"
    and wi: "watch_inv (ks_watches ks) (list_watches ks) (sessions_and_watchers ks)"
    using assms(1) by (simp_all add: ks_inv_def)
  have ok: "answered_ok (rq_body request) ?out" by (rule process_answers [OF inv assms(2)])
  then obtain o' where o': "?out = Some o'" by (cases ?out) (simp_all add: answered_ok_def)
  show ?thesis
  proof (cases o')
    case (Inl ex)
    then show ?thesis using o' assms(1) by (simp add: run_request_def request_result_def)
  next
    case (Inr p)
    obtain r u c e where p: "p = (r, u, c, e)" by (metis prod.exhaust)
    have st: "store_inv (c, e)" and cls: "class_of (rs_body r) = class_of (makeResponseBody (rq_body request))"
      using ok o' Inr p by (simp_all add: answered_ok_def)
    define ks1 where "ks1 = ks\<lparr>ks_container := c, ks_ephemerals := e\<rparr>"
    define ks2 where "ks2 = register_watch s request (rs_error r) ks1"
    have ks2: "watch_inv (ks_watches ks2) (list_watches ks2) (sessions_and_watchers ks2)"
        "ks_container ks2 = c" "ks_ephemerals ks2 = e" "ks_zxid ks2 = ks_zxid ks"
      using register_watch_inv [of ks1 s request "rs_error r"] wi by (simp_all add: ks2_def ks1_def Let_def)
    obtain rs ws lws where pw: "processWatches (rq_body request) (ks_watches ks2, list_watches ks2) = (rs, ws, lws)"
      by (metis prod.exhaust)
    have nt: "notifies (ks_watches ks2, list_watches ks2) (rs, ws, lws)"
      using processWatches_notifies [of "(ks_watches ks2, list_watches ks2)" "rq_body request"] pw by simp
    have ws: "watch_inv ws lws (sessions_and_watchers ks2)" by (rule notifies_inv [OF nt ks2(1)])
    let ?a = "stamp (rq_xid request) (ks_zxid ks) r"
    have run: "run_request clock s request ks =
        (if getOpNum (rq_body request) = OpHeartbeat then Some (Inr ([(s, ?a)], ks1))
         else if rs_error r = ZOK
         then Some (Inr (rs @ [(s, ?a)], ks2\<lparr>ks_watches := ws, list_watches := lws\<rparr>))
         else Some (Inr ([(s, ?a)], ks2)))"
      using o' Inr p pw by (cases "rs_error r = ZOK") (simp_all add: run_request_def Let_def ks1_def ks2_def)
    have one: "answers s request (ks_zxid ks) [(s, ?a)]"
      using cls by (simp add: answers_def)
    have many: "answers s request (ks_zxid ks) (rs @ [(s, ?a)])"
      using cls notifies_responses [OF nt] by (fastforce simp: answers_def)
    have "ks_inv ks1" using st wi by (simp add: ks_inv_def ks1_def)
    moreover have "ks_inv ks2" using st ks2 by (simp add: ks_inv_def)
    moreover have "ks_inv (ks2\<lparr>ks_watches := ws, list_watches := lws\<rparr>)" using st ks2 ws by (simp add: ks_inv_def)
    moreover have "ks_zxid ks1 = ks_zxid ks" by (simp add: ks1_def)
    ultimately show ?thesis using one many ks2(4) by (simp add: run request_result_def)
  qed
qed

lemma touch_session_fields [simp]:
  "ks_container (touch_session now s ks) = ks_container ks" "ks_ephemerals (touch_session now s ks) = ks_ephemerals ks"
  "ks_zxid (touch_session now s ks) = ks_zxid ks" "ks_watches (touch_session now s ks) = ks_watches ks"
  "list_watches (touch_session now s ks) = list_watches ks"
  "sessions_and_watchers (touch_session now s ks) = sessions_and_watchers ks"
  by (simp_all add: touch_session_def Let_def)

lemma close_session_zxid: "close_session s xid ks = Some (rs, ks') \<Longrightarrow> ks_zxid ks' = ks_zxid ks"
  by (auto simp: close_session_def Let_def split: option.splits prod.splits)

lemma processRequest_correct:
  assumes "ks_inv ks"
    and "request_ok clock (zxid_of new_last_zxid ks) s (rq_body request) (ks_container ks, ks_ephemerals ks)"
  shows "request_result s request (processRequest now clock request s new_last_zxid ks)"
proof (cases "advance_zxid new_last_zxid ks")
  case (Inl ex)
  then show ?thesis using assms(1) by (simp add: processRequest_def request_result_def)
next
  case (Inr ks0)
  then have ks0: "ks0 = ks\<lparr>ks_zxid := zxid_of new_last_zxid ks\<rparr>"
    by (auto simp: advance_zxid_def zxid_of_def split: option.splits if_splits)
  let ?ks1 = "touch_session now s ks0"
  have inv: "ks_inv ?ks1" using assms(1) by (simp add: ks_inv_def ks0)
  show ?thesis
  proof (cases "getOpNum (rq_body request) = OpClose")
    case True
    then have body: "rq_body request = CloseRequest" by (cases "rq_body request") simp_all
    obtain rs ks' where cl: "close_session s (rq_xid request) ?ks1
          = Some (rs @ [(s, close_response (rq_xid request) (ks_zxid ?ks1))], ks')" "ks_inv ks'"
        "\<forall>(t, r) \<in> set rs. \<exists>path ev. r = watch_response path ev"
      using close_session_correct [OF inv] by blast
    then have "answers s request (ks_zxid ks') (rs @ [(s, close_response (rq_xid request) (ks_zxid ?ks1))])"
      using close_session_zxid [OF cl(1)] body by (simp add: answers_def close_response_def)
    then show ?thesis using Inr True cl by (simp add: processRequest_def request_result_def)
  next
    case False
    then show ?thesis
      using run_request_correct [OF inv, of clock s request] Inr assms(2) by (simp add: processRequest_def ks0)
  qed
qed


section \<open>The storage as a transition system\<close>

text \<open>
  The steps of a running Keeper: a request with or without an exception, a new session, a look for
  dead sessions, and the switches of the snapshot thread.
\<close>

inductive keeper_step :: "keeper_storage \<Rightarrow> keeper_storage \<Rightarrow> bool" where
  request: "request_ok clock (zxid_of new_last_zxid ks) s (rq_body request) (ks_container ks, ks_ephemerals ks) \<Longrightarrow>
      processRequest now clock request s new_last_zxid ks = Some (Inr (rs, ks')) \<Longrightarrow> keeper_step ks ks'"
| refused: "request_ok clock (zxid_of new_last_zxid ks) s (rq_body request) (ks_container ks, ks_ephemerals ks) \<Longrightarrow>
      processRequest now clock request s new_last_zxid ks = Some (Inl (ex, ks')) \<Longrightarrow> keeper_step ks ks'"
| session: "getSessionID now timeout ks = (s, ks') \<Longrightarrow> keeper_step ks ks'"
| expiry: "getDeadSessions now ks = (dead, ks') \<Longrightarrow> keeper_step ks ks'"
| snapshot_on: "keeper_step ks (ks\<lparr>ks_container := tb_enableSnapshotMode (ks_container ks)\<rparr>)"
| snapshot_off: "keeper_step ks (ks\<lparr>ks_container := tb_disableSnapshotMode (ks_container ks)\<rparr>)"
| garbage: "keeper_step ks (ks\<lparr>ks_container := tb_clearOutdatedNodes (ks_container ks)\<rparr>)"

inductive_cases keeper_stepE: "keeper_step ks ks'"

lemma keeper_step_inv:
  assumes "ks_inv ks" and "keeper_step ks ks'"
  shows "ks_inv ks'"
  using assms(2)
proof cases
  case (request clock new_last_zxid s req now rs)
  then show ?thesis using processRequest_correct [OF assms(1) request(1), of now] by (simp add: request_result_def)
next
  case (refused clock new_last_zxid s req now ex)
  then show ?thesis using processRequest_correct [OF assms(1) refused(1), of now] by (simp add: request_result_def)
next
  case (session now timeout s)
  then show ?thesis using assms(1) by (auto simp: getSessionID_def Let_def ks_inv_def)
next
  case (expiry now dead)
  then show ?thesis using assms(1) by (auto simp: getDeadSessions_def Let_def ks_inv_def split: prod.splits)
next
  case garbage
  have "tb_inv (ks_container ks)" using assms(1) by (simp add: ks_inv_def store_inv_def)
  then show ?thesis using assms(1) garbage tb_clearOutdated [of "ks_container ks"] by (simp add: ks_inv_def store_inv_def)
qed (use assms(1) in \<open>simp_all add: ks_inv_def store_inv_def\<close>)

lemma keeper_storage_new_inv: "ks_inv (keeper_storage_new tick now)"
  using keeper_start_inv by (simp add: ks_inv_def keeper_storage_new_def keeper_start_def watch_inv_def sets_at_def)

interpretation keeper_system: step_system "\<lambda>ks. \<exists>tick now. ks = keeper_storage_new tick now" keeper_step ks_inv
  by unfold_locales (use keeper_storage_new_inv keeper_step_inv in blast)+



text \<open>A Keeper in which session 1 has created \<open>/a\<close> and the ephemeral \<open>/a/b\<close>, and session 2 watches \<open>/a\<close>.\<close>

definition sample_requests :: "(session \<times> zk_request) list" where
  "sample_requests =
     [(1, ZkRequest 1 False (CreateRequest ''/a'' ''x'' [] False False)),
      (1, ZkRequest 2 False (CreateRequest ''/a/b'' ''y'' [] True False)),
      (2, ZkRequest 1 True (GetRequest ''/a''))]"

text \<open>Requests run one after the other at one reading of the clock; \<open>None\<close> when one does not answer.\<close>

fun serve :: "i64 \<Rightarrow> (session \<times> zk_request) list \<Rightarrow> keeper_storage \<Rightarrow> keeper_storage option" where
  "serve z [] ks = Some ks"
| "serve z ((s, r) # reqs) ks =
     (case processRequest 1000 (\<lambda>_. 1000) r s (Some z) ks of
        Some (Inr (rs, ks1)) \<Rightarrow> serve (z + 1) reqs ks1
      | _ \<Rightarrow> None)"

fun serve_ok :: "i64 \<Rightarrow> (session \<times> zk_request) list \<Rightarrow> keeper_storage \<Rightarrow> bool" where
  "serve_ok z [] ks = True"
| "serve_ok z ((s, r) # reqs) ks =
     (request_ok (\<lambda>_. 1000) z s (rq_body r) (ks_container ks, ks_ephemerals ks)
      \<and> (case processRequest 1000 (\<lambda>_. 1000) r s (Some z) ks of
           Some (Inr (rs, ks1)) \<Rightarrow> serve_ok (z + 1) reqs ks1
         | _ \<Rightarrow> True))"

lemma serve_steps:
  assumes "serve_ok z reqs ks" and "serve z reqs ks = Some ks'"
  shows "keeper_step\<^sup>*\<^sup>* ks ks'"
  using assms
proof (induction z reqs ks rule: serve.induct)
  case (2 z s r reqs ks)
  obtain rs ks1 where p: "processRequest 1000 (\<lambda>_. 1000) r s (Some z) ks = Some (Inr (rs, ks1))"
      "serve (z + 1) reqs ks1 = Some ks'"
    using 2(3) by (auto split: option.splits sum.splits)
  have "keeper_step ks ks1"
    using 2(2) p(1) by (intro keeper_step.request) (auto simp: zxid_of_def)
  moreover have "keeper_step\<^sup>*\<^sup>* ks1 ks'"
    using 2(1) [OF p(1)] 2(2) p by simp
  ultimately show ?case by (rule converse_rtranclp_into_rtranclp)
qed simp

definition sample_keeper :: keeper_storage where
  "sample_keeper = the (serve 1 sample_requests (keeper_storage_new 500 1000))"

lemma sample_keeper_serve: "serve 1 sample_requests (keeper_storage_new 500 1000) = Some sample_keeper"
proof -
  have "serve 1 sample_requests (keeper_storage_new 500 1000) \<noteq> None" by code_simp
  then show ?thesis unfolding sample_keeper_def by auto
qed

lemma sample_keeper_reachable: "keeper_step\<^sup>*\<^sup>* (keeper_storage_new 500 1000) sample_keeper"
proof (rule serve_steps [OF _ sample_keeper_serve])
  show "serve_ok 1 sample_requests (keeper_storage_new 500 1000)" by code_simp
qed

lemma sample_keeper_inv: "ks_inv sample_keeper"
  using keeper_system.reachable_inv sample_keeper_reachable by blast



text \<open>
  C12. The answer to a request has the type the request asks for.  The responses of a request are
  notifications of watchers followed by one response to the session that asked; that one carries
  the number of the request and the transaction number of the storage, and its class is the one
  the request's \<^verbatim>\<open>makeResponse\<close> creates, so the casts of the code and of the client succeed.
\<close>

theorem keeper_answer_type:
  assumes "keeper_step\<^sup>*\<^sup>* (keeper_storage_new tick now0) ks"
    and "request_ok clock (zxid_of new_last_zxid ks) s (rq_body request) (ks_container ks, ks_ephemerals ks)"
    and "processRequest now clock request s new_last_zxid ks = Some (Inr (rs, ks'))"
  shows "\<exists>ws r. rs = ws @ [(s, r)] \<and> rs_xid r = rq_xid request \<and> rs_zxid r = ks_zxid ks'
           \<and> class_of (rs_body r) = class_of (makeResponseBody (rq_body request))
           \<and> (\<forall>(t, w) \<in> set ws. \<exists>path ev. w = watch_response path ev)"
proof -
  have inv: "ks_inv ks" using keeper_system.reachable_inv assms(1) by blast
  have "request_result s request (Some (Inr (rs, ks')))"
    using processRequest_correct [OF inv assms(2), of now] assms(3) by simp
  then show ?thesis by (simp add: request_result_def answers_def)
qed

theorem keeper_answer_type_witness:
  "\<exists>rs ks' ws r. processRequest 2000 (\<lambda>_. 2000) (ZkRequest 3 False (SetRequest ''/a'' ''z'' (- 1))) 1 (Some 9) sample_keeper
       = Some (Inr (rs, ks')) \<and> rs = ws @ [(1, r)] \<and> length ws = 1 \<and> rs_xid r = 3 \<and> class_of (rs_body r) = RcSet"
proof -
  let ?rq = "ZkRequest 3 False (SetRequest ''/a'' ''z'' (- 1))"
  let ?p = "processRequest 2000 (\<lambda>_. 2000) ?rq 1 (Some 9) sample_keeper"
  have "case ?p of Some (Inr (rs, ks')) \<Rightarrow> length rs = 2 | _ \<Rightarrow> False" by code_simp
  then obtain rs ks' where p: "?p = Some (Inr (rs, ks'))" "length rs = 2"
    by (auto split: option.splits sum.splits)
  obtain ws r where "rs = ws @ [(1, r)]" "rs_xid r = 3" "class_of (rs_body r) = RcSet"
    using keeper_answer_type [OF sample_keeper_reachable _ p(1)] by auto
  then show ?thesis using p by auto
qed

text \<open>
  C13. Closing a session removes what the session owned and nothing else: afterwards the tree has no
  node of the session, the storage has no watch and no timeout of it, and every other node keeps
  its data and its owner.
\<close>

theorem close_leaves_nothing:
  assumes "keeper_step\<^sup>*\<^sup>* (keeper_storage_new tick now0) ks"
    and "advance_zxid new_last_zxid ks = Inr ks0"
  shows "\<exists>rs ks'. processRequest now clock (ZkRequest xid w CloseRequest) s new_last_zxid ks = Some (Inr (rs, ks'))
           \<and> (s \<noteq> 0 \<longrightarrow> (\<forall>p n. tb_find (ks_container ks') p = Some n \<longrightarrow> owner n \<noteq> s))
           \<and> no_watch s ks' \<and> map_of (session_and_timeout ks') s = None
           \<and> kept_nodes (tb_find (ks_container ks)) (set (sets_at (ks_ephemerals ks) s)) (tb_find (ks_container ks'))"
proof -
  have inv: "ks_inv ks" using keeper_system.reachable_inv assms(1) by blast
  have ks0: "ks_container ks0 = ks_container ks" "ks_ephemerals ks0 = ks_ephemerals ks"
      "ks_watches ks0 = ks_watches ks" "list_watches ks0 = list_watches ks"
      "sessions_and_watchers ks0 = sessions_and_watchers ks"
    using assms(2) by (auto simp: advance_zxid_def split: option.splits if_splits)
  have "ks_inv (touch_session now s ks0)" using inv ks0 by (simp add: ks_inv_def)
  from close_session_correct [OF this, of s xid]
  show ?thesis using assms(2) ks0 by (simp add: processRequest_def) blast
qed

theorem close_leaves_nothing_witness:
  "\<exists>rs ks'. processRequest 2000 (\<lambda>_. 2000) (ZkRequest 3 False CloseRequest) 1 (Some 9) sample_keeper = Some (Inr (rs, ks'))
     \<and> tb_find (ks_container sample_keeper) ''/a/b'' \<noteq> None \<and> tb_find (ks_container ks') ''/a/b'' = None
     \<and> tb_find (ks_container ks') ''/a'' \<noteq> None"
proof -
  have "advance_zxid (Some 9) sample_keeper \<noteq> Inl LOGICAL_ERROR" by code_simp
  then obtain ks0 where a: "advance_zxid (Some 9) sample_keeper = Inr ks0"
    by (auto simp: advance_zxid_def split: if_splits)
  obtain rs ks' where p: "processRequest 2000 (\<lambda>_. 2000) (ZkRequest 3 False CloseRequest) 1 (Some 9) sample_keeper = Some (Inr (rs, ks'))"
      "kept_nodes (tb_find (ks_container sample_keeper)) (set (sets_at (ks_ephemerals sample_keeper) 1)) (tb_find (ks_container ks'))"
    using close_leaves_nothing [OF sample_keeper_reachable a] by blast
  have e: "sets_at (ks_ephemerals sample_keeper) 1 = [''/a/b'']" by code_simp
  have t: "tb_find (ks_container sample_keeper) ''/a/b'' \<noteq> None" "tb_find (ks_container sample_keeper) ''/a'' \<noteq> None"
    by code_simp+
  have "map_option owner (tb_find (ks_container ks') ''/a'') = map_option owner (tb_find (ks_container sample_keeper) ''/a'')"
    using p(2) e by (simp add: kept_nodes_def)
  then have "tb_find (ks_container ks') ''/a'' \<noteq> None" using t(2) by auto
  moreover have "tb_find (ks_container ks') ''/a/b'' = None" using p(2) e by (simp add: kept_nodes_def)
  ultimately show ?thesis using p(1) t(1) by blast
qed

end
