(* ===== verification/Keeper_Defects.thy ===== *)
theory Keeper_Defects
  imports Keeper_Requests
begin

text \<open>
  Places where a request of the Keeper tells its clients something that did not happen, or does
  something nobody asked for.  The first two are general statements with a concrete instance, the
  others evaluate the code on a small tree.
\<close>

section \<open>A failed multi request notifies watchers\<close>

text \<open>
  The error of a multi response stays \<open>ZOK\<close> when a sub-request fails (the protocol puts the
  errors into the sub-responses), and \<^verbatim>\<open>processRequest\<close> tests that error before it notifies.

  C34. When a multi request fails, nothing in the tree changes, and yet the watchers of every path it
  mentions are told that the path was created, deleted or changed, and lose their watch: the
  responses before the answer are exactly those of a successful request.
\<close>

theorem failed_multi_notifies:
  assumes "ks_inv ks" and "ks_zxid ks = z" and "concrete_requests requests = Inr qs"
    and "multi_ok clock z s 0 qs (ks_container ks, ks_ephemerals ks)"
    and "in_sequence clock z s 0 qs (ks_container ks, ks_ephemerals ks) = None"
  shows "\<exists>ws r ks'. processRequest now clock (ZkRequest xid False (MultiRequest requests)) s None ks
             = Some (Inr (ws @ [(s, r)], ks'))
           \<and> tb_find (ks_container ks') = tb_find (ks_container ks)
           \<and> (ws, ks_watches ks', list_watches ks') = watches_loop qs (ks_watches ks, list_watches ks)"
proof -
  let ?st = "(ks_container ks, ks_ephemerals ks)"
  have inv: "store_inv ?st" using assms(1) by (simp add: ks_inv_def)
  have "all_or_nothing [] (length qs) ?st (in_sequence clock z s 0 qs ?st) (multi_loop clock z s 0 qs [] [] ?st)"
    by (rule multi_loop_correct [OF inv assms(4) undoes_all_Nil])
  then obtain rs c e where ml: "multi_loop clock z s 0 qs [] [] ?st = Some (rs, c, e)" "same_store (c, e) ?st"
    using assms(5) by (auto simp: all_or_nothing_def)
  obtain ws wn lwn where w: "watches_loop qs (ks_watches ks, list_watches ks) = (ws, wn, lwn)"
    by (metis prod.exhaust)
  show ?thesis
    using ml w assms(2,3)
    by (simp add: processRequest_def advance_zxid_def run_request_def process_multi_def Let_def
        register_watch_def processWatches_def same_store_def)
qed

theorem failed_multi_notifies_witness:
  "\<exists>r ks'. processRequest 2000 (\<lambda>_. 2000) (ZkRequest 3 False (MultiRequest
       [ZkRequest 0 False (SetRequest ''/a'' ''z'' (- 1)), ZkRequest 0 False (CheckRequest ''/nowhere'' 0)])) 1 None sample_keeper
     = Some (Inr ([(2, watch_response ''/a'' CHANGED), (1, r)], ks'))
   \<and> tb_find (ks_container ks') = tb_find (ks_container sample_keeper)"
proof -
  let ?rqs = "[ZkRequest 0 False (SetRequest ''/a'' ''z'' (- 1)), ZkRequest 0 False (CheckRequest ''/nowhere'' 0)]"
  let ?qs = "[ConcreteSet ''/a'' ''z'' (- 1), ConcreteCheck ''/nowhere'' 0]"
  have z: "ks_zxid sample_keeper = 3" by code_simp
  have c: "concrete_requests ?rqs = Inr ?qs" by simp
  have m: "multi_ok (\<lambda>_. 2000) 3 1 0 ?qs (ks_container sample_keeper, ks_ephemerals sample_keeper)" by code_simp
  have i: "in_sequence (\<lambda>_. 2000) 3 1 0 ?qs (ks_container sample_keeper, ks_ephemerals sample_keeper) = None" by code_simp
  have w: "fst (watches_loop ?qs (ks_watches sample_keeper, list_watches sample_keeper)) = [(2, watch_response ''/a'' CHANGED)]"
    by code_simp
  show ?thesis
    using failed_multi_notifies [OF sample_keeper_inv z c m i, of 2000 3] w by (metis append_Cons append_Nil fst_conv)
qed

section \<open>A sequential node under a name that is taken\<close>

text \<open>
  \<^verbatim>\<open>KeeperStorageCreateRequest::process\<close> looks for \<^verbatim>\<open>request.path\<close>, not for the path with the number, and
  ignores what \<^verbatim>\<open>container.insert\<close> returns.

  C37. A sequential creation whose numbered name exists answers \<open>ZOK\<close> with that name; the node there
  is the old one, with its old data, and the parent counts a child that does not exist.  If the
  creation is part of a multi request that fails later, undoing it removes the old node.
\<close>

theorem sequential_name_taken:
  assumes "tb_inv c" and "tb_find c path = None" and "slash \<in> set path"
    and "tb_find c (parentPath path) = Some m" and "owner m = 0"
    and "q = name_created path True m" and "tb_find c q = Some n" and "parentPath q \<noteq> q"
    and "getBaseName q \<in> children m"
  shows "\<exists>c' u. process_create now zxid s path content al False True (c, e)
             = Some (response_ok (CreateResponse q), u, (c', e))
           \<and> tb_find c' q = Some n
           \<and> (\<exists>m'. tb_find c' (parentPath q) = Some m' \<and> children m' = children m
                  \<and> numChildren (stat_of m') = numChildren (stat_of m) + 1)
           \<and> (\<exists>c''. run_undo u (c', e) = Some (c'', e) \<and> tb_find c'' q = None)"
proof -
  have pq: "parentPath q = parentPath path" using assms(3,6) by (simp add: created_parent)
  obtain c1 where c1: "update_node (parentPath path) (child_added (getBaseName q)) c = Some c1" "tb_inv c1"
      "tb_find c1 = (tb_find c)(parentPath path \<mapsto> child_added (getBaseName q) m)"
    using update_node_Some [OF assms(1,4)] by blast
  let ?c' = "snd (tb_insert q (created_node_of now zxid s content False True) c1)"
  have q1: "tb_find c1 q = Some n" using c1(3) assms(7,8) pq by simp
  then have c': "tb_inv ?c'" "tb_find ?c' = tb_find c1"
    using kt.insert_inv [OF c1(2)] kt.insert_lookup [OF c1(2)] by simp_all
  have pr: "process_create now zxid s path content al False True (c, e)
      = Some (response_ok (CreateResponse q), UndoCreate s q False (parentPath path) (getBaseName q), (?c', e))"
    using c1(1) assms(2,4,5,6) tb_contains_find [OF assms(1), of path]
    by (simp add: process_create_def Let_def name_created_def)
  have er: "tb_inv (snd (tb_erase q ?c'))" "tb_find (snd (tb_erase q ?c')) = (tb_find c1)(q := None)"
    using kt.erase_inv [OF c'(1)] kt.erase_lookup [OF c'(1)] c'(2) by simp_all
  have "tb_find (snd (tb_erase q ?c')) (parentPath path) = Some (child_added (getBaseName q) m)"
    using er(2) c1(3) pq assms(8) by simp
  then obtain c'' where c'': "update_node (parentPath path) (child_added_undo (getBaseName q)) (snd (tb_erase q ?c')) = Some c''"
      "tb_find c'' q = None"
    using update_node_Some [OF er(1), of "parentPath path" _ "child_added_undo (getBaseName q)"] er(2) pq assms(8)
    by fastforce
  have "run_undo (UndoCreate s q False (parentPath path) (getBaseName q)) (?c', e) = Some (c'', e)"
    using c''(1) by (simp add: undo_create_def)
  moreover have "children (child_added (getBaseName q) m) = children m"
    using assms(9) by (simp add: child_added_def insert_absorb)
  moreover have "numChildren (stat_of (child_added (getBaseName q) m)) = numChildren (stat_of m) + 1"
    by (simp add: child_added_def)
  ultimately show ?thesis using pr q1 c' c1(3) c''(2) pq by auto
qed


text \<open>The node \<open>/q0000000001\<close> exists when the first sequential \<open>/q\<close> is created.\<close>

definition taken_keeper :: keeper_storage where
  "taken_keeper = the (serve 1 [(1, ZkRequest 1 False (CreateRequest ''/q0000000001'' ''mine'' [] False False))]
                         (keeper_storage_new 500 1000))"

lemma taken_keeper_tree: "ks_inv taken_keeper"
proof -
  let ?rqs = "[(1, ZkRequest 1 False (CreateRequest ''/q0000000001'' ''mine'' [] False False))]"
  have "serve 1 ?rqs (keeper_storage_new 500 1000) \<noteq> None" by code_simp
  then have "serve 1 ?rqs (keeper_storage_new 500 1000) = Some taken_keeper" unfolding taken_keeper_def by auto
  moreover have "serve_ok 1 ?rqs (keeper_storage_new 500 1000)" by code_simp
  ultimately show ?thesis using serve_steps keeper_system.reachable_inv by blast
qed

theorem sequential_name_taken_witness:
  "\<exists>c' u n m'. process_create 2000 2 2 ''/q'' ''yours'' [] False True (ks_container taken_keeper, [])
        = Some (response_ok (CreateResponse ''/q0000000001''), u, (c', []))
      \<and> tb_find c' ''/q0000000001'' = Some n \<and> data n = ''mine''
      \<and> tb_find c' ''/'' = Some m' \<and> card (children m') = 1 \<and> numChildren (stat_of m') = 2
      \<and> (\<exists>c''. run_undo u (c', []) = Some (c'', []) \<and> tb_find c'' ''/q0000000001'' = None)"
proof -
  let ?c = "ks_container taken_keeper"
  define m where "m = the (tb_find ?c ''/'')"
  define n where "n = the (tb_find ?c ''/q0000000001'')"
  have inv: "tb_inv ?c" using taken_keeper_tree by (simp add: ks_inv_def store_inv_def)
  have "tb_find ?c ''/'' \<noteq> None" "tb_find ?c ''/q0000000001'' \<noteq> None" by code_simp+
  then have mn: "tb_find ?c ''/'' = Some m" "tb_find ?c ''/q0000000001'' = Some n" by (auto simp: m_def n_def)
  have e: "tb_find ?c ''/q'' = None" "parentPath ''/q'' = ''/''" "parentPath ''/q0000000001'' = ''/''" by code_simp+
  have d: "owner m = 0" "name_created ''/q'' True m = ''/q0000000001''" "getBaseName ''/q0000000001'' \<in> children m"
    "card (children m) = 1" "numChildren (stat_of m) = 1" "data n = ''mine''"
    unfolding m_def n_def by code_simp+
  have m: "tb_find ?c (parentPath ''/q'') = Some m" using mn(1) e(2) by simp
  obtain c' u m' c'' where
      "process_create 2000 2 2 ''/q'' ''yours'' [] False True (?c, [])
        = Some (response_ok (CreateResponse ''/q0000000001''), u, (c', []))"
      "tb_find c' ''/q0000000001'' = Some n"
      "tb_find c' (parentPath ''/q0000000001'') = Some m'" "children m' = children m"
      "numChildren (stat_of m') = numChildren (stat_of m) + 1"
      "run_undo u (c', []) = Some (c'', [])" "tb_find c'' ''/q0000000001'' = None"
    using sequential_name_taken [OF inv e(1) _ m d(1) d(2) [symmetric] mn(2) _ d(3),
        of 2000 2 2 "''yours''" "[]" "[]"] e(3) by auto
  then show ?thesis using d e(3) by auto
qed

section \<open>The root, and the clock of a replica\<close>

text \<open>
  \<open>/\<close> is its own parent.  Removing it is not refused: the storage is left without a root, and
  every later creation is answered with \<open>ZNONODE\<close>.
\<close>

lemma root_can_be_removed:
  "\<exists>ks. serve 1 [(1, ZkRequest 1 False (RemoveRequest ''/'' (- 1)))] (keeper_storage_new 500 1000) = Some ks
      \<and> tb_find (ks_container ks) ''/'' = None
      \<and> (case process_create 1000 2 1 ''/a'' ''x'' [] False False (ks_container ks, []) of
           None \<Rightarrow> False | Some (r, u, st) \<Rightarrow> rs_error r = ZNONODE)"
proof -
  let ?s = "serve 1 [(1, ZkRequest 1 False (RemoveRequest ''/'' (- 1)))] (keeper_storage_new 500 1000)"
  have "?s \<noteq> None" by code_simp
  then obtain ks where ks: "?s = Some ks" by auto
  have "tb_find (ks_container (the ?s)) ''/'' = None"
    "case process_create 1000 2 1 ''/a'' ''x'' [] False False (ks_container (the ?s), []) of
       None \<Rightarrow> False | Some (r, u, st) \<Rightarrow> rs_error r = ZNONODE"
    by code_simp+
  then show ?thesis using ks by auto
qed

text \<open>
  Undoing a write to the root restores the node and then lowers its child version once more.
\<close>

lemma root_write_undo_drifts:
  "case process_set 1000 1 ''/'' ''x'' (- 1) keeper_start of
     None \<Rightarrow> False
   | Some (r, u, st1) \<Rightarrow>
       (case run_undo u st1 of
          None \<Rightarrow> False
        | Some st2 \<Rightarrow> map_option (\<lambda>n. cversion (stat_of n)) (tb_find (fst st2) ''/'') = Some (- 1))"
  by code_simp

text \<open>
  The creation time comes from the clock of the replica that applies the entry of the log: two
  replicas that apply the same entry differ in the node, and in what a read of it answers.
\<close>

lemma replicas_differ_in_time:
  "map_option (\<lambda>(r, u, c, e). map_option (\<lambda>n. ctime (stat_of n)) (tb_find c ''/a''))
     (process_create t 1 1 ''/a'' ''x'' [] False False keeper_start) = Some (Some t)"
  by (simp add: process_create_def keeper_start_def tb_contains_def tb_find_def tb_deref_def tb_insert_def tb_append_def
      tb_empty_def parentPath_def rfind_def node_new_def stat_zero_def update_node_def tb_updateValue_def
      created_node_of_def Let_def)

end
