(* ===== verification/Binary_IO.thy ===== *)
theory Binary_IO
  imports Daisy_Prelude
begin

text \<open>
  Binary input and output: the byte-level helpers of \<^verbatim>\<open>IO/ReadHelpers.h\<close>, \<^verbatim>\<open>IO/WriteHelpers.h\<close>,
  \<^verbatim>\<open>IO/VarInt.h\<close> and \<^verbatim>\<open>IO/ReadBuffer.h\<close> that the snapshots, the log and the wire protocol of Keeper are
  written with.  A buffer is the sequence of bytes that are left to read, across the blocks of the file
  or the socket; a writer returns the bytes it appends.  The target is little-endian.

  The locale \<open>binary_codec\<close> is the contract between a writer and a reader: reading what was written
  gives back the value and leaves the rest.  It is interpreted for each pair of functions below and in
  the theories of the formats.
\<close>

section \<open>Buffers\<close>

text \<open>
  The exceptions of readers: \<^verbatim>\<open>CANNOT_READ_ALL_DATA\<close>, \<^verbatim>\<open>ATTEMPT_TO_READ_AFTER_EOF\<close>, the
  \<^verbatim>\<open>Poco::Exception\<close> for a long string, \<^verbatim>\<open>UNKNOWN_FORMAT_VERSION\<close>, and the errors
  \<^verbatim>\<open>ZMARSHALLINGERROR\<close>, \<^verbatim>\<open>ZUNIMPLEMENTED\<close> and \<^verbatim>\<open>ZBADARGUMENTS\<close> of a
  \<^verbatim>\<open>Coordination::Exception\<close>.
\<close>

datatype bin_error =
    CannotReadAllData | ReadAfterEof | TooLargeStringSize | UnknownFormatVersion
  | MarshallingError | UnimplementedError | BadArgumentsError

type_synonym 'a reader = "string \<Rightarrow> (bin_error, 'a \<times> string) result"

definition readStrict :: "nat \<Rightarrow> string reader" where
  "readStrict n buf = (if n \<le> length buf then Inr (take n buf, drop n buf) else Inl CannotReadAllData)"

text \<open>
  \<^verbatim>\<open>ReadBuffer::read\<close> into a string that was resized to \<open>n\<close> zero bytes: bytes that are not there stay zero,
  and nobody looks at the number of bytes read.
\<close>

definition read_upto :: "nat \<Rightarrow> string reader" where
  "read_upto n buf = Inr (take n buf @ replicate (n - length buf) (char_of (0::nat)), drop n buf)"

section \<open>Integers\<close>

primrec le_bytes :: "nat \<Rightarrow> nat \<Rightarrow> string" where
  "le_bytes 0 v = []"
| "le_bytes (Suc n) v = char_of (v mod 256) # le_bytes n (v div 256)"

primrec le_value :: "string \<Rightarrow> nat" where
  "le_value [] = 0"
| "le_value (c # cs) = of_char c + 256 * le_value cs"

definition writeIntBinary :: "'a::len word \<Rightarrow> string" where
  "writeIntBinary x = le_bytes (LENGTH('a) div 8) (unat x)"

definition readIntBinary :: "'a::len word reader" where
  "readIntBinary buf =
     bind_result (readStrict (LENGTH('a) div 8) buf) (\<lambda>(bytes, buf). Inr (word_of_nat (le_value bytes), buf))"

text \<open>
  A \<^verbatim>\<open>bool\<close> is one byte; a byte that is not zero reads as true.
\<close>

definition writeBool :: "bool \<Rightarrow> string" where
  "writeBool b = writeIntBinary (if b then 1 else 0 :: 8 word)"

definition readBool :: "bool reader" where
  "readBool buf = bind_result (readIntBinary buf) (\<lambda>(x :: 8 word, buf). Inr (x \<noteq> 0, buf))"

text \<open>\<^verbatim>\<open>__builtin_bswap32\<close> and \<^verbatim>\<open>__builtin_bswap64\<close>.\<close>

definition bswap :: "'a::len word \<Rightarrow> 'a word" where
  "bswap x = word_of_nat (le_value (rev (le_bytes (LENGTH('a) div 8) (unat x))))"

section \<open>Sizes and strings\<close>

text \<open>
  \<^verbatim>\<open>writeVarUInt\<close> and \<^verbatim>\<open>readVarUInt\<close>: seven bits per byte, at most nine bytes, so that the highest bit of a
  64-bit number is lost.
\<close>

primrec write_var_uint :: "nat \<Rightarrow> nat \<Rightarrow> string" where
  "write_var_uint 0 x = []"
| "write_var_uint (Suc i) x =
     char_of (x mod 128 + (if x > 127 then 128 else 0)) #
     (if x div 128 = 0 then [] else write_var_uint i (x div 128))"

definition writeVarUInt :: "nat \<Rightarrow> string" where
  "writeVarUInt x = write_var_uint 9 x"

primrec read_var_uint :: "nat \<Rightarrow> nat reader" where
  "read_var_uint 0 buf = Inr (0, buf)"
| "read_var_uint (Suc i) buf =
     (case buf of
        [] \<Rightarrow> Inl ReadAfterEof
      | c # buf \<Rightarrow>
          let byte = of_char c :: nat in
          if byte < 128 then Inr (byte, buf)
          else bind_result (read_var_uint i buf) (\<lambda>(x, buf). Inr (byte mod 128 + 128 * x, buf)))"

definition readVarUInt :: "nat reader" where
  "readVarUInt buf = read_var_uint 9 buf"

abbreviation DEFAULT_MAX_STRING_SIZE :: nat where
  "DEFAULT_MAX_STRING_SIZE \<equiv> 2 ^ 30"

definition writeStringBinary :: "string \<Rightarrow> string" where
  "writeStringBinary s = writeVarUInt (length s) @ s"

definition readStringBinary :: "string reader" where
  "readStringBinary buf =
     bind_result (readVarUInt buf) (\<lambda>(size, buf).
       if size > DEFAULT_MAX_STRING_SIZE then Inl TooLargeStringSize else readStrict size buf)"

section \<open>Sequences\<close>

primrec read_n :: "'a reader \<Rightarrow> nat \<Rightarrow> 'a list reader" where
  "read_n dec 0 buf = Inr ([], buf)"
| "read_n dec (Suc n) buf =
     bind_result (dec buf) (\<lambda>(x, buf). bind_result (read_n dec n buf) (\<lambda>(xs, buf). Inr (x # xs, buf)))"

section \<open>The contract of a codec\<close>

named_theorems codec_laws \<open>reading what was written\<close>

locale binary_codec =
  fixes enc :: "'a \<Rightarrow> string" and dec :: "'a reader" and ok :: "'a \<Rightarrow> bool"
  assumes dec_enc: "ok x \<Longrightarrow> dec (enc x @ rest) = Inr (x, rest)"
begin

lemma read_n_enc:
  "list_all ok xs \<Longrightarrow> read_n dec (length xs) (concat (map enc xs) @ rest) = Inr (xs, rest)"
  by (induction xs) (simp_all add: dec_enc)

lemma enc_inj: "ok x \<Longrightarrow> ok y \<Longrightarrow> enc x = enc y \<Longrightarrow> x = y"
  using dec_enc [of x "[]"] dec_enc [of y "[]"] by simp

end

lemma length_le_bytes [simp]: "length (le_bytes n v) = n"
  by (induction n arbitrary: v) simp_all

lemma le_value_bytes: "v < 256 ^ n \<Longrightarrow> le_value (le_bytes n v) = v"
  by (induction n arbitrary: v) (simp_all add: less_mult_imp_div_less mult.commute)

lemma le_value_less: "le_value cs < 256 ^ length cs"
proof (induction cs)
  case (Cons c cs)
  then have "256 * le_value cs + 256 \<le> 256 * 256 ^ length cs" by simp
  moreover have "of_char c < (256 :: nat)"
    using mod_less_divisor [of 256 "of_char c :: nat"] by simp
  ultimately show ?case unfolding le_value.simps length_Cons power_Suc by linarith
qed simp

lemma le_bytes_value: "le_bytes (length cs) (le_value cs) = cs"
  by (induction cs) (simp_all add: of_char_mod_256)

lemma readStrict_append: "n = length bs \<Longrightarrow> readStrict n (bs @ rest) = Inr (bs, rest)"
  by (simp add: readStrict_def)

lemma unat_le_value:
  assumes "8 dvd LENGTH('a)" and "length bs = LENGTH('a) div 8"
  shows "unat (word_of_nat (le_value bs) :: 'a::len word) = le_value bs"
proof -
  have "(256::nat) ^ (LENGTH('a) div 8) = 2 ^ (8 * (LENGTH('a) div 8))"
    by (simp add: power_mult)
  with assms le_value_less [of bs] have "le_value bs < 2 ^ LENGTH('a)" by simp
  then show ?thesis by (simp add: unat_of_nat take_bit_nat_eq_self)
qed

lemma unat_less_bytes:
  assumes "8 dvd LENGTH('a)"
  shows "unat (x :: 'a::len word) < 256 ^ (LENGTH('a) div 8)"
proof -
  have "(256::nat) ^ (LENGTH('a) div 8) = 2 ^ (8 * (LENGTH('a) div 8))"
    by (simp add: power_mult)
  with assms show ?thesis using unsigned_less [of x] by simp
qed

lemma readIntBinary_write:
  "8 dvd LENGTH('a) \<Longrightarrow> readIntBinary (writeIntBinary (x :: 'a::len word) @ rest) = Inr (x, rest)"
  by (simp add: readIntBinary_def writeIntBinary_def readStrict_append le_value_bytes unat_less_bytes)

text \<open>Evaluation uses integers, which are binary numbers there.\<close>

primrec le_bytes_int :: "nat \<Rightarrow> int \<Rightarrow> string" where
  "le_bytes_int 0 v = []"
| "le_bytes_int (Suc n) v = char_of (v mod 256) # le_bytes_int n (v div 256)"

primrec le_value_int :: "string \<Rightarrow> int" where
  "le_value_int [] = 0"
| "le_value_int (c # cs) = of_char c + 256 * le_value_int cs"

lemma char_of_int_nat: "char_of (int v) = char_of v"
  unfolding char_of_eq_iff using of_nat_of_char [of "char_of v", where ?'a = int]
  by (simp add: take_bit_eq_mod zmod_int)

lemma le_bytes_int: "le_bytes_int n (int v) = le_bytes n v"
proof (induction n arbitrary: v)
  case (Suc n)
  have "int v mod 256 = int (v mod 256)" "int v div 256 = int (v div 256)" by (simp_all add: zmod_int zdiv_int)
  then show ?case using Suc by (simp only: le_bytes_int.simps le_bytes.simps char_of_int_nat)
qed simp

lemma le_value_int: "le_value_int cs = int (le_value cs)"
  by (induction cs) (simp_all add: of_nat_of_char)

lemma writeIntBinary_code [code]: "writeIntBinary (x :: 'a::len word) = le_bytes_int (LENGTH('a) div 8) (uint x)"
  using le_bytes_int [of _ "unat x"] by (simp add: writeIntBinary_def)

lemma readIntBinary_code [code]:
  "(readIntBinary :: 'a::len word reader) buf =
     bind_result (readStrict (LENGTH('a) div 8) buf) (\<lambda>(bytes, buf). Inr (word_of_int (le_value_int bytes), buf))"
  by (simp add: readIntBinary_def le_value_int)

lemma bswap_code [code]:
  "bswap (x :: 'a::len word) = word_of_int (le_value_int (rev (le_bytes_int (LENGTH('a) div 8) (uint x))))"
  using le_bytes_int [of _ "unat x"] by (simp add: bswap_def le_value_int)

lemma bswap_bswap:
  assumes "8 dvd LENGTH('a)"
  shows "bswap (bswap (x :: 'a::len word)) = x"
proof -
  let ?n = "LENGTH('a) div 8"
  have "le_bytes ?n (unat (bswap x)) = rev (le_bytes ?n (unat x))"
    using le_bytes_value [of "rev (le_bytes ?n (unat x))"]
    by (simp add: bswap_def unat_le_value assms)
  then show ?thesis
    by (simp add: bswap_def [of "bswap x"] le_value_bytes unat_less_bytes assms)
qed

interpretation int8: binary_codec writeIntBinary "readIntBinary :: 8 word reader" "\<lambda>_. True"
  by unfold_locales (simp add: readIntBinary_write)

interpretation int32: binary_codec writeIntBinary "readIntBinary :: 32 word reader" "\<lambda>_. True"
  by unfold_locales (simp add: readIntBinary_write)

interpretation int64: binary_codec writeIntBinary "readIntBinary :: 64 word reader" "\<lambda>_. True"
  by unfold_locales (simp add: readIntBinary_write)

interpretation boolean: binary_codec writeBool readBool "\<lambda>_. True"
  by unfold_locales (simp add: writeBool_def readBool_def int8.dec_enc)

lemma read_var_uint_write:
  "x < 128 ^ i \<Longrightarrow> 0 < i \<Longrightarrow> read_var_uint i (write_var_uint i x @ rest) = Inr (x, rest)"
proof (induction i arbitrary: x)
  case (Suc i)
  show ?case
  proof (cases "x < 128")
    case False
    then have i: "0 < i" using Suc.prems by (cases i) simp_all
    have "x div 128 < 128 ^ i"
      using Suc.prems by (simp add: less_mult_imp_div_less mult.commute)
    moreover have "x div 128 \<noteq> 0" using False by simp
    moreover have "\<not> x mod 128 + 128 < 128" "(x mod 128 + 128) mod 256 = x mod 128 + 128" by simp_all
    ultimately show ?thesis using Suc.IH [of "x div 128"] i False by (simp add: Let_def)
  qed simp
qed simp

interpretation varuint: binary_codec writeVarUInt readVarUInt "\<lambda>x. x < 2 ^ 63"
  by unfold_locales (simp add: writeVarUInt_def readVarUInt_def read_var_uint_write)

interpretation str_bin: binary_codec writeStringBinary readStringBinary
  "\<lambda>s. length s \<le> DEFAULT_MAX_STRING_SIZE"
proof
  fix s rest :: string
  assume s: "length s \<le> DEFAULT_MAX_STRING_SIZE"
  then have "length s < 2 ^ 63" by simp
  with s show "readStringBinary (writeStringBinary s @ rest) = Inr (s, rest)"
    by (simp add: readStringBinary_def writeStringBinary_def varuint.dec_enc readStrict_append
        del: power_numeral)
qed

lemmas bin_dec_enc [codec_laws] =
  int8.dec_enc int32.dec_enc int64.dec_enc boolean.dec_enc varuint.dec_enc str_bin.dec_enc

text \<open>The 64th bit of a size does not survive the nine bytes.\<close>

lemma var_uint_high_bit: "readVarUInt (writeVarUInt (2 ^ 63)) = Inr (0, [])"
proof -
  have nine: "9 = Suc (Suc (Suc (Suc (Suc (Suc (Suc (Suc (Suc 0))))))))" by simp
  show ?thesis unfolding writeVarUInt_def readVarUInt_def nine by simp
qed

section \<open>Readers consume\<close>

text \<open>What a reader leaves is at most \<open>n\<close> bytes long.\<close>

definition leaves :: "nat \<Rightarrow> (bin_error, 'a \<times> string) result \<Rightarrow> bool" where
  "leaves n r \<longleftrightarrow> (\<forall>x rest. r = Inr (x, rest) \<longrightarrow> length rest \<le> n)"

lemma leavesD: "leaves n r \<Longrightarrow> r = Inr (x, rest) \<Longrightarrow> length rest \<le> n"
  unfolding leaves_def by blast

named_theorems reader_leaves \<open>readers never lengthen the buffer\<close>

lemma leaves_bind [reader_leaves]:
  assumes "leaves n r" and "\<And>x buf. length buf \<le> n \<Longrightarrow> leaves n (f x buf)"
  shows "leaves n (bind_result r (\<lambda>(x, buf). f x buf))"
proof (cases r)
  case (Inr y)
  then obtain x buf where "r = Inr (x, buf)" by (cases y) simp
  with assms show ?thesis by (simp add: leavesD)
qed (simp add: leaves_def)

lemma leaves_return [reader_leaves]: "length buf \<le> n \<Longrightarrow> leaves n (Inr (x, buf))" "leaves n (Inl e)"
  by (simp_all add: leaves_def)

lemma leaves_if [reader_leaves]: "leaves n r \<Longrightarrow> leaves n q \<Longrightarrow> leaves n (if b then r else q)"
  by simp

lemma leaves_readInt [reader_leaves]: "length buf \<le> n \<Longrightarrow> leaves n (readIntBinary buf)"
  by (simp add: leaves_def readIntBinary_def readStrict_def le_diff_conv trans_le_add1)

lemma leaves_strict [reader_leaves]: "length buf \<le> n \<Longrightarrow> leaves n (readStrict k buf)"
  by (simp add: leaves_def readStrict_def le_diff_conv trans_le_add1)

lemma leaves_bool [reader_leaves]: "length buf \<le> n \<Longrightarrow> leaves n (readBool buf)"
  unfolding readBool_def by (intro reader_leaves)

lemma leaves_upto [reader_leaves]: "length buf \<le> n \<Longrightarrow> leaves n (read_upto k buf)"
  by (simp add: leaves_def read_upto_def le_diff_conv trans_le_add1)

lemma leaves_read_n [reader_leaves]:
  "(\<And>buf. length buf \<le> n \<Longrightarrow> leaves n (dec buf)) \<Longrightarrow> length buf \<le> n \<Longrightarrow> leaves n (read_n dec k buf)"
  by (induction k arbitrary: buf) (simp_all add: reader_leaves)

end
