(* ===== verification/Keeper_Snapshot.thy ===== *)
theory Keeper_Snapshot
  imports Binary_IO Keeper_Requests
begin

text \<open>
  Snapshots of Keeper (\<^verbatim>\<open>Coordination/KeeperSnapshotManager.{h,cpp}\<close>): what a snapshot captures, how it is
  serialized while requests go on, and how a storage is built from it.  The metadata of a snapshot is
  a class of NuRaft: its serialization, its deserialization and its log index are arguments, and what a
  theorem needs of them is a hypothesis.

  A file holds the nodes without their children; the reader puts every node into its parent.
\<close>

section \<open>The format of a node\<close>

definition writeAcl :: "acl \<Rightarrow> string" where
  "writeAcl a = writeIntBinary (permissions a) @ writeStringBinary (scheme_name a) @ writeStringBinary (acl_id a)"

definition readAcl :: "acl reader" where
  "readAcl buf =
     bind_result (readIntBinary buf) (\<lambda>(perms, buf).
     bind_result (readStringBinary buf) (\<lambda>(sch, buf).
     bind_result (readStringBinary buf) (\<lambda>(ident, buf).
       Inr (\<lparr>permissions = perms, scheme_name = sch, acl_id = ident\<rparr>, buf))))"

definition writeStat :: "stat \<Rightarrow> string" where
  "writeStat s =
     writeIntBinary (czxid s) @ writeIntBinary (mzxid s) @ writeIntBinary (ctime s) @ writeIntBinary (mtime s) @
     writeIntBinary (version s) @ writeIntBinary (cversion s) @ writeIntBinary (aversion s) @
     writeIntBinary (ephemeralOwner s) @ writeIntBinary (dataLength s) @ writeIntBinary (numChildren s) @
     writeIntBinary (pzxid s)"

definition readStat :: "stat reader" where
  "readStat buf =
     bind_result (readIntBinary buf) (\<lambda>(cz, buf). bind_result (readIntBinary buf) (\<lambda>(mz, buf).
     bind_result (readIntBinary buf) (\<lambda>(ct, buf). bind_result (readIntBinary buf) (\<lambda>(mt, buf).
     bind_result (readIntBinary buf) (\<lambda>(v, buf). bind_result (readIntBinary buf) (\<lambda>(cv, buf).
     bind_result (readIntBinary buf) (\<lambda>(av, buf). bind_result (readIntBinary buf) (\<lambda>(eo, buf).
     bind_result (readIntBinary buf) (\<lambda>(dl, buf). bind_result (readIntBinary buf) (\<lambda>(nc, buf).
     bind_result (readIntBinary buf) (\<lambda>(pz, buf).
       Inr (\<lparr>czxid = cz, mzxid = mz, ctime = ct, mtime = mt, version = v, cversion = cv, aversion = av,
             ephemeralOwner = eo, dataLength = dl, numChildren = nc, pzxid = pz\<rparr>, buf))))))))))))"

abbreviation write_size :: "nat \<Rightarrow> string" where
  "write_size n \<equiv> writeIntBinary (word_of_nat n :: 64 word)"

definition read_size :: "nat reader" where
  "read_size buf = bind_result (readIntBinary buf) (\<lambda>(n :: 64 word, buf). Inr (unat n, buf))"

definition writeNode :: "node \<Rightarrow> string" where
  "writeNode n =
     writeStringBinary (data n) @ write_size (length (node_acls n)) @ concat (map writeAcl (node_acls n)) @
     writeBool (is_sequental n) @ writeStat (stat_of n) @ writeIntBinary (seq_num n)"

definition readNode :: "node reader" where
  "readNode buf =
     bind_result (readStringBinary buf) (\<lambda>(content, buf).
     bind_result (read_size buf) (\<lambda>(acls_size, buf).
     bind_result (read_n readAcl acls_size buf) (\<lambda>(al, buf).
     bind_result (readBool buf) (\<lambda>(sequential, buf).
     bind_result (readStat buf) (\<lambda>(st, buf).
     bind_result (readIntBinary buf) (\<lambda>(seq, buf).
       Inr (\<lparr>data = content, node_acls = al, is_sequental = sequential, stat_of = st, seq_num = seq, children = {}\<rparr>, buf)))))))"

section \<open>A snapshot\<close>

record 'm keeper_snapshot =
  snapshot_meta :: 'm
  snap_session_id :: i64
  snapshot_container_size :: nat
  snap_session_and_timeout :: "(session \<times> i64) list"

text \<open>The constructor switches the table to snapshot mode, the destructor switches it back.\<close>

definition take_snapshot :: "'m \<Rightarrow> keeper_storage \<Rightarrow> 'm keeper_snapshot \<times> keeper_storage" where
  "take_snapshot meta ks =
     (let c = tb_enableSnapshotMode (ks_container ks) in
      (\<lparr>snapshot_meta = meta, snap_session_id = session_id_counter ks, snapshot_container_size = tb_snapshotSize c,
        snap_session_and_timeout = session_and_timeout ks\<rparr>,
       ks\<lparr>ks_container := c\<rparr>))"

definition drop_snapshot :: "keeper_storage \<Rightarrow> keeper_storage" where
  "drop_snapshot ks = ks\<lparr>ks_container := tb_disableSnapshotMode (ks_container ks)\<rparr>"

fun serialize_nodes :: "64 word \<Rightarrow> (string \<times> node) list \<Rightarrow> (keeper_exception, string) result" where
  "serialize_nodes last_idx [] = Inr []"
| "serialize_nodes last_idx ((path, n) # entries) =
     (if mzxid (stat_of n) > last_idx then Inl LOGICAL_ERROR
      else bind_result (serialize_nodes last_idx entries) (\<lambda>out. Inr (writeStringBinary path @ writeNode n @ out)))"

definition write_session :: "session \<times> i64 \<Rightarrow> string" where
  "write_session st = writeIntBinary (fst st) @ writeIntBinary (snd st)"

definition read_session :: "(session \<times> i64) reader" where
  "read_session buf =
     bind_result (readIntBinary buf) (\<lambda>(s, buf). bind_result (readIntBinary buf) (\<lambda>(t, buf). Inr ((s, t), buf)))"

abbreviation SNAPSHOT_V0 :: "8 word" where "SNAPSHOT_V0 \<equiv> 0"

definition serializeSnapshotMetadata :: "('m \<Rightarrow> string) \<Rightarrow> 'm \<Rightarrow> string" where
  "serializeSnapshotMetadata meta_ser meta = writeVarUInt (length (meta_ser meta)) @ meta_ser meta"

definition deserializeSnapshotMetadata :: "(string \<Rightarrow> 'm) \<Rightarrow> 'm reader" where
  "deserializeSnapshotMetadata meta_deser buf =
     bind_result (readVarUInt buf) (\<lambda>(data_size, buf).
     bind_result (readStrict data_size buf) (\<lambda>(bytes, buf). Inr (meta_deser bytes, buf)))"

definition serialize_snapshot ::
  "('m \<Rightarrow> string) \<Rightarrow> ('m \<Rightarrow> 64 word) \<Rightarrow> 'm keeper_snapshot \<Rightarrow> container \<Rightarrow> (keeper_exception, string) result" where
  "serialize_snapshot meta_ser get_last_log_idx sn c =
     bind_result (serialize_nodes (get_last_log_idx (snapshot_meta sn)) (tb_prefix (snapshot_container_size sn) c)) (\<lambda>nodes.
       Inr (writeIntBinary SNAPSHOT_V0 @ serializeSnapshotMetadata meta_ser (snapshot_meta sn) @
            writeIntBinary (snap_session_id sn) @ write_size (snapshot_container_size sn) @ nodes @
            write_size (length (snap_session_and_timeout sn)) @
            concat (map write_session (snap_session_and_timeout sn))))"

section \<open>Loading a snapshot\<close>

primrec read_nodes :: "nat \<Rightarrow> store \<Rightarrow> store reader" where
  "read_nodes 0 st buf = Inr (st, buf)"
| "read_nodes (Suc i) st buf =
     bind_result (readStringBinary buf) (\<lambda>(path, buf).
     bind_result (readNode buf) (\<lambda>(n, buf).
       read_nodes i
         (tb_insertOrReplace path n (fst st),
          if ephemeralOwner (stat_of n) \<noteq> 0 then sets_emplace (ephemeralOwner (stat_of n)) path (snd st) else snd st)
         buf))"

text \<open>The loop over the container that fills in the children; a parent that does not exist is undefined behaviour.\<close>

definition add_child :: "string \<Rightarrow> node \<Rightarrow> node" where
  "add_child path value = value\<lparr>children := insert (getBaseName path) (children value)\<rparr>"

fun link_children :: "string list \<Rightarrow> container \<Rightarrow> container option" where
  "link_children [] c = Some c"
| "link_children (path # paths) c =
     (if path \<noteq> [slash] then
        (case update_node (parentPath path) (add_child path) c of None \<Rightarrow> None | Some c' \<Rightarrow> link_children paths c')
      else link_children paths c)"

definition container_keys :: "container \<Rightarrow> string list" where
  "container_keys c = map (\<lambda>(i, e). ln_key e) (tb_list c)"

definition deserialize_snapshot ::
  "(string \<Rightarrow> 'm) \<Rightarrow> ('m \<Rightarrow> 64 word) \<Rightarrow> int \<Rightarrow> keeper_storage \<Rightarrow> string \<Rightarrow> (bin_error, 'm \<times> keeper_storage) result option" where
  "deserialize_snapshot meta_deser get_last_log_idx now ks buf =
     (case bind_result (readIntBinary buf) (\<lambda>(ver :: 8 word, buf).
             if ver > SNAPSHOT_V0 then Inl UnknownFormatVersion
             else
               bind_result (deserializeSnapshotMetadata meta_deser buf) (\<lambda>(meta, buf).
               bind_result (readIntBinary buf) (\<lambda>(sid, buf).
               bind_result (read_size buf) (\<lambda>(size, buf).
               bind_result (read_nodes size (ks_container ks, ks_ephemerals ks) buf) (\<lambda>(st, buf).
                 Inr ((meta, sid, st), buf)))))) of
        Inl e \<Rightarrow> Some (Inl e)
      | Inr ((meta, sid, c, e), buf) \<Rightarrow>
          (case link_children (container_keys c) c of
             None \<Rightarrow> None
           | Some c' \<Rightarrow>
               Some (bind_result (read_size buf) (\<lambda>(size, buf).
                     bind_result (read_n read_session size buf) (\<lambda>(sessions, buf).
                       Inr (meta,
                            fold (\<lambda>(s, t). addSessionID now s t) sessions
                              (ks\<lparr>ks_zxid := get_last_log_idx meta, session_id_counter := sid,
                                  ks_container := c', ks_ephemerals := e\<rparr>)))))))"

section \<open>Codecs\<close>

text \<open>The limits of the format, written over \<^typ>\<open>int\<close>.\<close>

abbreviation fits_string :: "string \<Rightarrow> bool" where
  "fits_string s \<equiv> int (length s) \<le> 2 ^ 30"

abbreviation fits_size :: "nat \<Rightarrow> bool" where
  "fits_size n \<equiv> int n < 2 ^ 64"

definition acl_fits :: "acl \<Rightarrow> bool" where
  "acl_fits a \<longleftrightarrow> fits_string (scheme_name a) \<and> fits_string (acl_id a)"

definition node_fits :: "node \<Rightarrow> bool" where
  "node_fits n \<longleftrightarrow> fits_string (data n) \<and> fits_size (length (node_acls n)) \<and> list_all acl_fits (node_acls n)"

interpretation acl_bin: binary_codec writeAcl readAcl acl_fits
  by unfold_locales (simp add: readAcl_def writeAcl_def acl_fits_def codec_laws)

interpretation stat_bin: binary_codec writeStat readStat "\<lambda>_. True"
  by unfold_locales (simp add: readStat_def writeStat_def codec_laws)

interpretation session_bin: binary_codec write_session read_session "\<lambda>_. True"
  by unfold_locales (simp add: read_session_def write_session_def codec_laws)

interpretation size_bin: binary_codec write_size read_size fits_size
  by unfold_locales (simp add: read_size_def codec_laws unat_of_nat take_bit_nat_eq_self)

lemmas snapshot_laws [codec_laws] = acl_bin.read_n_enc stat_bin.dec_enc session_bin.dec_enc size_bin.dec_enc

interpretation node_bin: binary_codec writeNode readNode "\<lambda>n. node_fits n \<and> children n = {}"
  by unfold_locales (simp add: readNode_def writeNode_def node_fits_def codec_laws)

definition bare :: "node \<Rightarrow> node" where
  "bare n = n\<lparr>children := {}\<rparr>"

lemma bare_simps [simp]:
  "writeNode (bare n) = writeNode n" "node_fits (bare n) = node_fits n" "children (bare n) = {}"
  "stat_of (bare n) = stat_of n"
  by (simp_all add: bare_def writeNode_def node_fits_def)

lemma readNode_write [codec_laws]: "node_fits n \<Longrightarrow> readNode (writeNode n @ rest) = Inr (bare n, rest)"
  using node_bin.dec_enc [of "bare n" rest] by simp

section \<open>Reading the nodes back\<close>

abbreviation write_entry :: "string \<times> node \<Rightarrow> string" where
  "write_entry \<equiv> \<lambda>(path, n). writeStringBinary path @ writeNode n"

definition entry_fits :: "string \<times> node \<Rightarrow> bool" where
  "entry_fits pn \<longleftrightarrow> fits_string (fst pn) \<and> node_fits (snd pn)"

lemma serialize_nodes_Inr:
  "list_all (\<lambda>pn. mzxid (stat_of (snd pn)) \<le> last_idx) entries \<Longrightarrow>
     serialize_nodes last_idx entries = Inr (concat (map write_entry entries))"
  by (induction last_idx entries rule: serialize_nodes.induct) (simp_all add: not_less)

lemma serialize_nodes_Inl:
  "\<not> list_all (\<lambda>pn. mzxid (stat_of (snd pn)) \<le> last_idx) entries \<Longrightarrow>
     serialize_nodes last_idx entries = Inl LOGICAL_ERROR"
  by (induction last_idx entries rule: serialize_nodes.induct) (auto simp: not_less)

definition load_entry :: "string \<times> node \<Rightarrow> store \<Rightarrow> store" where
  "load_entry pn st =
     (tb_insertOrReplace (fst pn) (bare (snd pn)) (fst st),
      if owner (snd pn) \<noteq> 0 then sets_emplace (owner (snd pn)) (fst pn) (snd st) else snd st)"

lemma read_nodes_write:
  "list_all entry_fits entries \<Longrightarrow>
     read_nodes (length entries) st (concat (map write_entry entries) @ rest) = Inr (fold load_entry entries st, rest)"
proof (induction entries arbitrary: st)
  case (Cons pn entries)
  then have pn: "fits_string (fst pn)" "node_fits (snd pn)"
    by (simp_all add: entry_fits_def)
  obtain path n where "pn = (path, n)" by (rule prod.exhaust)
  with pn Cons show ?case
    by (simp add: codec_laws load_entry_def)
qed simp

definition loaded :: "store \<Rightarrow> (string \<times> node) list \<Rightarrow> store \<Rightarrow> bool" where
  "loaded st entries st' \<longleftrightarrow>
     tb_inv (fst st') \<and> tb_clean (fst st') \<and> \<not> snapshot_mode (fst st') \<and> eph_distinct (snd st')
     \<and> tb_find (fst st') = tb_find (fst st) ++ (map_option bare \<circ> map_of entries)
     \<and> (\<forall>s. set (sets_at (snd st') s) =
          set (sets_at (snd st) s) \<union> {path. \<exists>n. (path, n) \<in> set entries \<and> owner n \<noteq> 0 \<and> owner n = s})"

lemma load_entries:
  assumes "tb_inv (fst st)" and "tb_clean (fst st)" and "\<not> snapshot_mode (fst st)" and "eph_distinct (snd st)"
    and "distinct (map fst entries)"
  shows "loaded st entries (fold load_entry entries st)"
  using assms
proof (induction entries arbitrary: st)
  case Nil
  have "tb_find (fst st) ++ (map_option bare \<circ> map_of []) = tb_find (fst st)"
    by (rule ext) (simp add: map_add_def)
  with Nil show ?case by (simp add: loaded_def)
next
  case (Cons pn entries)
  obtain p n where pn: "pn = (p, n)" by (rule prod.exhaust)
  let ?st = "load_entry pn st"
  have c: "tb_inv (fst ?st)" "tb_find (fst ?st) = (tb_find (fst st))(p \<mapsto> bare n)"
    using tb_insertOrReplace_find [OF Cons.prems(1)] by (simp_all add: load_entry_def pn)
  have m: "\<not> snapshot_mode (fst ?st) \<and> tb_clean (fst ?st)"
    using tb_apply_clean [OF Cons.prems(3,2), of "TbReplace p (bare n)"] by (simp add: load_entry_def pn)
  have e: "eph_distinct (snd ?st)" "\<And>s. set (sets_at (snd ?st) s) = set (sets_at (snd st) s) \<union> {q. q = p \<and> owner n \<noteq> 0 \<and> owner n = s}"
    using Cons.prems(4) by (auto simp: load_entry_def pn sets_at_emplace)
  have ld: "loaded ?st entries (fold load_entry entries ?st)"
    using Cons.IH [of ?st] c(1) m e(1) Cons.prems(5) by simp
  have "p \<notin> fst ` set entries" using Cons.prems(5) pn by simp
  then have "map_of entries p = None" by (simp add: map_of_eq_None_iff)
  then have "tb_find (fst ?st) ++ (map_option bare \<circ> map_of entries) = tb_find (fst st) ++ (map_option bare \<circ> map_of (pn # entries))"
    unfolding c(2) unfolding pn by (intro ext) (simp add: map_add_def split: option.split)
  moreover have "set (sets_at (snd ?st) s) \<union> {path. \<exists>n. (path, n) \<in> set entries \<and> owner n \<noteq> 0 \<and> owner n = s}
      = set (sets_at (snd st) s) \<union> {path. \<exists>n. (path, n) \<in> set (pn # entries) \<and> owner n \<noteq> 0 \<and> owner n = s}" for s
    unfolding e(2) unfolding pn by auto
  ultimately show ?case using ld by (simp only: loaded_def fold_simps comp_apply) simp
qed

section \<open>Putting the children back\<close>

definition linked :: "string set \<Rightarrow> string \<Rightarrow> string set" where
  "linked paths p = {getBaseName q |q. q \<in> paths \<and> q \<noteq> [slash] \<and> parentPath q = p}"

definition with_linked :: "string set \<Rightarrow> forest \<Rightarrow> forest" where
  "with_linked paths T = (\<lambda>p. map_option (\<lambda>n. n\<lparr>children := children n \<union> linked paths p\<rparr>) (T p))"

lemma link_children_ok:
  assumes "tb_inv c" and "\<And>q. q \<in> set paths \<Longrightarrow> q \<noteq> [slash] \<Longrightarrow> tb_find c (parentPath q) \<noteq> None"
  shows "\<exists>c'. link_children paths c = Some c' \<and> tb_inv c' \<and> tb_find c' = with_linked (set paths) (tb_find c)"
  using assms
proof (induction paths arbitrary: c)
  case Nil
  have "with_linked {} T = T" for T
    by (rule ext) (simp add: with_linked_def linked_def option.map_ident)
  with Nil show ?case by simp
next
  case (Cons q paths)
  show ?case
  proof (cases "q = [slash]")
    case True
    have "linked (set (q # paths)) = linked (set paths)" by (intro ext) (auto simp: linked_def True)
    then show ?thesis using Cons True by (simp add: with_linked_def)
  next
    case False
    then obtain m where m: "tb_find c (parentPath q) = Some m" using Cons.prems(2) [of q] by auto
    obtain c1 where c1: "update_node (parentPath q) (add_child q) c = Some c1" "tb_inv c1"
        "tb_find c1 = (tb_find c)(parentPath q \<mapsto> add_child q m)"
      using update_node_Some [OF Cons.prems(1) m] by blast
    have "\<exists>c'. link_children paths c1 = Some c' \<and> tb_inv c' \<and> tb_find c' = with_linked (set paths) (tb_find c1)"
    proof (rule Cons.IH [OF c1(2)])
      fix x
      assume "x \<in> set paths" "x \<noteq> [slash]"
      then have "tb_find c (parentPath x) \<noteq> None" using Cons.prems(2) [of x] by simp
      then show "tb_find c1 (parentPath x) \<noteq> None" by (simp only: c1(3) fun_upd_apply) simp
    qed
    moreover have "with_linked (set paths) (tb_find c1) = with_linked (set (q # paths)) (tb_find c)"
    proof
      fix p
      have l: "linked (insert q (set paths)) p = (if p = parentPath q then insert (getBaseName q) (linked (set paths) p) else linked (set paths) p)"
        using False by (auto simp: linked_def)
      show "with_linked (set paths) (tb_find c1) p = with_linked (set (q # paths)) (tb_find c) p"
        using m by (simp add: with_linked_def l c1(3) add_child_def)
    qed
    ultimately show ?thesis using False c1(1) by simp
  qed
qed

lemma linked_children:
  assumes "tree T" and "T p = Some n"
  shows "linked (dom T) p = children n"
proof
  show "linked (dom T) p \<subseteq> children n"
    using assms(2) treeD(3) [OF assms(1)] by (fastforce simp: linked_def listed_def)
  show "children n \<subseteq> linked (dom T) p"
    using treeD(4) [OF assms] by (fastforce simp: linked_def child_exists_def)
qed

lemma container_keys_dom: "tb_inv c \<Longrightarrow> tb_clean c \<Longrightarrow> set (container_keys c) = dom (tb_find c)"
proof -
  assume c: "tb_inv c" "tb_clean c"
  have "set (container_keys c) = fst ` set (tb_entries c)"
    by (simp add: container_keys_def tb_entries_def image_image case_prod_beta)
  also have "\<dots> = dom (map_of (tb_entries c))" by (simp add: dom_map_of_conv_image_fst)
  finally show ?thesis using tb_clean_entries(2) [OF c] by simp
qed

section \<open>A snapshot restores the storage\<close>

definition storage_fits :: "keeper_storage \<Rightarrow> bool" where
  "storage_fits ks \<longleftrightarrow> list_all entry_fits (tb_entries (ks_container ks))
     \<and> fits_size (length (tb_list (ks_container ks))) \<and> fits_size (length (session_and_timeout ks))"

text \<open>No node is newer than the log index of the snapshot, as \<^verbatim>\<open>serialize\<close> checks.\<close>

definition nodes_upto :: "64 word \<Rightarrow> keeper_storage \<Rightarrow> bool" where
  "nodes_upto last_idx ks \<longleftrightarrow> list_all (\<lambda>pn. mzxid (stat_of (snd pn)) \<le> last_idx) (tb_entries (ks_container ks))"

lemma snapshot_prefix:
  assumes "tb_inv t" and "tb_run ops (tb_enableSnapshotMode t) = Some u"
  shows "tb_prefix (tb_snapshotSize t) u = tb_entries t"
proof -
  have "\<exists>es. tb_entries u = tb_entries t @ es"
    using tb_run_snapshot [OF assms(2)] assms(1) by simp
  then obtain es where "tb_entries u = tb_entries t @ es" by blast
  then show ?thesis by (simp add: tb_prefix_entries tb_snapshotSize_def) (simp add: tb_entries_def)
qed

abbreviation add_sessions :: "int \<Rightarrow> (session \<times> i64) list \<Rightarrow> keeper_storage \<Rightarrow> keeper_storage" where
  "add_sessions now \<equiv> fold (\<lambda>(s, t). addSessionID now s t)"

lemma add_sessions_fields [simp]:
  "ks_container (add_sessions now sessions ks) = ks_container ks"
  "ks_ephemerals (add_sessions now sessions ks) = ks_ephemerals ks"
  "ks_zxid (add_sessions now sessions ks) = ks_zxid ks"
  "session_id_counter (add_sessions now sessions ks) = session_id_counter ks"
  "ks_watches (add_sessions now sessions ks) = ks_watches ks"
  "list_watches (add_sessions now sessions ks) = list_watches ks"
  "sessions_and_watchers (add_sessions now sessions ks) = sessions_and_watchers ks"
  by (induction sessions arbitrary: ks) (simp_all add: addSessionID_def case_prod_beta)

lemma add_sessions_timeouts:
  "map_of (session_and_timeout (add_sessions now sessions ks)) = map_of sessions ++ map_of (session_and_timeout ks)"
proof (induction sessions arbitrary: ks)
  case (Cons st sessions)
  obtain s t where st: "st = (s, t)" by (rule prod.exhaust)
  have "map_of (session_and_timeout (addSessionID now s t ks)) = [s \<mapsto> t] ++ map_of (session_and_timeout ks)"
    by (auto simp: addSessionID_def update_conv' map_add_def fun_eq_iff split: option.splits)
  then show ?case using Cons.IH by (auto simp: st map_add_def fun_eq_iff split: option.splits)
qed simp

definition restored :: "64 word \<Rightarrow> keeper_storage \<Rightarrow> keeper_storage \<Rightarrow> bool" where
  "restored last_idx ks ks' \<longleftrightarrow>
     same_store (ks_container ks', ks_ephemerals ks') (ks_container ks, ks_ephemerals ks)
     \<and> map_of (session_and_timeout ks') = map_of (session_and_timeout ks)
     \<and> session_id_counter ks' = session_id_counter ks \<and> ks_zxid ks' = last_idx
     \<and> ks_watches ks' = [] \<and> list_watches ks' = [] \<and> sessions_and_watchers ks' = []"

lemma load_start: "distinct (map fst entries) \<Longrightarrow> loaded keeper_start entries (fold load_entry entries keeper_start)"
proof (rule load_entries)
  show "tb_inv (fst keeper_start)" "eph_distinct (snd keeper_start)"
    using keeper_start_inv by (simp_all add: store_inv_def)
  show "tb_clean (fst keeper_start)" "\<not> snapshot_mode (fst keeper_start)"
    by (simp_all add: keeper_start_def tb_clean_def tb_insert_def tb_append_def tb_empty_def)
qed

lemma restored_store:
  assumes inv: "store_inv (c, e)" and clean: "tb_clean c"
  defines "st \<equiv> fold load_entry (tb_entries c) keeper_start"
  shows "\<exists>c'. link_children (container_keys (fst st)) (fst st) = Some c' \<and> same_store (c', snd st) (c, e)"
proof -
  let ?T = "tb_find c"
  have c: "tb_inv c" "tree ?T" "eph_ok ?T e" "eph_distinct e" using inv by (simp_all add: store_inv_def)
  note en = tb_clean_entries [OF c(1) clean]
  have ld: "loaded keeper_start (tb_entries c) st"
    unfolding st_def by (rule load_start [OF en(1)])
  obtain r where r: "?T [slash] = Some r" using tree_root [OF c(2)] by blast
  have start: "tb_find (fst keeper_start) = [[slash] \<mapsto> node_new]"
    using kt.insert_lookup [OF tb_empty_inv(1)] by (simp add: keeper_start_def tb_empty_inv)
  have find: "tb_find (fst st) = map_option bare \<circ> ?T"
    using ld r start en(2) by (auto simp: loaded_def map_add_def fun_eq_iff split: option.splits)
  then have dom: "dom (tb_find (fst st)) = dom ?T" by (auto simp: dom_def)
  have st: "tb_inv (fst st)" "tb_clean (fst st)" using ld by (simp_all add: loaded_def)
  note keys = container_keys_dom [OF st, unfolded dom]
  have par: "tb_find (fst st) (parentPath q) \<noteq> None" if "q \<in> set (container_keys (fst st))" "q \<noteq> [slash]" for q
    using that treeD(3) [OF c(2)] unfolding keys by (fastforce simp: find listed_def)
  obtain c' where c': "link_children (container_keys (fst st)) (fst st) = Some c'" "tb_inv c'"
      "tb_find c' = with_linked (dom ?T) (tb_find (fst st))"
    using link_children_ok [OF st(1) par, of "container_keys (fst st)", unfolded keys] by blast
  have "with_linked (dom ?T) (map_option bare \<circ> ?T) = ?T"
  proof
    fix p
    show "with_linked (dom ?T) (map_option bare \<circ> ?T) p = ?T p"
    proof (cases "?T p")
      case (Some n)
      have "(bare n)\<lparr>children := linked (dom ?T) p\<rparr> = n"
        unfolding linked_children [OF c(2) Some] bare_def by (cases n) simp
      then show ?thesis using Some by (simp add: with_linked_def)
    qed (simp add: with_linked_def)
  qed
  moreover have "set (sets_at (snd st) s) = set (sets_at e s)" for s
  proof -
    have "set (sets_at (snd st) s) = {p. \<exists>n. (p, n) \<in> set (tb_entries c) \<and> owner n \<noteq> 0 \<and> owner n = s}"
      using ld by (simp add: loaded_def keeper_start_def sets_at_def)
    also have "\<dots> = {p. s \<noteq> 0 \<and> (\<exists>n. ?T p = Some n \<and> owner n = s)}"
      using map_of_eq_Some_iff [OF en(1)] en(2) by auto
    also have "\<dots> = set (sets_at e s)" using c(3) by (auto simp: eph_ok_def)
    finally show ?thesis .
  qed
  ultimately show ?thesis using c' c ld unfolding find by (auto simp: same_store_def loaded_def)
qed

lemma deserialize_serialized:
  assumes "list_all entry_fits entries" and "fits_size (length entries)" and "fits_size (length sessions)"
    and "int (length (meta_ser meta)) < 2 ^ 63" and "meta_deser (meta_ser meta) = meta"
    and "fold load_entry entries (ks_container ks, ks_ephemerals ks) = (c, e)"
    and "link_children (container_keys c) c = Some c'"
  shows "deserialize_snapshot meta_deser get_last_log_idx now ks
      (writeIntBinary SNAPSHOT_V0 @ serializeSnapshotMetadata meta_ser meta @ writeIntBinary sid @
       write_size (length entries) @ concat (map write_entry entries) @
       write_size (length sessions) @ concat (map write_session sessions))
    = Some (Inr (meta, add_sessions now sessions
        (ks\<lparr>ks_zxid := get_last_log_idx meta, session_id_counter := sid, ks_container := c', ks_ephemerals := e\<rparr>)))"
proof -
  have "read_n read_session (length sessions) (concat (map write_session sessions) @ []) = Inr (sessions, [])"
    by (rule session_bin.read_n_enc) (simp add: list_all_iff)
  then show ?thesis
    using assms read_nodes_write [OF assms(1), of "(ks_container ks, ks_ephemerals ks)"]
      size_bin.dec_enc [OF assms(3)]
    unfolding deserialize_snapshot_def serializeSnapshotMetadata_def deserializeSnapshotMetadata_def
    by (simp add: codec_laws readStrict_append)
qed

text \<open>
  A snapshot brings the storage back.  Take a snapshot of a reachable storage whose table has no outdated elements,
  and let requests change the table in any way while it is written.  When no node is newer than the
  log index of the snapshot and the sizes fit the format, writing succeeds, and loading the bytes into a new
  storage gives exactly the nodes at the time of the snapshot, with data, statistics and children, the
  ephemeral nodes of each session, the timeouts and the session counter; the transaction number is
  the log index, and there are no watches.
\<close>

lemma snapshot_restores:
  assumes "keeper_step\<^sup>*\<^sup>* (keeper_storage_new tick0 now0) ks"
    and "tb_clean (ks_container ks)" and "storage_fits ks" and "nodes_upto (get_last_log_idx meta) ks"
    and "int (length (meta_ser meta)) < 2 ^ 63" and "meta_deser (meta_ser meta) = meta"
    and "take_snapshot meta ks = (sn, ks1)" and "tb_run ops (ks_container ks1) = Some c"
  shows "\<exists>bytes ks'. serialize_snapshot meta_ser get_last_log_idx sn c = Inr bytes
       \<and> deserialize_snapshot meta_deser get_last_log_idx now (keeper_storage_new tick now1) bytes = Some (Inr (meta, ks'))
       \<and> restored (get_last_log_idx meta) ks ks'"
proof -
  let ?es = "tb_entries (ks_container ks)"
  let ?new = "keeper_storage_new tick now1"
  have inv: "store_inv (ks_container ks, ks_ephemerals ks)"
    using keeper_system.reachable_inv assms(1) by (fastforce simp: ks_inv_def)
  have sn: "sn = \<lparr>snapshot_meta = meta, snap_session_id = session_id_counter ks,
      snapshot_container_size = length ?es, snap_session_and_timeout = session_and_timeout ks\<rparr>"
    and ks1: "ks_container ks1 = tb_enableSnapshotMode (ks_container ks)"
    using assms(7) by (auto simp: take_snapshot_def Let_def tb_snapshotSize_def tb_entries_def tb_enableSnapshotMode_def)
  have "tb_inv (ks_container ks)" using inv by (simp add: store_inv_def)
  then have "tb_prefix (tb_snapshotSize (ks_container ks)) c = ?es"
    using snapshot_prefix assms(8) ks1 by simp
  then have pre: "tb_prefix (length ?es) c = ?es" by (simp add: tb_snapshotSize_def tb_entries_def)
  have start: "(ks_container ?new, ks_ephemerals ?new) = keeper_start"
    by (simp add: keeper_storage_new_def keeper_start_def)
  obtain c1 e1 where st: "fold load_entry ?es keeper_start = (c1, e1)" by (rule prod.exhaust)
  then obtain c' where c': "link_children (container_keys c1) c1 = Some c'"
      "same_store (c', e1) (ks_container ks, ks_ephemerals ks)"
    using restored_store [OF inv assms(2)] by auto
  note fits = assms(3) [unfolded storage_fits_def]
  have size: "fits_size (length ?es)" using fits by (simp add: tb_entries_def)
  let ?ks' = "add_sessions now (session_and_timeout ks)
      (?new\<lparr>ks_zxid := get_last_log_idx meta, session_id_counter := session_id_counter ks, ks_container := c', ks_ephemerals := e1\<rparr>)"
  let ?bytes = "writeIntBinary SNAPSHOT_V0 @ serializeSnapshotMetadata meta_ser meta @ writeIntBinary (session_id_counter ks) @
       write_size (length ?es) @ concat (map write_entry ?es) @
       write_size (length (session_and_timeout ks)) @ concat (map write_session (session_and_timeout ks))"
  have "deserialize_snapshot meta_deser get_last_log_idx now ?new ?bytes = Some (Inr (meta, ?ks'))"
    by (rule deserialize_serialized [where c = c1 and e = e1]) (use fits size assms(5,6) st [folded start] c'(1) in simp_all)
  moreover have "serialize_snapshot meta_ser get_last_log_idx sn c = Inr ?bytes"
    using serialize_nodes_Inr [OF assms(4) [unfolded nodes_upto_def]] pre by (simp add: serialize_snapshot_def sn)
  moreover have "restored (get_last_log_idx meta) ks ?ks'"
    using c'(2) by (simp add: restored_def add_sessions_timeouts) (simp add: keeper_storage_new_def)
  ultimately show ?thesis by blast
qed

text \<open>For examples: metadata that is a log index.\<close>

abbreviation word_meta :: "string \<Rightarrow> 64 word" where
  "word_meta bytes \<equiv> word_of_nat (le_value bytes)"

lemma word_meta_laws:
  "int (length (writeIntBinary (m :: 64 word))) < 2 ^ 63" "word_meta (writeIntBinary (m :: 64 word)) = m"
  using le_value_bytes [of "unat m" 8] unat_less_bytes [of m] by (simp_all add: writeIntBinary_def)

section \<open>A snapshot that fails\<close>

text \<open>
  When writing a snapshot throws, the task of \<^verbatim>\<open>KeeperStateMachine::create_snapshot\<close> logs the exception and drops the
  snapshot; it does not clear the outdated elements.

  C36. A node that was removed while a failed snapshot was being written comes back: the next snapshot still contains
  it, and the storage that is loaded from that snapshot has it.
\<close>

theorem failed_snapshot_resurrects:
  assumes "store_inv (ks_container ks, ks_ephemerals ks)" and "tb_clean (ks_container ks)"
    and "tb_find (ks_container ks) path = Some n"
    and "take_snapshot meta ks = (sn1, ks1)"
    and "ks2 = drop_snapshot (ks1\<lparr>ks_container := snd (tb_erase path (ks_container ks1))\<rparr>)"
    and "take_snapshot meta' ks2 = (sn2, ks3)"
  shows "tb_find (ks_container ks3) path = None
       \<and> (path, n) \<in> set (tb_prefix (snapshot_container_size sn2) (ks_container ks3))
       \<and> tb_find (fst (fold load_entry (tb_prefix (snapshot_container_size sn2) (ks_container ks3)) keeper_start)) path
           = Some (bare n)"
proof -
  let ?c = "ks_container ks"
  have inv: "tb_inv ?c" using assms(1) by (simp add: store_inv_def)
  have ks1: "ks_container ks1 = tb_enableSnapshotMode ?c"
    using assms(4) by (auto simp: take_snapshot_def Let_def)
  let ?u = "snd (tb_erase path (tb_enableSnapshotMode ?c))"
  have run: "tb_run [TbErase path] (tb_enableSnapshotMode ?c) = Some ?u" by simp
  have ks3: "ks_container ks3 = tb_enableSnapshotMode (tb_disableSnapshotMode ?u)"
      "snapshot_container_size sn2 = tb_snapshotSize ?u"
    using assms(5,6)
    by (auto simp: take_snapshot_def Let_def drop_snapshot_def ks1 tb_snapshotSize_def tb_enableSnapshotMode_def
        tb_disableSnapshotMode_def)
  have "tb_entries ?u = tb_entries ?c"
    by (auto simp: tb_erase_def tb_entries_retire tb_enableSnapshotMode_def split: option.split)
       (simp_all add: tb_entries_def)
  moreover have "tb_prefix (tb_snapshotSize ?u) (tb_enableSnapshotMode (tb_disableSnapshotMode ?u)) = tb_entries ?u"
    by (simp add: tb_prefix_def tb_snapshotSize_def tb_entries_def)
  ultimately have es: "tb_prefix (snapshot_container_size sn2) (ks_container ks3) = tb_entries ?c"
    by (simp add: ks3)
  note en = tb_clean_entries [OF inv assms(2)]
  have mem: "(path, n) \<in> set (tb_entries ?c)" by (rule map_of_SomeD) (simp add: en(2) assms(3))
  have gone: "tb_find (ks_container ks3) path = None"
    using tb_run_snapshot [OF run] inv by (simp add: ks3)
  have ld: "loaded keeper_start (tb_entries ?c) (fold load_entry (tb_entries ?c) keeper_start)"
    by (rule load_start [OF en(1)])
  have "tb_find (fst (fold load_entry (tb_entries ?c) keeper_start)) path = Some (bare n)"
    using ld en(2) assms(3) by (simp add: loaded_def map_add_def)
  then show ?thesis using gone mem es by simp
qed

theorem failed_snapshot_resurrects_witness:
  "\<exists>sn1 ks1 ks2 sn2 ks3 n. take_snapshot (9 :: 64 word) sample_keeper = (sn1, ks1)
     \<and> ks2 = drop_snapshot (ks1\<lparr>ks_container := snd (tb_erase ''/a/b'' (ks_container ks1))\<rparr>)
     \<and> take_snapshot (12 :: 64 word) ks2 = (sn2, ks3) \<and> tb_find (ks_container ks3) ''/a/b'' = None
     \<and> tb_find (fst (fold load_entry (tb_prefix (snapshot_container_size sn2) (ks_container ks3)) keeper_start)) ''/a/b''
         = Some (bare n)"
proof -
  obtain sn1 ks1 where t1: "take_snapshot (9 :: 64 word) sample_keeper = (sn1, ks1)" by (rule prod.exhaust)
  define ks2 where "ks2 = drop_snapshot (ks1\<lparr>ks_container := snd (tb_erase ''/a/b'' (ks_container ks1))\<rparr>)"
  obtain sn2 ks3 where t2: "take_snapshot (12 :: 64 word) ks2 = (sn2, ks3)" by (rule prod.exhaust)
  have inv: "store_inv (ks_container sample_keeper, ks_ephemerals sample_keeper)"
    using sample_keeper_inv by (simp add: ks_inv_def)
  have clean: "tb_clean (ks_container sample_keeper)" by code_simp
  have "tb_find (ks_container sample_keeper) ''/a/b'' \<noteq> None" by code_simp
  then obtain n where "tb_find (ks_container sample_keeper) ''/a/b'' = Some n" by blast
  from failed_snapshot_resurrects [OF inv clean this t1 ks2_def t2] show ?thesis using t1 ks2_def t2 by blast
qed

end
