(* ===== verification/Keeper_Wire.thy ===== *)
theory Keeper_Wire
  imports Binary_IO Keeper_Protocol
begin

text \<open>
  The ZooKeeper wire format (\<^verbatim>\<open>Common/ZooKeeper/ZooKeeperIO.{h,cpp}\<close>, the \<^verbatim>\<open>readImpl\<close> and \<^verbatim>\<open>writeImpl\<close> of the
  requests in \<^verbatim>\<open>ZooKeeperCommon.cpp\<close>) and the entries of Keeper's log, which hold a session and a request in
  that format (\<^verbatim>\<open>getZooKeeperLogEntry\<close> in \<^verbatim>\<open>KeeperServer.cpp\<close>, \<^verbatim>\<open>parseRequest\<close> in \<^verbatim>\<open>KeeperStateMachine.cpp\<close>).
  Integers are big-endian.  The bodies of a multi request nest, so the reader is recursive; it ends
  because every sub-request takes at least the nine bytes of its header from the buffer.
\<close>

unbundle bit_operations_syntax

section \<open>Primitive types\<close>

definition zk_write_int :: "'a::len word \<Rightarrow> string" where
  "zk_write_int x = writeIntBinary (bswap x)"

definition zk_read_int :: "'a::len word reader" where
  "zk_read_int buf = bind_result (readIntBinary buf) (\<lambda>(x, buf). Inr (bswap x, buf))"

abbreviation MAX_STRING_OR_ARRAY_SIZE :: int where
  "MAX_STRING_OR_ARRAY_SIZE \<equiv> 2 ^ 28"

definition zk_write_string :: "string \<Rightarrow> string" where
  "zk_write_string s = zk_write_int (word_of_nat (length s) :: i32) @ s"

text \<open>A size of \<open>- 1\<close> stands for a node without a value, which is read as an empty string.\<close>

definition zk_read_string :: "string reader" where
  "zk_read_string buf =
     bind_result (zk_read_int buf) (\<lambda>(size :: i32, buf).
       if sint size = - 1 then Inr ([], buf)
       else if sint size < 0 then Inl MarshallingError
       else if sint size > MAX_STRING_OR_ARRAY_SIZE then Inl MarshallingError
       else read_upto (nat (sint size)) buf)"

definition zk_write_vector :: "('a \<Rightarrow> string) \<Rightarrow> 'a list \<Rightarrow> string" where
  "zk_write_vector enc xs = zk_write_int (word_of_nat (length xs) :: i32) @ concat (map enc xs)"

definition zk_read_vector :: "'a reader \<Rightarrow> 'a list reader" where
  "zk_read_vector dec buf =
     bind_result (zk_read_int buf) (\<lambda>(size :: i32, buf).
       if sint size < 0 then Inl MarshallingError
       else if sint size > MAX_STRING_OR_ARRAY_SIZE then Inl MarshallingError
       else read_n dec (nat (sint size)) buf)"

definition zk_write_acl :: "acl \<Rightarrow> string" where
  "zk_write_acl a = zk_write_int (permissions a) @ zk_write_string (scheme_name a) @ zk_write_string (acl_id a)"

definition zk_read_acl :: "acl reader" where
  "zk_read_acl buf =
     bind_result (zk_read_int buf) (\<lambda>(perms, buf).
     bind_result (zk_read_string buf) (\<lambda>(sch, buf).
     bind_result (zk_read_string buf) (\<lambda>(ident, buf).
       Inr (\<lparr>permissions = perms, scheme_name = sch, acl_id = ident\<rparr>, buf))))"

section \<open>Operation numbers\<close>

fun op_code :: "op_num \<Rightarrow> i32" where
  "op_code OpClose = - 11"
| "op_code OpError = - 1"
| "op_code OpCreate = 1"
| "op_code OpRemove = 2"
| "op_code OpExists = 3"
| "op_code OpGet = 4"
| "op_code OpSet = 5"
| "op_code OpSimpleList = 8"
| "op_code OpSync = 9"
| "op_code OpHeartbeat = 11"
| "op_code OpList = 12"
| "op_code OpCheck = 13"
| "op_code OpMulti = 14"
| "op_code OpAuth = 100"
| "op_code OpSessionID = 997"

definition VALID_OPERATIONS :: "op_num list" where
  "VALID_OPERATIONS =
     [OpClose, OpError, OpCreate, OpRemove, OpExists, OpGet, OpSet, OpSimpleList, OpSync, OpHeartbeat,
      OpList, OpCheck, OpMulti, OpAuth, OpSessionID]"

definition op_num_of :: "i32 \<Rightarrow> (bin_error, op_num) result" where
  "op_num_of raw =
     (case find (\<lambda>op. op_code op = raw) VALID_OPERATIONS of None \<Rightarrow> Inl UnimplementedError | Some op \<Rightarrow> Inr op)"

definition zk_write_op :: "op_num \<Rightarrow> string" where
  "zk_write_op op = zk_write_int (op_code op)"

definition zk_read_op :: "op_num reader" where
  "zk_read_op buf =
     bind_result (zk_read_int buf) (\<lambda>(raw, buf). bind_result (op_num_of raw) (\<lambda>op. Inr (op, buf)))"

section \<open>Writing requests\<close>

definition create_flags :: "bool \<Rightarrow> bool \<Rightarrow> i32" where
  "create_flags is_ephemeral is_sequential =
     (if is_ephemeral then 1 else 0) OR (if is_sequential then 2 else 0)"

text \<open>The header of a sub-request, and the footer, of a multi request: operation, done, error.\<close>

definition multi_header :: "op_num \<Rightarrow> bool \<Rightarrow> string" where
  "multi_header op fin = zk_write_op op @ writeBool fin @ zk_write_int (- 1 :: i32)"

fun writeImpl :: "bool \<Rightarrow> zk_request_body \<Rightarrow> string" and write_sub :: "zk_request \<Rightarrow> string" where
  "writeImpl has_watch HeartbeatRequest = []"
| "writeImpl has_watch (SyncRequest path) = zk_write_string path"
| "writeImpl has_watch (AuthRequest type sch content) =
     zk_write_int type @ zk_write_string sch @ zk_write_string content"
| "writeImpl has_watch CloseRequest = []"
| "writeImpl has_watch (CreateRequest path content al is_ephemeral is_sequential) =
     zk_write_string path @ zk_write_string content @ zk_write_vector zk_write_acl al @
     zk_write_int (create_flags is_ephemeral is_sequential)"
| "writeImpl has_watch (RemoveRequest path ver) = zk_write_string path @ zk_write_int ver"
| "writeImpl has_watch (ExistsRequest path) = zk_write_string path @ writeBool has_watch"
| "writeImpl has_watch (GetRequest path) = zk_write_string path @ writeBool has_watch"
| "writeImpl has_watch (SetRequest path content ver) =
     zk_write_string path @ zk_write_string content @ zk_write_int ver"
| "writeImpl has_watch (SimpleListRequest path) = zk_write_string path @ writeBool has_watch"
| "writeImpl has_watch (ListRequest path) = zk_write_string path @ writeBool has_watch"
| "writeImpl has_watch (CheckRequest path ver) = zk_write_string path @ zk_write_int ver"
| "writeImpl has_watch (MultiRequest requests) = concat (map write_sub requests) @ multi_header OpError True"
| "writeImpl has_watch (SessionIDRequest internal_id timeout server_id) =
     zk_write_int internal_id @ zk_write_int timeout @ zk_write_int server_id"
| "write_sub (ZkRequest xid has_watch body) = multi_header (getOpNum body) False @ writeImpl has_watch body"

definition write_request :: "zk_request \<Rightarrow> string" where
  "write_request r =
     zk_write_string (zk_write_int (rq_xid r) @ zk_write_op (getOpNum (rq_body r)) @
       writeImpl (rq_has_watch r) (rq_body r))"

definition getZooKeeperLogEntry :: "session \<Rightarrow> zk_request \<Rightarrow> string" where
  "getZooKeeperLogEntry sid r = writeIntBinary sid @ write_request r"

section \<open>Reading requests\<close>

text \<open>
  The factory and \<^verbatim>\<open>readImpl\<close> of every request but the multi request.  The fields \<^verbatim>\<open>xid\<close> and
  \<^verbatim>\<open>has_watch\<close> of a new request are zero; four classes read \<^verbatim>\<open>has_watch\<close> from the wire.
\<close>

definition read_watched :: "(string \<Rightarrow> zk_request_body) \<Rightarrow> zk_request reader" where
  "read_watched mk buf =
     bind_result (zk_read_string buf) (\<lambda>(path, buf).
     bind_result (readBool buf) (\<lambda>(has_watch, buf). Inr (ZkRequest 0 has_watch (mk path), buf)))"

fun readImpl :: "op_num \<Rightarrow> zk_request reader" where
  "readImpl OpHeartbeat buf = Inr (ZkRequest 0 False HeartbeatRequest, buf)"
| "readImpl OpSync buf =
     bind_result (zk_read_string buf) (\<lambda>(path, buf). Inr (ZkRequest 0 False (SyncRequest path), buf))"
| "readImpl OpAuth buf =
     bind_result (zk_read_int buf) (\<lambda>(type, buf).
     bind_result (zk_read_string buf) (\<lambda>(sch, buf).
     bind_result (zk_read_string buf) (\<lambda>(content, buf).
       Inr (ZkRequest 0 False (AuthRequest type sch content), buf))))"
| "readImpl OpClose buf = Inr (ZkRequest 0 False CloseRequest, buf)"
| "readImpl OpCreate buf =
     bind_result (zk_read_string buf) (\<lambda>(path, buf).
     bind_result (zk_read_string buf) (\<lambda>(content, buf).
     bind_result (zk_read_vector zk_read_acl buf) (\<lambda>(al, buf).
     bind_result (zk_read_int buf) (\<lambda>(flags :: i32, buf).
       Inr (ZkRequest 0 False (CreateRequest path content al (flags AND 1 \<noteq> 0) (flags AND 2 \<noteq> 0)), buf)))))"
| "readImpl OpRemove buf =
     bind_result (zk_read_string buf) (\<lambda>(path, buf).
     bind_result (zk_read_int buf) (\<lambda>(ver, buf). Inr (ZkRequest 0 False (RemoveRequest path ver), buf)))"
| "readImpl OpExists buf = read_watched ExistsRequest buf"
| "readImpl OpGet buf = read_watched GetRequest buf"
| "readImpl OpSet buf =
     bind_result (zk_read_string buf) (\<lambda>(path, buf).
     bind_result (zk_read_string buf) (\<lambda>(content, buf).
     bind_result (zk_read_int buf) (\<lambda>(ver, buf). Inr (ZkRequest 0 False (SetRequest path content ver), buf))))"
| "readImpl OpSimpleList buf = read_watched SimpleListRequest buf"
| "readImpl OpList buf = read_watched ListRequest buf"
| "readImpl OpCheck buf =
     bind_result (zk_read_string buf) (\<lambda>(path, buf).
     bind_result (zk_read_int buf) (\<lambda>(ver, buf). Inr (ZkRequest 0 False (CheckRequest path ver), buf)))"
| "readImpl OpSessionID buf =
     bind_result (zk_read_int buf) (\<lambda>(internal_id, buf).
     bind_result (zk_read_int buf) (\<lambda>(timeout, buf).
     bind_result (zk_read_int buf) (\<lambda>(server_id, buf).
       Inr (ZkRequest 0 False (SessionIDRequest internal_id timeout server_id), buf))))"
| "readImpl op buf = Inl BadArgumentsError"

definition read_header :: "(op_num \<times> bool \<times> i32) reader" where
  "read_header buf =
     bind_result (zk_read_op buf) (\<lambda>(op, buf).
     bind_result (readBool buf) (\<lambda>(fin, buf).
     bind_result (zk_read_int buf) (\<lambda>(err, buf). Inr ((op, fin, err), buf))))"

text \<open>\<^verbatim>\<open>ZooKeeperMultiRequest::readImpl\<close>; a sub-request may be a multi request again.\<close>

lemma bind_result_cong [fundef_cong]:
  "r = r' \<Longrightarrow> (\<And>a. r' = Inr a \<Longrightarrow> f a = g a) \<Longrightarrow> bind_result r f = bind_result r' g"
  by (cases r') simp_all

function read_multi :: "zk_request list reader" where
  "read_multi buf =
     bind_result (read_header buf) (\<lambda>(h, buf). case h of (op, fin, err) \<Rightarrow>
       if fin then
         if op \<noteq> OpError then Inl MarshallingError
         else if err \<noteq> - 1 then Inl MarshallingError
         else Inr ([], buf)
       else
         bind_result
           (if op = OpMulti then bind_result (read_multi buf) (\<lambda>(rs, buf). Inr (ZkRequest 0 False (MultiRequest rs), buf))
            else readImpl op buf)
           (\<lambda>(r, buf).
             if buf = [] then Inl MarshallingError
             else bind_result (read_multi buf) (\<lambda>(rs, buf). Inr (r # rs, buf))))"
  by pat_completeness auto

section \<open>Readers consume\<close>

lemma leaves_int [reader_leaves]: "length buf \<le> n \<Longrightarrow> leaves n (zk_read_int buf)"
  unfolding zk_read_int_def by (intro reader_leaves)

lemma leaves_string [reader_leaves]: "length buf \<le> n \<Longrightarrow> leaves n (zk_read_string buf)"
  unfolding zk_read_string_def by (intro reader_leaves)

lemma leaves_acl [reader_leaves]: "length buf \<le> n \<Longrightarrow> leaves n (zk_read_acl buf)"
  unfolding zk_read_acl_def by (intro reader_leaves)

lemma leaves_vector [reader_leaves]:
  "(\<And>buf. length buf \<le> n \<Longrightarrow> leaves n (dec buf)) \<Longrightarrow> length buf \<le> n \<Longrightarrow> leaves n (zk_read_vector dec buf)"
  unfolding zk_read_vector_def by (intro reader_leaves)

lemma leaves_watched [reader_leaves]: "length buf \<le> n \<Longrightarrow> leaves n (read_watched mk buf)"
  unfolding read_watched_def by (intro reader_leaves)

lemma leaves_readImpl [reader_leaves]: "length buf \<le> n \<Longrightarrow> leaves n (readImpl op buf)"
  by (cases op; simp only: readImpl.simps) (intro reader_leaves; assumption)+

lemma read_int_length:
  "zk_read_int buf = Inr (x :: 'a::len word, rest) \<Longrightarrow> length buf = LENGTH('a) div 8 + length rest"
  by (auto simp: zk_read_int_def readIntBinary_def readStrict_def bind_result_Inr split: if_splits)

lemma read_header_shorter: "read_header buf = Inr (h, rest) \<Longrightarrow> length rest < length buf"
  by (auto simp: read_header_def zk_read_op_def bind_result_Inr dest!: read_int_length leavesD [OF leaves_bool [OF order_refl]])

lemma read_multi_leaves: "read_multi_dom buf \<Longrightarrow> leaves (length buf) (read_multi buf)"
proof (induction buf rule: read_multi.pinduct)
  case (1 buf)
  show ?case
  proof (cases "read_header buf")
    case (Inl e)
    then show ?thesis by (simp add: read_multi.psimps "1.hyps" leaves_def)
  next
    case (Inr y)
    then obtain op fin err b where h: "read_header buf = Inr ((op, fin, err), b)" by (cases y) auto
    note len = read_header_shorter [OF h]
    let ?sub = "if op = OpMulti then bind_result (read_multi b) (\<lambda>(rs, buf). Inr (ZkRequest 0 False (MultiRequest rs), buf))
      else readImpl op b"
    have sub: "leaves (length b) ?sub" if "\<not> fin"
      using "1.IH"(1) [OF h refl refl refl that] by (cases "op = OpMulti") (simp_all add: reader_leaves)
    have rest: "leaves (length buf) (read_multi b')" if "\<not> fin" "?sub = Inr (r, b')" "b' \<noteq> []" for r b'
      using "1.IH"(2) [OF h refl refl refl that(1,2) refl that(3)] leavesD [OF sub that(2)] that(1) len
      by (auto simp: leaves_def intro: le_trans)
    show ?thesis
    proof (cases "fin")
      case True
      then show ?thesis using len by (simp add: read_multi.psimps "1.hyps" h leaves_def)
    next
      case False
      show ?thesis
      proof (cases ?sub)
        case (Inl e)
        then show ?thesis using False by (simp add: read_multi.psimps "1.hyps" h leaves_def)
      next
        case (Inr z)
        obtain r b' where z: "z = (r, b')" by (rule prod.exhaust)
        have "leaves (length buf) (if b' = [] then Inl MarshallingError
            else bind_result (read_multi b') (\<lambda>(rs, buf). Inr (r # rs, buf)))"
          using rest [OF False Inr [unfolded z]] by (auto intro!: reader_leaves)
        then show ?thesis using False Inr z
          by (simp only: read_multi.psimps [OF "1.hyps"] h bind_result_simps prod.case if_False)
      qed
    qed
  qed
qed

lemma read_sub_leaves:
  assumes "op = OpMulti \<Longrightarrow> read_multi_dom b"
  shows "leaves (length b) (if op = OpMulti
    then bind_result (read_multi b) (\<lambda>(rs, buf). Inr (ZkRequest 0 False (MultiRequest rs), buf))
    else readImpl op b)"
  using assms by (cases "op = OpMulti") (simp_all add: reader_leaves read_multi_leaves)

termination read_multi
proof (relation "measure length")
  fix buf a x y xa ya xb yb aa xc yc
  assume h: "read_header buf = Inr a" "(x, y) = a"
    and sub: "(if xa = OpMulti then bind_result (read_multi y) (\<lambda>(rs, buf). Inr (ZkRequest 0 False (MultiRequest rs), buf))
       else readImpl xa y) = Inr aa" "(xc, yc) = aa" "xa = OpMulti \<Longrightarrow> read_multi_dom y"
  have "length y < length buf" using h read_header_shorter [of buf x y] by simp
  moreover have "length yc \<le> length y"
    by (rule leavesD [OF read_sub_leaves [OF sub(3)] sub(1) [unfolded sub(2) [symmetric]]])
  ultimately show "(yc, buf) \<in> measure length" by simp
qed (auto dest: read_header_shorter)

declare read_multi.simps [simp del]

text \<open>Reading any request, as \<^verbatim>\<open>parseRequest\<close> does after the session.\<close>

definition read_body :: "op_num \<Rightarrow> zk_request reader" where
  "read_body op buf =
     (if op = OpMulti then bind_result (read_multi buf) (\<lambda>(rs, buf). Inr (ZkRequest 0 False (MultiRequest rs), buf))
      else readImpl op buf)"

definition parseRequest :: "string \<Rightarrow> (bin_error, session \<times> zk_request) result" where
  "parseRequest buf =
     bind_result (readIntBinary buf) (\<lambda>(sid, buf).
     bind_result (zk_read_int buf) (\<lambda>(len :: i32, buf).
     bind_result (zk_read_int buf) (\<lambda>(xid, buf).
     bind_result (zk_read_op buf) (\<lambda>(op, buf).
     bind_result (read_body op buf) (\<lambda>(r, buf).
       Inr (sid, ZkRequest xid (rq_has_watch r) (rq_body r)))))))"

section \<open>Codecs\<close>

lemma zk_read_int_write:
  "8 dvd LENGTH('a) \<Longrightarrow> zk_read_int (zk_write_int (x :: 'a::len word) @ rest) = Inr (x, rest)"
  by (simp add: zk_read_int_def zk_write_int_def readIntBinary_write bswap_bswap)

interpretation zk_int32: binary_codec zk_write_int "zk_read_int :: i32 reader" "\<lambda>_. True"
  by unfold_locales (simp add: zk_read_int_write)

interpretation zk_int64: binary_codec zk_write_int "zk_read_int :: i64 reader" "\<lambda>_. True"
  by unfold_locales (simp add: zk_read_int_write)

abbreviation short_size :: "nat \<Rightarrow> bool" where
  "short_size n \<equiv> int n \<le> MAX_STRING_OR_ARRAY_SIZE"

lemma sint_short_size: "short_size n \<Longrightarrow> sint (word_of_nat n :: i32) = int n"
  by (simp add: signed_of_nat signed_take_bit_int_eq_self)

interpretation zk_string: binary_codec zk_write_string zk_read_string "\<lambda>s. short_size (length s)"
  by unfold_locales
    (simp add: zk_read_string_def zk_write_string_def zk_int32.dec_enc sint_short_size read_upto_def)

text \<open>A string that the buffer ends in is not an error: zeros stand for what is missing.\<close>

lemma truncated_string_padded:
  assumes "short_size n" and "length bs \<le> n"
  shows "zk_read_string (zk_write_int (word_of_nat n :: i32) @ bs) = Inr (bs @ replicate (n - length bs) (char_of (0::nat)), [])"
  using assms sint_short_size by (simp add: zk_read_string_def zk_int32.dec_enc read_upto_def)

interpretation zk_acl: binary_codec zk_write_acl zk_read_acl
  "\<lambda>a. short_size (length (scheme_name a)) \<and> short_size (length (acl_id a))"
  by unfold_locales (simp add: zk_read_acl_def zk_write_acl_def zk_int32.dec_enc zk_string.dec_enc)

lemma op_num_of_code: "op_num_of (op_code op) = Inr op"
  by (cases op) (simp_all add: op_num_of_def VALID_OPERATIONS_def)

interpretation zk_op: binary_codec zk_write_op zk_read_op "\<lambda>_. True"
  by unfold_locales (simp add: zk_read_op_def zk_write_op_def zk_int32.dec_enc op_num_of_code)

text \<open>A vector has a codec when its elements have one.\<close>

locale vector_codec = binary_codec
begin

lemma dec_enc_vector:
  assumes "list_all ok xs" and "short_size (length xs)"
  shows "zk_read_vector dec (zk_write_vector enc xs @ rest) = Inr (xs, rest)"
  using read_n_enc [OF assms(1)] assms(2)
  by (simp add: zk_read_vector_def zk_write_vector_def zk_int32.dec_enc sint_short_size)

end


interpretation zk_acls: vector_codec zk_write_acl zk_read_acl
  "\<lambda>a. short_size (length (scheme_name a)) \<and> short_size (length (acl_id a))"
  by unfold_locales

lemmas zk_laws [codec_laws] =
  zk_int32.dec_enc zk_int64.dec_enc zk_string.dec_enc zk_acl.dec_enc zk_op.dec_enc zk_acls.dec_enc_vector

section \<open>What is written is read\<close>

text \<open>
  Requests the format can carry: only four classes have a place for \<^verbatim>\<open>has_watch\<close>, a sub-request has none for
  its \<^verbatim>\<open>xid\<close>, and strings and vectors have at most \<open>2 ^ 28\<close> elements.
\<close>

abbreviation short :: "'a list \<Rightarrow> bool" where
  "short xs \<equiv> short_size (length xs)"

definition acl_ok :: "acl \<Rightarrow> bool" where
  "acl_ok a \<longleftrightarrow> short (scheme_name a) \<and> short (acl_id a)"

fun wire_body :: "bool \<Rightarrow> zk_request_body \<Rightarrow> bool" and wire_sub :: "zk_request \<Rightarrow> bool" where
  "wire_body w HeartbeatRequest = (\<not> w)"
| "wire_body w (SyncRequest path) = (\<not> w \<and> short path)"
| "wire_body w (AuthRequest type sch content) = (\<not> w \<and> short sch \<and> short content)"
| "wire_body w CloseRequest = (\<not> w)"
| "wire_body w (CreateRequest path content al is_ephemeral is_sequential) =
     (\<not> w \<and> short path \<and> short content \<and> short al \<and> list_all acl_ok al)"
| "wire_body w (RemoveRequest path ver) = (\<not> w \<and> short path)"
| "wire_body w (ExistsRequest path) = short path"
| "wire_body w (GetRequest path) = short path"
| "wire_body w (SetRequest path content ver) = (\<not> w \<and> short path \<and> short content)"
| "wire_body w (SimpleListRequest path) = short path"
| "wire_body w (ListRequest path) = short path"
| "wire_body w (CheckRequest path ver) = (\<not> w \<and> short path)"
| "wire_body w (MultiRequest requests) = (\<not> w \<and> list_all wire_sub requests)"
| "wire_body w (SessionIDRequest internal_id timeout server_id) = (\<not> w)"
| "wire_sub (ZkRequest xid w body) = (xid = 0 \<and> wire_body w body)"

definition wire_ok :: "zk_request \<Rightarrow> bool" where
  "wire_ok r \<longleftrightarrow> wire_body (rq_has_watch r) (rq_body r)"

lemma create_flags_bits:
  "create_flags e s AND 1 \<noteq> 0 \<longleftrightarrow> e" "create_flags e s AND 2 \<noteq> 0 \<longleftrightarrow> s"
  by (cases e; cases s; simp add: create_flags_def)+

lemma read_header_write [codec_laws]:
  "read_header (multi_header op fin @ rest) = Inr ((op, fin, - 1), rest)"
  by (simp add: read_header_def multi_header_def codec_laws)

lemma acls_read_write [codec_laws]:
  "list_all acl_ok al \<Longrightarrow> short al \<Longrightarrow>
     zk_read_vector zk_read_acl (zk_write_vector zk_write_acl al @ rest) = Inr (al, rest)"
  by (rule zk_acls.dec_enc_vector) (simp_all add: acl_ok_def [abs_def])

lemma read_watched_write:
  "short path \<Longrightarrow> read_watched mk (zk_write_string path @ writeBool w @ rest) = Inr (ZkRequest 0 w (mk path), rest)"
  by (simp add: read_watched_def codec_laws)

lemma multi_header_ne: "multi_header op fin @ rest \<noteq> []"
  using read_header_shorter [OF read_header_write [of op fin rest]] by auto

lemma read_multi_write:
  assumes "\<And>r rest. r \<in> set rs \<Longrightarrow> read_body (getOpNum (rq_body r)) (writeImpl (rq_has_watch r) (rq_body r) @ rest) = Inr (r, rest)"
  shows "read_multi (concat (map write_sub rs) @ multi_header OpError True @ rest) = Inr (rs, rest)"
  using assms
proof (induction rs)
  case Nil
  then show ?case by (simp add: read_multi.simps [of "multi_header OpError True @ rest"] codec_laws)
next
  case (Cons r rs)
  let ?rest = "concat (map write_sub rs) @ multi_header OpError True @ rest"
  have ne: "?rest \<noteq> []" using multi_header_ne [of OpError True rest] by auto
  have w: "write_sub r = multi_header (getOpNum (rq_body r)) False @ writeImpl (rq_has_watch r) (rq_body r)"
    by (cases r) simp
  have "read_multi (multi_header (getOpNum (rq_body r)) False @ writeImpl (rq_has_watch r) (rq_body r) @ ?rest) = Inr (r # rs, rest)"
    using Cons.prems [of r ?rest] ne Cons.IH Cons.prems
    by (subst read_multi.simps) (simp add: codec_laws read_body_def [symmetric])
  then show ?case by (simp add: w)
qed

lemma read_body_write:
  "wire_body w body \<Longrightarrow> read_body (getOpNum body) (writeImpl w body @ rest) = Inr (ZkRequest 0 w body, rest)"
  "wire_sub r \<Longrightarrow>
     read_body (getOpNum (rq_body r)) (writeImpl (rq_has_watch r) (rq_body r) @ rest) = Inr (r, rest)"
proof (induction w body and r arbitrary: rest and rest rule: writeImpl_write_sub.induct)
  case (13 w rs)
  then have "read_multi (concat (map write_sub rs) @ multi_header OpError True @ rest) = Inr (rs, rest)"
    by (intro read_multi_write) (simp add: list_all_iff)
  then show ?case using 13 by (simp add: read_body_def)
qed (simp_all add: read_body_def codec_laws read_watched_write create_flags_bits)

lemma log_entry_read:
  assumes "wire_ok r"
  shows "parseRequest (getZooKeeperLogEntry sid r) = Inr (sid, r)"
proof -
  have "parseRequest (getZooKeeperLogEntry sid r @ []) = Inr (sid, r)"
    using read_body_write(1) [OF assms [unfolded wire_ok_def], of "[]"]
    unfolding parseRequest_def getZooKeeperLogEntry_def write_request_def zk_write_string_def append_assoc
    by (simp add: codec_laws)
  then show ?thesis by simp
qed

section \<open>What is received can be written\<close>

text \<open>\<^verbatim>\<open>KeeperTCPHandler::receiveRequest\<close>, up to the hand-over to the dispatcher.\<close>

definition receiveRequest :: "zk_request reader" where
  "receiveRequest buf =
     bind_result (zk_read_int buf) (\<lambda>(len :: i32, buf).
     bind_result (zk_read_int buf) (\<lambda>(xid, buf).
     bind_result (zk_read_op buf) (\<lambda>(op, buf).
     bind_result (read_body op buf) (\<lambda>(r, buf).
       Inr (ZkRequest xid (rq_has_watch r) (rq_body r), buf)))))"

definition yields :: "('a \<Rightarrow> bool) \<Rightarrow> (bin_error, 'a \<times> string) result \<Rightarrow> bool" where
  "yields P r \<longleftrightarrow> (\<forall>x rest. r = Inr (x, rest) \<longrightarrow> P x)"

lemma yieldsD: "yields P r \<Longrightarrow> r = Inr (x, rest) \<Longrightarrow> P x"
  unfolding yields_def by blast

lemma yields_bind:
  assumes "yields Q r" and "\<And>x buf. Q x \<Longrightarrow> yields P (f x buf)"
  shows "yields P (bind_result r (\<lambda>(x, buf). f x buf))"
proof (cases r)
  case (Inr y)
  then obtain x buf where "r = Inr (x, buf)" by (cases y) simp
  with assms show ?thesis by (simp add: yieldsD)
qed (simp add: yields_def)

lemma yields_return: "P x \<Longrightarrow> yields P (Inr (x, buf))" "yields P (Inl e)"
  by (simp_all add: yields_def)

lemma yields_any: "yields (\<lambda>_. True) r"
  by (simp add: yields_def)

lemmas yields_seq = yields_bind [OF yields_any]
lemmas yields_int = yields_bind [where r = "zk_read_int buf" for buf, OF yields_any]

lemma yields_string: "yields short (zk_read_string buf)"
  unfolding zk_read_string_def
  by (rule yields_seq) (auto simp: yields_def read_upto_def)

lemma yields_read_n:
  "(\<And>buf. yields P (dec buf)) \<Longrightarrow> yields (\<lambda>xs. length xs = n \<and> list_all P xs) (read_n dec n buf)"
proof (induction n arbitrary: buf)
  case (Suc n)
  show ?case unfolding read_n.simps
    by (rule yields_bind [OF Suc.prems], rule yields_bind [OF Suc.IH [OF Suc.prems]]) (simp add: yields_return)
qed (simp add: yields_return)

lemma yields_acl: "yields acl_ok (zk_read_acl buf)"
  unfolding zk_read_acl_def
  by (rule yields_seq, rule yields_bind [OF yields_string], rule yields_bind [OF yields_string])
    (simp add: yields_return acl_ok_def)

lemma yields_acls: "yields (\<lambda>al. short al \<and> list_all acl_ok al) (zk_read_vector zk_read_acl buf)"
  unfolding zk_read_vector_def
proof (rule yields_seq)
  fix size :: i32 and buf
  let ?n = "nat (sint size)"
  have "yields (\<lambda>al. length al = ?n \<and> list_all acl_ok al) (read_n zk_read_acl ?n buf)"
    by (rule yields_read_n) (rule yields_acl)
  then show "yields (\<lambda>al. short al \<and> list_all acl_ok al)
      (if sint size < 0 then Inl MarshallingError
       else if sint size > MAX_STRING_OR_ARRAY_SIZE then Inl MarshallingError
       else read_n zk_read_acl ?n buf)"
    by (auto simp: yields_def)
qed

definition received :: "op_num \<Rightarrow> zk_request \<Rightarrow> bool" where
  "received op r \<longleftrightarrow> getOpNum (rq_body r) = op \<and> wire_sub r"

lemma yields_watched:
  assumes "\<And>w path. short path \<Longrightarrow> received op (ZkRequest 0 w (mk path))"
  shows "yields (received op) (read_watched mk buf)"
  unfolding read_watched_def
  by (rule yields_bind [OF yields_string], rule yields_seq) (simp add: yields_return assms)

lemma yields_readImpl: "yields (received op) (readImpl op buf)"
  by (cases op; simp only: readImpl.simps)
    (auto intro!: yields_return yields_watched yields_bind [OF yields_string] yields_bind [OF yields_acls]
      yields_int simp: received_def)

lemma yields_multi: "yields (list_all wire_sub) (read_multi buf)"
proof (induction buf rule: read_multi.induct)
  case (1 buf)
  show ?case
  proof (cases "read_header buf")
    case (Inl e)
    then show ?thesis by (simp add: read_multi.simps yields_def)
  next
    case (Inr y)
    then obtain op fin err b where h: "read_header buf = Inr ((op, fin, err), b)" by (cases y) auto
    show ?thesis
    proof (cases fin)
      case True
      then show ?thesis by (simp add: read_multi.simps [of buf] h yields_return)
    next
      case False
      have sub: "yields wire_sub (read_body op b)"
        using "1.IH"(1) [OF h refl refl refl False] yields_readImpl [of op b]
        by (cases "op = OpMulti")
          (auto simp: read_body_def yields_def received_def bind_result_Inr)
      have rest: "yields (list_all wire_sub) (read_multi b')" if "read_body op b = Inr (r, b')" "b' \<noteq> []" for r b'
        using "1.IH"(2) [OF h refl refl refl False that(1) [unfolded read_body_def] refl that(2)] .
      show ?thesis
      proof (cases "read_body op b")
        case (Inl e)
        then show ?thesis using False by (simp add: read_multi.simps [of buf] h read_body_def [symmetric] yields_def)
      next
        case (Inr z)
        then obtain r b' where r: "read_body op b = Inr (r, b')" by (cases z) simp
        have "wire_sub r" using sub r by (rule yieldsD)
        then show ?thesis using rest [OF r] False r
          by (auto simp: read_multi.simps [of buf] h read_body_def [symmetric] yields_def bind_result_Inr)
      qed
    qed
  qed
qed

lemma yields_body: "yields (received op) (read_body op buf)"
proof (cases "op = OpMulti")
  case True
  then show ?thesis unfolding read_body_def
    by (auto intro!: yields_bind [OF yields_multi] yields_return simp: received_def)
qed (simp add: read_body_def yields_readImpl)

lemma received_wire_ok: "receiveRequest buf = Inr (r, rest) \<Longrightarrow> wire_ok r"
proof -
  have "yields wire_ok (receiveRequest buf)" unfolding receiveRequest_def
    by (rule yields_seq, rule yields_seq, rule yields_seq, rule yields_bind [OF yields_body])
      (auto intro!: yields_return simp: received_def wire_ok_def elim: wire_sub.elims)
  then show "receiveRequest buf = Inr (r, rest) \<Longrightarrow> wire_ok r" by (rule yieldsD)
qed

text \<open>
  C14. A request reaches every replica as the client sent it: whatever bytes a client sends, a request that the
  server accepts from them, once written to the log with its session, is parsed from the log entry as
  that session and that request, sub-requests of a multi request, flags, watches and access lists
  included; and the server's own requests survive too, when they fit the format.
\<close>

theorem log_entry_roundtrip:
  assumes "receiveRequest buf = Inr (r, rest) \<or> wire_ok r"
  shows "parseRequest (getZooKeeperLogEntry sid r) = Inr (sid, r)"
  using assms received_wire_ok log_entry_read by blast

definition sample_request :: zk_request where
  "sample_request = ZkRequest 7 False (MultiRequest
     [ZkRequest 0 False (CreateRequest ''/a'' ''x'' [\<lparr>permissions = 31, scheme_name = ''world'', acl_id = ''anyone''\<rparr>] True True),
      ZkRequest 0 True (ExistsRequest ''/b''),
      ZkRequest 0 False (MultiRequest [ZkRequest 0 False (RemoveRequest ''/c'' (- 1))])])"

lemma sample_request_ok: "wire_ok sample_request"
  by (simp add: sample_request_def wire_ok_def acl_ok_def)

theorem log_entry_roundtrip_witness:
  "wire_ok sample_request \<and> parseRequest (getZooKeeperLogEntry 5 sample_request) = Inr (5, sample_request)"
  using sample_request_ok log_entry_roundtrip [of "[]" sample_request "[]" 5] by blast

end
