(* ===== verification/Keeper_Replicas.thy ===== *)
theory Keeper_Replicas
  imports Keeper_Requests
begin

text \<open>
  Storages that hold the same tree answer requests alike.  Two storages may differ in the order of the list behind the
  table, in outdated elements, in the order in which a session's ephemeral nodes are recorded, in watches
  and in deadlines; when they have the same nodes, the same ephemeral nodes, the same timeouts and the same session
  counter, a log entry changes both in the same way.  This is what lets a replica, or a server that
  loads a snapshot, go on from there.
\<close>

section \<open>Tables with the same content\<close>

definition same_table :: "container \<Rightarrow> container \<Rightarrow> bool" where
  "same_table c c' \<longleftrightarrow> tb_inv c \<and> tb_inv c' \<and> tb_find c = tb_find c'"

lemma same_tableD:
  assumes "same_table c c'"
  shows "tb_inv c" "tb_inv c'" "tb_find c' = tb_find c" "tb_contains p c' = tb_contains p c"
  using assms by (simp_all add: same_table_def tb_contains_find)

lemma same_table_insert: "same_table c c' \<Longrightarrow> same_table (snd (tb_insert p n c)) (snd (tb_insert p n c'))"
  by (simp add: same_table_def kt.insert_inv kt.insert_lookup)

lemma same_table_erase: "same_table c c' \<Longrightarrow> same_table (snd (tb_erase p c)) (snd (tb_erase p c'))"
  by (simp add: same_table_def kt.erase_inv kt.erase_lookup)

lemma same_table_update:
  assumes "same_table c c'"
  shows "rel_option same_table (update_node p f c) (update_node p f c')"
proof (cases "tb_find c p")
  case None
  then show ?thesis using same_tableD [OF assms] by (simp add: update_node_def kt.update_missing)
next
  case (Some n)
  obtain d d' where "update_node p f c = Some d" "tb_inv d" "tb_find d = (tb_find c)(p \<mapsto> f n)"
      "update_node p f c' = Some d'" "tb_inv d'" "tb_find d' = (tb_find c)(p \<mapsto> f n)"
    using update_node_Some [of c p n f] update_node_Some [of c' p n f] same_tableD [OF assms] Some by metis
  then show ?thesis by (simp add: same_table_def)
qed

lemma same_table_updateE [consumes 1, case_names undef defined]:
  assumes "same_table c c'"
  obtains (undef) "update_node p f c = None" "update_node p f c' = None"
  | (defined) d d' where "update_node p f c = Some d" "update_node p f c' = Some d'" "same_table d d'"
  using same_table_update [OF assms, of p f] by (cases "update_node p f c"; cases "update_node p f c'") auto

definition same_eph :: "ephemerals \<Rightarrow> ephemerals \<Rightarrow> bool" where
  "same_eph e e' \<longleftrightarrow> (\<forall>s. set (sets_at e s) = set (sets_at e' s)) \<and> eph_distinct e \<and> eph_distinct e'"

lemma same_store_parts: "same_store (c, e) (c', e') \<longleftrightarrow> same_table c c' \<and> same_eph e e'"
  by (auto simp: same_store_def same_table_def same_eph_def)

lemma same_eph_emplace: "same_eph e e' \<Longrightarrow> same_eph (sets_emplace s p e) (sets_emplace s p e')"
  by (simp add: same_eph_def sets_at_emplace)

lemma same_eph_erase: "same_eph e e' \<Longrightarrow> same_eph (sets_erase s p e) (sets_erase s p e')"
  by (simp add: same_eph_def sets_at_erase)

lemma same_eph_delete: "same_eph e e' \<Longrightarrow> same_eph (AList.delete s e) (AList.delete s e')"
  by (simp add: same_eph_def sets_at_delete)

section \<open>Requests on the same content\<close>

text \<open>
  The same error code, the same undo action and the same content.  The responses themselves may differ in one
  case: the statistics that \<^verbatim>\<open>Set\<close> of the root answers with are read before or after the parent, which is the root
  again, was updated, depending on the snapshot mode of the table.
\<close>

definition same_answer :: "processed \<Rightarrow> processed \<Rightarrow> bool" where
  "same_answer = rel_option (\<lambda>(r, u, st) (r', u', st'). rs_error r' = rs_error r \<and> u' = u \<and> same_store st st')"

lemma same_answer_answer: "same_store st st' \<Longrightarrow> same_answer (answer r st) (answer r st')"
  by (simp add: same_answer_def answer_def)

lemma create_same:
  assumes "same_store st st'"
  shows "same_answer (process_create now zxid s path content al eph seq st)
    (process_create now zxid s path content al eph seq st')"
proof -
  obtain c e c' e' where st: "st = (c, e)" "st' = (c', e')" by (cases st; cases st')
  have t: "same_table c c'" "same_eph e e'" using assms by (simp_all add: st same_store_parts)
  note d = same_tableD [OF t(1)]
  have fail: "same_answer (answer r (c, e)) (answer r (c', e'))" for r
    using assms same_answer_answer by (simp add: st)
  show ?thesis
  proof (cases "tb_find c (parentPath path)")
    case None
    then show ?thesis using fail d by (simp add: process_create_def st Let_def)
  next
    case (Some parent)
    define p where "p = (if seq then path @ seq_num_str (seq_num parent) else path)"
    from t(1) show ?thesis
    proof (cases rule: same_table_updateE [where p = "parentPath path" and f = "child_added (getBaseName p)"])
      case undef
      then show ?thesis using fail d Some by (simp add: process_create_def st Let_def p_def same_answer_def)
    next
      case (defined c1 c1')
      let ?n = "created_node_of now zxid s content eph seq"
      have "same_table (snd (tb_insert p ?n c1)) (snd (tb_insert p ?n c1'))"
        by (rule same_table_insert [OF defined(3)])
      moreover have "same_eph (if eph then sets_emplace s p e else e) (if eph then sets_emplace s p e' else e')"
        using t(2) same_eph_emplace by simp
      ultimately show ?thesis using defined(1,2) fail d Some
        by (cases eph; simp add: process_create_def st Let_def p_def [symmetric]; simp add: same_answer_def same_store_parts)
    qed
  qed
qed

lemma remove_same:
  assumes "same_store st st'" and "store_inv st"
  shows "same_answer (process_remove path ver st) (process_remove path ver st')"
proof -
  obtain c e c' e' where st: "st = (c, e)" "st' = (c', e')" by (cases st; cases st')
  have t: "same_table c c'" "same_eph e e'" using assms by (simp_all add: st same_store_parts)
  note d = same_tableD [OF t(1)]
  have fail: "same_answer (answer r (c, e)) (answer r (c', e'))" for r
    using assms same_answer_answer by (simp add: st)
  show ?thesis
  proof (cases "tb_find c path")
    case None
    then show ?thesis using fail d by (simp add: process_remove_def st Let_def)
  next
    case (Some n)
    define erased where "erased = (\<lambda>e. if owner n \<noteq> 0 then
        (case map_of e (owner n) of None \<Rightarrow> None
         | Some ps \<Rightarrow> Some (if removeAll path ps = [] then AList.delete (owner n) e
                           else AList.update (owner n) (removeAll path ps) e))
        else Some e)"
    have er: "\<exists>x. erased x0 = Some x \<and> eph_distinct x \<and>
        (\<forall>s. set (sets_at x s) = (if owner n \<noteq> 0 \<and> s = owner n then set (sets_at x0 s) - {path} else set (sets_at x0 s)))"
      if dx: "eph_distinct x0" and px: "owner n \<noteq> 0 \<Longrightarrow> path \<in> set (sets_at x0 (owner n))" for x0
    proof (cases "owner n = 0")
      case False
      then obtain ps where ps: "map_of x0 (owner n) = Some ps" using px by (cases "map_of x0 (owner n)") (simp_all add: sets_at_def)
      then have at: "sets_at x0 (owner n) = ps" by (simp add: sets_at_def)
      have "eph_distinct (AList.update (owner n) (removeAll path ps) x0)"
        using eph_distinct_simps(4) [OF dx, of "owner n" path] at by simp
      moreover have "set ps - {path} = {}" if "removeAll path ps = []" using that by (metis set_empty set_removeAll)
      ultimately show ?thesis using ps at dx False
        by (cases "removeAll path ps = []") (simp_all add: erased_def sets_at_delete sets_at_update)
    qed (use dx in \<open>simp add: erased_def\<close>)
    have own: "path \<in> set (sets_at e (owner n))" if "owner n \<noteq> 0"
      using assms(2) Some that by (auto simp: st store_inv_def eph_ok_def)
    have "same_eph x x'" if "erased e = Some x" "erased e' = Some x'" for x x'
      using er [of e] er [of e'] own t(2) that by (auto simp: same_eph_def)
    moreover obtain x x' where x: "erased e = Some x" "erased e' = Some x'"
      using er [of e] er [of e'] own t(2) by (auto simp: same_eph_def)
    ultimately have eph: "same_eph x x'" by blast
    have rem: "process_remove path ver (c0, e0) =
        (if ver \<noteq> - 1 \<and> ver \<noteq> version (stat_of n) then answer (response_error (RemoveRequest path ver) ZBADVERSION) (c0, e0)
         else if numChildren (stat_of n) \<noteq> 0 then answer (response_error (RemoveRequest path ver) ZNOTEMPTY) (c0, e0)
         else case erased e0 of None \<Rightarrow> None
           | Some e1 \<Rightarrow> (case update_node (parentPath path) (child_removed (getBaseName path)) c0 of None \<Rightarrow> None
               | Some c1 \<Rightarrow> Some (response_ok RemoveResponse, UndoRemove n path (getBaseName path), (snd (tb_erase path c1), e1))))"
      if "tb_find c0 path = Some n" for c0 e0
      unfolding process_remove_def erased_def Let_def prod.case that option.case by (rule refl)
    from t(1) show ?thesis
    proof (cases rule: same_table_updateE [where p = "parentPath path" and f = "child_removed (getBaseName path)"])
      case undef
      then show ?thesis using fail d Some x by (simp add: st rem) (simp add: same_answer_def)
    next
      case (defined c1 c1')
      have "same_table (snd (tb_erase path c1)) (snd (tb_erase path c1'))"
        by (rule same_table_erase [OF defined(3)])
      then show ?thesis using defined(1,2) fail d Some x eph
        by (simp add: st rem) (simp add: same_answer_def same_store_parts)
    qed
  qed
qed

lemma update_node_deref:
  assumes "tb_inv c" and "update_node p f c = Some d" and "tb_deref i c \<noteq> None"
  shows "tb_deref i d \<noteq> None"
proof -
  obtain j where "tb_updateValue p f c = Some (j, d)" using assms(2) by (auto simp: update_node_def)
  then show ?thesis by (rule tb_deref_kept [OF assms(1) _ assms(3)])
qed

lemma set_same:
  assumes "same_store st st'"
  shows "same_answer (process_set now zxid path content ver st) (process_set now zxid path content ver st')"
proof -
  obtain c e c' e' where st: "st = (c, e)" "st' = (c', e')" by (cases st; cases st')
  have t: "same_table c c'" "same_eph e e'" using assms by (simp_all add: st same_store_parts)
  note d = same_tableD [OF t(1)]
  have fail: "same_answer (answer r (c, e)) (answer r (c', e'))" for r
    using assms same_answer_answer by (simp add: st)
  show ?thesis
  proof (cases "\<exists>n. tb_find c path = Some n \<and> (ver = - 1 \<or> ver = version (stat_of n))")
    case False
    then show ?thesis using fail d by (cases "tb_find c path") (auto simp: process_set_def st)
  next
    case True
    then obtain n where n: "tb_find c path = Some n" "ver = - 1 \<or> ver = version (stat_of n)" by blast
    obtain i c1 where c1: "tb_updateValue path (written now zxid content) c = Some (i, c1)" "tb_inv c1"
        "tb_find c1 = (tb_find c)(path \<mapsto> written now zxid content n)" "tb_deref i c1 \<noteq> None"
      using kt.update_ex [OF d(1) n(1)] by blast
    obtain i' c1' where c1': "tb_updateValue path (written now zxid content) c' = Some (i', c1')" "tb_inv c1'"
        "tb_find c1' = (tb_find c)(path \<mapsto> written now zxid content n)" "tb_deref i' c1' \<noteq> None"
      using kt.update_ex [OF d(2), unfolded d(3), OF n(1)] by blast
    have "same_table c1 c1'" using c1 c1' by (simp add: same_table_def)
    then show ?thesis
    proof (cases rule: same_table_updateE [where p = "parentPath path" and f = "on_stat (\<lambda>s. s\<lparr>cversion := cversion s + 1\<rparr>)"])
      case undef
      then show ?thesis using n c1(1) c1'(1) d by (simp add: process_set_def st same_answer_def)
    next
      case (defined c2 c2')
      have "tb_deref i c2 \<noteq> None" "tb_deref i' c2' \<noteq> None"
        using update_node_deref [OF c1(2) defined(1) c1(4)] update_node_deref [OF c1'(2) defined(2) c1'(4)] .
      then show ?thesis using defined n c1(1) c1'(1) d t(2)
        by (auto simp: process_set_def st same_answer_def same_store_parts)
    qed
  qed
qed

lemma concrete_same:
  assumes "same_store st st'" and "store_inv st"
  shows "same_answer (process_concrete now zxid s q st) (process_concrete now zxid s q st')"
proof (cases q)
  case (ConcreteCheck path ver)
  have "tb_find (fst st') = tb_find (fst st)" using assms(1) by (simp add: same_store_def)
  then show ?thesis using same_answer_answer [OF assms(1)]
    by (cases "tb_find (fst st) path") (simp_all add: ConcreteCheck process_check_def)
qed (use assms in \<open>simp_all add: create_same remove_same set_same\<close>)

lemma run_undo_same:
  assumes "same_store st st'"
  shows "rel_option same_store (run_undo u st) (run_undo u st')"
proof -
  obtain c e c' e' where st: "st = (c, e)" "st' = (c', e')" by (cases st; cases st')
  have t: "same_table c c'" "same_eph e e'" using assms by (simp_all add: st same_store_parts)
  have upd: "rel_option same_store (map_option (\<lambda>c2. (c2, x)) (update_node p f d)) (map_option (\<lambda>c2. (c2, x')) (update_node p f d'))"
    if "same_table d d'" "same_eph x x'" for d d' x x' p f
    using that(1) by (cases rule: same_table_updateE [where p = p and f = f]) (simp_all add: same_store_parts that(2))
  show ?thesis
  proof (cases u)
    case NoUndo
    then show ?thesis using assms by simp
  next
    case (UndoCreate sid path_created eph parent child)
    have "same_eph (if eph then sets_erase sid path_created e else e) (if eph then sets_erase sid path_created e' else e')"
      using t(2) same_eph_erase by simp
    then show ?thesis using upd [OF same_table_erase [OF t(1)]]
      by (simp only: UndoCreate run_undo.simps undo_create_def st Let_def prod.case)
  next
    case (UndoRemove n path child)
    have "same_eph (if owner n \<noteq> 0 then sets_emplace (owner n) path e else e)
        (if owner n \<noteq> 0 then sets_emplace (owner n) path e' else e')"
      using t(2) same_eph_emplace by simp
    then show ?thesis using upd [OF same_table_insert [OF t(1)]]
      by (simp only: UndoRemove run_undo.simps undo_remove_def st Let_def prod.case)
  next
    case (UndoSet n path)
    from t(1) show ?thesis
      by (cases rule: same_table_updateE [where p = path and f = "\<lambda>_. n"])
        (simp_all add: UndoSet undo_set_def st upd t(2))
  qed
qed

lemma run_undos_same: "same_store st st' \<Longrightarrow> rel_option same_store (run_undos us st) (run_undos us st')"
proof (induction us arbitrary: st st')
  case (Cons u us)
  from run_undo_same [OF Cons.prems, of u] show ?case
    by (cases "run_undo u st"; cases "run_undo u st'") (simp_all add: Cons.IH)
qed simp

definition same_responses :: "(zk_response list \<times> store) option \<Rightarrow> (zk_response list \<times> store) option \<Rightarrow> bool" where
  "same_responses = rel_option (\<lambda>(rs, st) (rs', st'). map rs_error rs' = map rs_error rs \<and> same_store st st')"

lemma multi_same:
  assumes "same_store st st'" and "store_inv st" and "multi_ok clock zxid s i qs st"
    and "map rs_error responses' = map rs_error responses"
  shows "same_responses (multi_loop clock zxid s i qs responses us st) (multi_loop clock zxid s i qs responses' us st')"
  using assms
proof (induction qs arbitrary: i responses responses' us st st')
  case Nil
  then show ?case by (simp add: same_responses_def)
next
  case (Cons q qs)
  have ok: "concrete_ok s q st" using Cons.prems(3) by simp
  obtain r u st1 where pr: "process_concrete (clock i) zxid s q st = Some (r, u, st1)"
      and step: "if rs_error r = ZOK then store_inv st1 \<and> undoes u st1 st else u = NoUndo \<and> st1 = st"
    using concrete_step [OF Cons.prems(2) ok] unfolding step_ok_def by blast
  obtain r' st1' where pr': "process_concrete (clock i) zxid s q st' = Some (r', u, st1')"
      "rs_error r' = rs_error r" "same_store st1 st1'"
    using concrete_same [OF Cons.prems(1,2), of "clock i" zxid s q] pr
    by (cases "process_concrete (clock i) zxid s q st'") (auto simp: same_answer_def)
  show ?case
  proof (cases "rs_error r = ZOK")
    case True
    have "same_responses (multi_loop clock zxid s (Suc i) qs (responses @ [r]) (u # us) st1)
        (multi_loop clock zxid s (Suc i) qs (responses' @ [r']) (u # us) st1')"
      using Cons.prems(3,4) pr pr'(2) step True by (intro Cons.IH [OF pr'(3)]) simp_all
    then show ?thesis using pr pr' True by simp
  next
    case False
    have "map rs_error (responses' @ [r']) = map rs_error (responses @ [r])" using Cons.prems(4) pr'(2) by simp
    then have "map error_response (map rs_error (responses' @ [r'])) = map error_response (map rs_error (responses @ [r]))"
      by (rule arg_cong)
    then have "map (\<lambda>r. error_response (rs_error r)) (responses' @ [r']) = map (\<lambda>r. error_response (rs_error r)) (responses @ [r])"
      by (simp add: comp_def)
    then show ?thesis using run_undos_same [OF pr'(3), of us] pr pr' False
      by (cases "run_undos us st1"; cases "run_undos us st1'") (auto simp: same_responses_def)
  qed
qed

definition same_outcome :: "outcome \<Rightarrow> outcome \<Rightarrow> bool" where
  "same_outcome = rel_option (rel_sum (=) (\<lambda>(r, u, st) (r', u', st'). rs_error r' = rs_error r \<and> same_store st st'))"

lemma same_outcome_no_throw: "same_answer p p' \<Longrightarrow> same_outcome (no_throw p) (no_throw p')"
  by (cases p; cases p') (auto simp: same_answer_def same_outcome_def no_throw_def)

lemma same_outcome_list:
  assumes "same_store st st'"
  shows "same_outcome (process_list body path st) (process_list body path st')"
proof -
  have "tb_find (fst st') = tb_find (fst st)" using assms by (simp add: same_store_def)
  then show ?thesis using assms
    by (cases "tb_find (fst st) path") (simp_all add: process_list_def same_outcome_def)
qed

lemma same_answer_look:
  assumes "same_store st st'"
  shows "same_answer (process_exists path st) (process_exists path st')"
    and "same_answer (process_get path st) (process_get path st')"
    and "same_answer (process_check path ver st) (process_check path ver st')"
proof -
  have "tb_find (fst st') = tb_find (fst st)" using assms by (simp add: same_store_def)
  then show "same_answer (process_exists path st) (process_exists path st')"
    and "same_answer (process_get path st) (process_get path st')"
    and "same_answer (process_check path ver st) (process_check path ver st')"
    using same_answer_answer [OF assms]
    by (cases "tb_find (fst st) path"; simp add: process_exists_def process_get_def process_check_def)+
qed

lemma process_same:
  assumes "same_store st st'" and "store_inv st" and "request_ok clock zxid s body st"
  shows "same_outcome (process clock zxid s body st) (process clock zxid s body st')"
proof (cases body)
  case (MultiRequest requests)
  show ?thesis
  proof (cases "concrete_requests requests")
    case (Inl ex)
    then show ?thesis by (simp add: MultiRequest process_multi_def same_outcome_def)
  next
    case (Inr qs)
    then have "same_responses (multi_loop clock zxid s 0 qs [] [] st) (multi_loop clock zxid s 0 qs [] [] st')"
      using assms by (intro multi_same) (simp_all add: MultiRequest)
    then show ?thesis using Inr
      by (cases "multi_loop clock zxid s 0 qs [] [] st"; cases "multi_loop clock zxid s 0 qs [] [] st'")
        (auto simp: MultiRequest process_multi_def same_responses_def same_outcome_def)
  qed
qed (use assms in \<open>simp_all add: same_outcome_no_throw same_answer_answer same_answer_look same_outcome_list
      create_same remove_same set_same\<close>, simp_all add: same_outcome_def)

section \<open>Closing a session on the same content\<close>

text \<open>The order in which the ephemeral nodes of a session are removed does not matter.\<close>

definition drop_node :: "string \<Rightarrow> forest \<Rightarrow> forest" where
  "drop_node p T = (let T1 = T(p := None) in
     T1(parentPath p := map_option (child_removed (getBaseName p)) (T1 (parentPath p))))"

lemma child_removed_commute: "child_removed a (child_removed b n) = child_removed b (child_removed a n)"
proof -
  have "children n - {b} - {a} = children n - {a} - {b}" by blast
  then show ?thesis by (simp add: child_removed_def)
qed

lemma drop_node_commute: "drop_node p \<circ> drop_node q = drop_node q \<circ> drop_node p"
proof (intro ext)
  fix T x
  show "(drop_node p \<circ> drop_node q) T x = (drop_node q \<circ> drop_node p) T x"
    by (auto simp: drop_node_def Let_def option.map_comp comp_def child_removed_commute)
qed

lemma close_ephemerals_find:
  assumes "tb_inv c" and "close_ephemerals paths (c, w) = Some (rs, c', w')"
  shows "tb_inv c' \<and> tb_find c' = fold drop_node paths (tb_find c)"
  using assms
proof (induction paths arbitrary: c w rs)
  case (Cons p paths)
  let ?c = "snd (tb_erase p c)"
  have inv: "tb_inv ?c" and find: "tb_find ?c = (tb_find c)(p := None)"
    using kt.erase_inv [OF Cons.prems(1)] kt.erase_lookup [OF Cons.prems(1)] by simp_all
  obtain c1 where c1: "update_node (parentPath p) (child_removed (getBaseName p)) ?c = Some c1"
    using Cons.prems(2) by (auto split: option.splits)
  obtain r w1 where w1: "processWatchesImpl p DELETED w = (r, w1)" by (rule prod.exhaust)
  obtain rs1 where rec: "close_ephemerals paths (c1, w1) = Some (rs1, c', w')"
    using Cons.prems(2) c1 w1 by auto
  obtain n where n: "tb_find ?c (parentPath p) = Some n"
    using c1 kt.update_missing [OF inv] by (cases "tb_find ?c (parentPath p)") (auto simp: update_node_def)
  have "tb_inv c1 \<and> tb_find c1 = drop_node p (tb_find c)"
    using update_node_Some [OF inv n, of "child_removed (getBaseName p)"] c1 n
    unfolding find by (simp add: drop_node_def Let_def)
  then show ?case using Cons.IH [OF _ rec] by simp
qed simp

lemma drop_nodes_permuted:
  assumes "set ps = set qs" and "distinct ps" and "distinct qs"
  shows "fold drop_node ps = fold drop_node qs"
proof (rule fold_multiset_equiv)
  show "mset ps = mset qs" using assms by (simp add: set_eq_iff_mset_eq_distinct)
qed (rule drop_node_commute)

section \<open>Whole requests on the same content\<close>

definition same_storage :: "keeper_storage \<Rightarrow> keeper_storage \<Rightarrow> bool" where
  "same_storage ks ks' \<longleftrightarrow>
     same_store (ks_container ks, ks_ephemerals ks) (ks_container ks', ks_ephemerals ks')
     \<and> map_of (session_and_timeout ks) = map_of (session_and_timeout ks')
     \<and> session_id_counter ks = session_id_counter ks'"

lemma same_storageD:
  assumes "same_storage ks ks'"
  shows "same_store (ks_container ks, ks_ephemerals ks) (ks_container ks', ks_ephemerals ks')"
    and "same_table (ks_container ks) (ks_container ks')" and "same_eph (ks_ephemerals ks) (ks_ephemerals ks')"
    and "map_of (session_and_timeout ks') = map_of (session_and_timeout ks)"
    and "session_id_counter ks' = session_id_counter ks"
  using assms by (simp_all add: same_storage_def same_store_parts)

lemma same_storage_touch:
  "same_storage ks ks' \<Longrightarrow> same_storage (touch_session now s ks) (touch_session now' s ks')"
  by (auto simp: same_storage_def touch_session_def Let_def update_conv' fun_eq_iff split: option.splits)

definition same_requested :: "requested \<Rightarrow> requested \<Rightarrow> bool" where
  "same_requested = rel_option (rel_sum (\<lambda>(ex, ks) (ex', ks'). ex = ex' \<and> same_storage ks ks') (\<lambda>(rs, ks) (rs', ks'). same_storage ks ks'))"

lemma same_storage_watches:
  "ks_container (register_watch s request err ks) = ks_container ks"
  "ks_ephemerals (register_watch s request err ks) = ks_ephemerals ks"
  "session_and_timeout (register_watch s request err ks) = session_and_timeout ks"
  "session_id_counter (register_watch s request err ks) = session_id_counter ks"
  by (simp_all add: register_watch_def Let_def)

lemma run_request_same:
  assumes "same_storage ks ks'" and "store_inv (ks_container ks, ks_ephemerals ks)" and "ks_zxid ks' = ks_zxid ks"
    and "request_ok clock (ks_zxid ks) s (rq_body request) (ks_container ks, ks_ephemerals ks)"
  shows "same_requested (run_request clock s request ks) (run_request clock s request ks')"
proof -
  note d = same_storageD [OF assms(1)]
  let ?p = "process clock (ks_zxid ks) s (rq_body request) (ks_container ks, ks_ephemerals ks)"
  let ?p' = "process clock (ks_zxid ks) s (rq_body request) (ks_container ks', ks_ephemerals ks')"
  have "same_outcome ?p ?p'" by (rule process_same [OF d(1) assms(2,4)])
  then consider "?p = None" "?p' = None" | ex where "?p = Some (Inl ex)" "?p' = Some (Inl ex)"
    | r u c e r' u' c' e' where "?p = Some (Inr (r, u, c, e))" "?p' = Some (Inr (r', u', c', e'))"
        "rs_error r' = rs_error r" "same_store (c, e) (c', e')"
    by (cases ?p; cases ?p') (auto simp: same_outcome_def elim!: rel_sum.cases)
  then show ?thesis
  proof cases
    case 3
    show ?thesis using 3 d assms(3)
      by (auto simp: run_request_def same_requested_def same_storage_def same_storage_watches Let_def split: prod.splits)
  qed (use assms in \<open>simp_all add: run_request_def same_requested_def\<close>)
qed

lemma clearDeadWatches_rest:
  "session_and_timeout (clearDeadWatches s ks) = session_and_timeout ks"
  "session_id_counter (clearDeadWatches s ks) = session_id_counter ks"
  by (simp_all add: clearDeadWatches_def split: option.splits)

lemma close_session_store:
  assumes "tb_inv (ks_container ks)" and "close_session s xid ks = Some (rs, ks')"
  shows "tb_inv (ks_container ks')"
    and "tb_find (ks_container ks') = fold drop_node (sets_at (ks_ephemerals ks) s) (tb_find (ks_container ks))"
    and "ks_ephemerals ks' = AList.delete s (ks_ephemerals ks)"
    and "session_and_timeout ks' = AList.delete s (session_and_timeout ks)"
    and "session_id_counter ks' = session_id_counter ks"
proof -
  let ?goal = "tb_inv (ks_container ks')
    \<and> tb_find (ks_container ks') = fold drop_node (sets_at (ks_ephemerals ks) s) (tb_find (ks_container ks))
    \<and> ks_ephemerals ks' = AList.delete s (ks_ephemerals ks)
    \<and> session_and_timeout ks' = AList.delete s (session_and_timeout ks) \<and> session_id_counter ks' = session_id_counter ks"
  have ?goal
  proof (cases "map_of (ks_ephemerals ks) s")
    case None
    have "AList.delete s (ks_ephemerals ks) = ks_ephemerals ks" using None by (simp add: map_of_eq_None_iff)
    moreover have "sets_at (ks_ephemerals ks) s = []" using None by (simp add: sets_at_def)
    ultimately show ?thesis using assms None by (auto simp: close_session_def Let_def clearDeadWatches_rest)
  next
    case (Some paths)
    obtain rs1 c ws lws where cl: "close_ephemerals paths (ks_container ks, ks_watches ks, list_watches ks) = Some (rs1, c, ws, lws)"
      using assms(2) Some by (auto simp: close_session_def Let_def)
    have "sets_at (ks_ephemerals ks) s = paths" using Some by (simp add: sets_at_def)
    then show ?thesis using assms(2) Some cl close_ephemerals_find [OF assms(1) cl]
      by (auto simp: close_session_def Let_def clearDeadWatches_rest)
  qed
  then show "tb_inv (ks_container ks')"
    and "tb_find (ks_container ks') = fold drop_node (sets_at (ks_ephemerals ks) s) (tb_find (ks_container ks))"
    and "ks_ephemerals ks' = AList.delete s (ks_ephemerals ks)"
    and "session_and_timeout ks' = AList.delete s (session_and_timeout ks)"
    and "session_id_counter ks' = session_id_counter ks" by simp_all
qed

lemma same_store_sym: "same_store st st' \<Longrightarrow> same_store st' st"
  by (simp add: same_store_def)

lemma close_session_defined:
  assumes "store_inv (ks_container ks, ks_ephemerals ks)"
  shows "\<exists>rs ks'. close_session s xid ks = Some (rs, ks')"
proof (cases "map_of (ks_ephemerals ks) s")
  case (Some paths)
  then have "sets_at (ks_ephemerals ks) s = paths" by (simp add: sets_at_def)
  then obtain rs c w where "close_ephemerals paths (ks_container ks, ks_watches ks, list_watches ks) = Some (rs, c, w)"
    using close_store_ex [OF assms, of s "(ks_watches ks, list_watches ks)"] by auto
  then show ?thesis using Some by (cases w) (simp add: close_session_def Let_def)
qed (simp add: close_session_def Let_def)

lemma close_session_same:
  assumes "same_storage ks ks'" and "store_inv (ks_container ks, ks_ephemerals ks)"
  shows "same_requested (map_option Inr (close_session s xid ks)) (map_option Inr (close_session s xid ks'))"
proof -
  note d = same_storageD [OF assms(1)]
  have inv': "store_inv (ks_container ks', ks_ephemerals ks')"
    by (rule same_store_inv [OF same_store_sym [OF d(1)] assms(2)])
  obtain rs ks1 where c: "close_session s xid ks = Some (rs, ks1)" using close_session_defined [OF assms(2)] by blast
  obtain rs' ks1' where c': "close_session s xid ks' = Some (rs', ks1')" using close_session_defined [OF inv'] by blast
  note t = same_tableD [OF d(2)]
  note f = close_session_store [OF t(1) c] and f' = close_session_store [OF t(2) c']
  have "fold drop_node (sets_at (ks_ephemerals ks) s) = fold drop_node (sets_at (ks_ephemerals ks') s)"
    using d(3) by (intro drop_nodes_permuted) (simp_all add: same_eph_def eph_distinct_def)
  then have "same_table (ks_container ks1) (ks_container ks1')"
    using f(1,2) f'(1,2) t(3) by (simp add: same_table_def)
  moreover have "same_eph (ks_ephemerals ks1) (ks_ephemerals ks1')"
    unfolding f(3) f'(3) by (rule same_eph_delete [OF d(3)])
  ultimately have "same_storage ks1 ks1'"
    using f(4,5) f'(4,5) d(4,5) by (simp add: same_storage_def same_store_parts delete_conv')
  then show ?thesis using c c' by (simp add: same_requested_def)
qed

lemma processRequest_same:
  assumes "same_storage ks ks'" and "store_inv (ks_container ks, ks_ephemerals ks)"
    and "sint (ks_zxid ks) < sint z" and "sint (ks_zxid ks') < sint z"
    and "request_ok clock z s (rq_body request) (ks_container ks, ks_ephemerals ks)"
  shows "same_requested (processRequest now clock request s (Some z) ks) (processRequest now' clock request s (Some z) ks')"
proof -
  define ks1 where "ks1 = touch_session now s (ks\<lparr>ks_zxid := z\<rparr>)"
  define ks1' where "ks1' = touch_session now' s (ks'\<lparr>ks_zxid := z\<rparr>)"
  have same: "same_storage ks1 ks1'"
    unfolding ks1_def ks1'_def using assms(1) by (intro same_storage_touch) (simp add: same_storage_def)
  have z: "ks_zxid ks1 = z" "ks_zxid ks1' = z" by (simp_all add: ks1_def ks1'_def)
  have st: "ks_container ks1 = ks_container ks" "ks_ephemerals ks1 = ks_ephemerals ks" by (simp_all add: ks1_def)
  have inv: "store_inv (ks_container ks1, ks_ephemerals ks1)" using assms(2) st by simp
  have p: "processRequest now clock request s (Some z) ks =
      (if getOpNum (rq_body request) = OpClose then map_option Inr (close_session s (rq_xid request) ks1) else run_request clock s request ks1)"
    using assms(3) by (simp add: processRequest_def advance_zxid_def ks1_def Let_def)
  have p': "processRequest now' clock request s (Some z) ks' =
      (if getOpNum (rq_body request) = OpClose then map_option Inr (close_session s (rq_xid request) ks1') else run_request clock s request ks1')"
    using assms(4) by (simp add: processRequest_def advance_zxid_def ks1'_def Let_def)
  have run: "same_requested (run_request clock s request ks1) (run_request clock s request ks1')"
    by (rule run_request_same [OF same]) (use inv z st assms(5) in simp_all)
  then show ?thesis using close_session_same [OF same inv] by (simp add: p p')
qed

lemma processRequest_zxid:
  assumes "processRequest now clock request s (Some z) ks = Some (Inr (rs, ks'))"
  shows "ks_zxid ks' = z" and "sint (ks_zxid ks) < sint z"
proof -
  have reg: "ks_zxid (register_watch t q err k) = ks_zxid k" for t q err k
    by (simp add: register_watch_def Let_def)
  have run: "ks_zxid k' = ks_zxid k" if "run_request clock s request k = Some (Inr (rs, k'))" for k k'
    using that by (auto simp: run_request_def Let_def reg split: option.splits sum.splits prod.splits if_splits)
  show "ks_zxid ks' = z" "sint (ks_zxid ks) < sint z"
    using assms run close_session_zxid
    by (auto simp: processRequest_def advance_zxid_def Let_def not_le split: if_splits)
qed

end
