(* ===== verification/Keeper_Machine.thy ===== *)
theory Keeper_Machine
  imports Keeper_Snapshot Keeper_Wire Keeper_Replicas
begin

text \<open>
  The replicated state machine of Keeper (\<^verbatim>\<open>Coordination/KeeperStateMachine.cpp\<close>): log entries are parsed and applied
  to the storage, snapshots are written while entries are applied, and a server that restarts loads a
  snapshot and applies the entries after it.  The readings of the clocks are arguments: \<open>now\<close> for deadlines,
  \<open>clock\<close> for the times that nodes record.
\<close>

section \<open>Committing log entries\<close>

datatype machine_error = ParseError bin_error | StorageError keeper_exception

definition session_response :: "i64 \<Rightarrow> session \<Rightarrow> i32 \<Rightarrow> zk_response" where
  "session_response internal_id sid server_id = ZkResponse 0 0 ZOK (SessionIDResponse internal_id sid server_id)"

text \<open>
  \<^verbatim>\<open>KeeperStateMachine::commit\<close> on the storage: the responses it queues and the new storage, or an
  exception with the storage as it was left.
\<close>

definition commit ::
  "int \<Rightarrow> (nat \<Rightarrow> i64) \<Rightarrow> 64 word \<Rightarrow> string \<Rightarrow> keeper_storage
     \<Rightarrow> (machine_error \<times> keeper_storage, responses_for_sessions \<times> keeper_storage) result option" where
  "commit now clock log_idx entry ks =
     (case parseRequest entry of
        Inl e \<Rightarrow> Some (Inl (ParseError e, ks))
      | Inr (s, request) \<Rightarrow>
          (case rq_body request of
             SessionIDRequest internal_id timeout server_id \<Rightarrow>
               let (sid, ks') = getSessionID now timeout ks
               in Some (Inr ([(- 1, session_response internal_id sid server_id)], ks'))
           | _ \<Rightarrow>
               map_option (map_sum (\<lambda>(ex, ks'). (StorageError ex, ks')) id)
                 (processRequest now clock request s (Some log_idx) ks)))"

text \<open>
  Entries applied one after the other, from position \<open>i\<close> of the readings of the clocks on; \<open>None\<close> when one of them
  throws or is undefined.
\<close>

type_synonym log_entries = "(64 word \<times> string) list"

fun commit_all :: "(nat \<Rightarrow> int) \<Rightarrow> (nat \<Rightarrow> nat \<Rightarrow> i64) \<Rightarrow> nat \<Rightarrow> log_entries \<Rightarrow> keeper_storage \<Rightarrow> keeper_storage option" where
  "commit_all nows clocks i [] ks = Some ks"
| "commit_all nows clocks i ((log_idx, entry) # entries) ks =
     (case commit (nows i) (clocks i) log_idx entry ks of
        Some (Inr (rs, ks')) \<Rightarrow> commit_all nows clocks (Suc i) entries ks'
      | _ \<Rightarrow> None)"

text \<open>
  Entries that the storage can take: each one parses, its index is above the transaction number, and its
  request meets the needs stated with the requests, in the state the entries before it lead to.
\<close>

fun entries_ok :: "(nat \<Rightarrow> int) \<Rightarrow> (nat \<Rightarrow> nat \<Rightarrow> i64) \<Rightarrow> nat \<Rightarrow> log_entries \<Rightarrow> keeper_storage \<Rightarrow> bool" where
  "entries_ok nows clocks i [] ks = True"
| "entries_ok nows clocks i ((log_idx, entry) # entries) ks =
     ((case parseRequest entry of
         Inl e \<Rightarrow> False
       | Inr (s, request) \<Rightarrow>
           request_ok (clocks i) log_idx s (rq_body request) (ks_container ks, ks_ephemerals ks))
      \<and> (case commit (nows i) (clocks i) log_idx entry ks of
           Some (Inr (rs, ks')) \<Rightarrow> entries_ok nows clocks (Suc i) entries ks'
         | _ \<Rightarrow> False))"

lemma map_sum_Inr: "map_option (map_sum f id) x = Some (Inr y) \<longleftrightarrow> x = Some (Inr y)"
proof (cases x)
  case (Some z)
  then show ?thesis by (cases z) simp_all
qed simp

lemma commit_request:
  assumes "parseRequest entry = Inr (s, r)" and "getOpNum (rq_body r) \<noteq> OpSessionID"
  shows "commit now clock z entry ks =
    map_option (map_sum (\<lambda>(ex, ks'). (StorageError ex, ks')) id) (processRequest now clock r s (Some z) ks)"
  using assms by (cases "rq_body r") (simp_all add: commit_def)

lemma commit_session:
  assumes "parseRequest entry = Inr (s, r)" and "rq_body r = SessionIDRequest internal_id timeout server_id"
  shows "commit now clock z entry ks = (let (sid, ks') = getSessionID now timeout ks
    in Some (Inr ([(- 1, session_response internal_id sid server_id)], ks')))"
  using assms by (simp add: commit_def)

lemma commit_okE [consumes 1, case_names session request]:
  assumes "commit now clock z entry ks = Some (Inr (rs, ks'))"
  obtains (session) s r internal_id timeout server_id sid where "parseRequest entry = Inr (s, r)"
      "rq_body r = SessionIDRequest internal_id timeout server_id" "getSessionID now timeout ks = (sid, ks')"
  | (request) s r where "parseRequest entry = Inr (s, r)" "getOpNum (rq_body r) \<noteq> OpSessionID"
      "processRequest now clock r s (Some z) ks = Some (Inr (rs, ks'))"
proof (cases "parseRequest entry")
  case (Inl e)
  then show ?thesis using assms by (simp add: commit_def)
next
  case (Inr sr)
  then obtain s r where p: "parseRequest entry = Inr (s, r)" by (cases sr) simp
  show ?thesis
  proof (cases "getOpNum (rq_body r) = OpSessionID")
    case True
    then obtain internal_id timeout server_id where b: "rq_body r = SessionIDRequest internal_id timeout server_id"
      by (cases "rq_body r") simp_all
    then show ?thesis using assms p commit_session [OF p b] session by (auto simp: Let_def split: prod.splits)
  next
    case False
    show ?thesis
      by (rule request [OF p False]) (rule assms [unfolded commit_request [OF p False] map_sum_Inr])
  qed
qed

section \<open>A commit uses the operations of the table only\<close>

definition table_steps :: "container \<Rightarrow> container \<Rightarrow> bool" where
  "table_steps c c' \<longleftrightarrow> (\<exists>ops. tb_run ops c = Some c')"

lemma tb_run_append: "tb_run (ops @ ops') c = Option.bind (tb_run ops c) (tb_run ops')"
  by (induction ops arbitrary: c) (simp_all split: option.split)

lemma table_steps_refl: "table_steps c c"
  unfolding table_steps_def by (rule exI [of _ "[]"]) simp

lemma table_steps_trans: "table_steps c c1 \<Longrightarrow> table_steps c1 c2 \<Longrightarrow> table_steps c c2"
  unfolding table_steps_def
proof (elim exE)
  fix ops ops'
  assume "tb_run ops c = Some c1" "tb_run ops' c1 = Some c2"
  then have "tb_run (ops @ ops') c = Some c2" by (simp add: tb_run_append)
  then show "\<exists>ops. tb_run ops c = Some c2" by blast
qed

lemma table_steps_op: "tb_apply op c = Some c' \<Longrightarrow> table_steps c c'"
  unfolding table_steps_def by (rule exI [of _ "[op]"]) simp

lemma table_steps_insert: "table_steps c c1 \<Longrightarrow> table_steps c (snd (tb_insert p n c1))"
  by (rule table_steps_trans, assumption, rule table_steps_op [of "TbInsert p n"]) simp

lemma table_steps_erase: "table_steps c c1 \<Longrightarrow> table_steps c (snd (tb_erase p c1))"
  by (rule table_steps_trans, assumption, rule table_steps_op [of "TbErase p"]) simp

lemma table_steps_updateValue: "table_steps c c1 \<Longrightarrow> tb_updateValue p f c1 = Some (i, c2) \<Longrightarrow> table_steps c c2"
  by (rule table_steps_trans, assumption, rule table_steps_op [of "TbUpdate p f"]) simp

lemma table_steps_update: "table_steps c c1 \<Longrightarrow> update_node p f c1 = Some c2 \<Longrightarrow> table_steps c c2"
  by (auto simp: update_node_def intro: table_steps_updateValue)

lemmas table_steps_intros = table_steps_refl table_steps_insert table_steps_erase

lemma concrete_table_steps:
  "process_concrete now zxid s q st = Some (r, u, st') \<Longrightarrow> table_steps (fst st) (fst st')"
proof (cases q)
  case (ConcreteCreate path content al eph seq)
  then show "process_concrete now zxid s q st = Some (r, u, st') \<Longrightarrow> table_steps (fst st) (fst st')"
    by (auto simp: process_create_def Let_def answer_def split: prod.splits option.splits if_splits
        intro!: table_steps_intros elim: table_steps_update [OF table_steps_refl])
next
  case (ConcreteRemove path ver)
  then show "process_concrete now zxid s q st = Some (r, u, st') \<Longrightarrow> table_steps (fst st) (fst st')"
    by (auto simp: process_remove_def Let_def answer_def split: prod.splits option.splits if_splits
        intro!: table_steps_intros elim: table_steps_update [OF table_steps_refl])
next
  case (ConcreteSet path content ver)
  then show "process_concrete now zxid s q st = Some (r, u, st') \<Longrightarrow> table_steps (fst st) (fst st')"
    by (auto simp: process_set_def Let_def answer_def split: prod.splits option.splits if_splits
        intro!: table_steps_refl elim: table_steps_update [OF table_steps_updateValue [OF table_steps_refl]])
next
  case (ConcreteCheck path ver)
  then show "process_concrete now zxid s q st = Some (r, u, st') \<Longrightarrow> table_steps (fst st) (fst st')"
    by (auto simp: process_check_def Let_def answer_def table_steps_refl split: option.splits if_splits)
qed

lemma undo_table_steps: "run_undo u st = Some st' \<Longrightarrow> table_steps (fst st) (fst st')"
proof (cases u)
  case (UndoCreate sid path eph parent child)
  then show "run_undo u st = Some st' \<Longrightarrow> table_steps (fst st) (fst st')"
    by (cases st) (auto simp: undo_create_def Let_def elim: table_steps_update [OF table_steps_erase [OF table_steps_refl]])
next
  case (UndoRemove n path child)
  then show "run_undo u st = Some st' \<Longrightarrow> table_steps (fst st) (fst st')"
    by (cases st) (auto simp: undo_remove_def Let_def elim: table_steps_update [OF table_steps_insert [OF table_steps_refl]])
next
  case (UndoSet n path)
  then show "run_undo u st = Some st' \<Longrightarrow> table_steps (fst st) (fst st')"
    by (cases st) (auto simp: undo_set_def split: option.splits elim: table_steps_update [OF table_steps_update [OF table_steps_refl]])
qed (simp add: table_steps_refl)

lemma undos_table_steps: "run_undos us st = Some st' \<Longrightarrow> table_steps (fst st) (fst st')"
proof (induction us arbitrary: st)
  case (Cons u us)
  then obtain st1 where "run_undo u st = Some st1" "run_undos us st1 = Some st'" by (auto split: option.splits)
  then show ?case using undo_table_steps Cons.IH table_steps_trans by blast
qed (simp add: table_steps_refl)

lemma multi_table_steps:
  "multi_loop clock zxid s i qs responses us st = Some (rs, st') \<Longrightarrow> table_steps (fst st) (fst st')"
proof (induction qs arbitrary: i responses us st)
  case (Cons q qs)
  then obtain r u st1 where pr: "process_concrete (clock i) zxid s q st = Some (r, u, st1)"
    by (auto split: option.splits)
  have one: "table_steps (fst st) (fst st1)" by (rule concrete_table_steps [OF pr])
  show ?case
  proof (cases "rs_error r = ZOK")
    case True
    then show ?thesis using Cons.prems pr Cons.IH table_steps_trans [OF one] by simp
  next
    case False
    then show ?thesis using Cons.prems pr table_steps_trans [OF one undos_table_steps]
      by (auto split: option.splits)
  qed
qed (simp add: table_steps_refl)

lemma process_table_steps:
  assumes "process clock zxid s body st = Some (Inr (r, u, st'))"
  shows "table_steps (fst st) (fst st')"
proof -
  have conc: "table_steps (fst st) (fst st')" if "no_throw (process_concrete now zxid s q st) = Some (Inr (r, u, st'))" for now q
    using that concrete_table_steps [of now zxid s q st] by (auto simp: no_throw_def)
  show ?thesis
  proof (cases body)
    case (CreateRequest path content al eph seq)
    then show ?thesis using assms conc [of "clock 0" "ConcreteCreate path content al eph seq"] by simp
  next
    case (RemoveRequest path ver)
    then show ?thesis using assms conc [of "clock 0" "ConcreteRemove path ver"] by simp
  next
    case (SetRequest path content ver)
    then show ?thesis using assms conc [of "clock 0" "ConcreteSet path content ver"] by simp
  next
    case (CheckRequest path ver)
    then show ?thesis using assms conc [of "clock 0" "ConcreteCheck path ver"] by simp
  next
    case (MultiRequest requests)
    then obtain qs rs where "multi_loop clock zxid s 0 qs [] [] st = Some (rs, st')"
      using assms by (auto simp: process_multi_def split: sum.splits option.splits)
    then show ?thesis by (rule multi_table_steps)
  qed (use assms in \<open>auto simp: no_throw_def answer_def process_exists_def process_get_def process_list_def table_steps_refl
         split: option.splits if_splits\<close>)
qed

lemma close_ephemerals_steps:
  "close_ephemerals paths (c, w) = Some (rs, c', w') \<Longrightarrow> table_steps c c'"
proof (induction paths arbitrary: c w rs)
  case (Cons p paths)
  then obtain c1 where c1: "update_node (parentPath p) (child_removed (getBaseName p)) (snd (tb_erase p c)) = Some c1"
    by (auto split: option.splits)
  obtain r w1 where w1: "processWatchesImpl p DELETED w = (r, w1)" by (rule prod.exhaust)
  then obtain rs1 where "close_ephemerals paths (c1, w1) = Some (rs1, c', w')" using Cons.prems c1 by auto
  then show ?case
    using Cons.IH table_steps_trans [OF table_steps_update [OF table_steps_erase [OF table_steps_refl] c1]] by blast
qed (simp add: table_steps_refl)

lemma close_session_steps: "close_session s xid ks = Some (rs, ks') \<Longrightarrow> table_steps (ks_container ks) (ks_container ks')"
  by (auto simp: close_session_def Let_def table_steps_refl split: option.splits intro: close_ephemerals_steps)

lemma run_request_steps:
  assumes "run_request clock s request ks = Some (Inr (rs, ks'))"
  shows "table_steps (ks_container ks) (ks_container ks')"
proof -
  obtain r u c e where "process clock (ks_zxid ks) s (rq_body request) (ks_container ks, ks_ephemerals ks) = Some (Inr (r, u, c, e))"
      and "ks_container ks' = c"
    using assms by (auto simp: run_request_def Let_def same_storage_watches split: option.splits sum.splits prod.splits if_splits)
  then show ?thesis using process_table_steps by fastforce
qed

lemma processRequest_steps:
  assumes "processRequest now clock request s (Some z) ks = Some (Inr (rs, ks'))"
  shows "table_steps (ks_container ks) (ks_container ks')"
proof -
  let ?ks = "touch_session now s (ks\<lparr>ks_zxid := z\<rparr>)"
  have "close_session s (rq_xid request) ?ks = Some (rs, ks') \<or> run_request clock s request ?ks = Some (Inr (rs, ks'))"
    using assms by (auto simp: processRequest_def advance_zxid_def Let_def split: if_splits)
  then have "table_steps (ks_container ?ks) (ks_container ks')"
    by (elim disjE) (rule close_session_steps run_request_steps, assumption)+
  then show ?thesis by simp
qed

lemma commit_table_steps:
  assumes "commit now clock z entry ks = Some (Inr (rs, ks'))"
  shows "table_steps (ks_container ks) (ks_container ks')"
  using assms
proof (cases rule: commit_okE)
  case (session internal_id timeout server_id sid)
  then show ?thesis by (auto simp: getSessionID_def Let_def table_steps_refl)
next
  case (request s r)
  show ?thesis by (rule processRequest_steps [OF request(3)])
qed

lemma commit_all_Cons:
  assumes "commit_all nows clocks i ((z, entry) # entries) ks = Some ks'"
  obtains rs ks1 where "commit (nows i) (clocks i) z entry ks = Some (Inr (rs, ks1))"
    "commit_all nows clocks (Suc i) entries ks1 = Some ks'"
  using assms by (auto split: option.splits sum.splits)

lemma commit_all_steps:
  "commit_all nows clocks i entries ks = Some ks' \<Longrightarrow> table_steps (ks_container ks) (ks_container ks')"
proof (induction entries arbitrary: i ks)
  case (Cons ze entries)
  obtain z entry where ze: "ze = (z, entry)" by (rule prod.exhaust)
  obtain rs ks1 where c: "commit (nows i) (clocks i) z entry ks = Some (Inr (rs, ks1))"
      "commit_all nows clocks (Suc i) entries ks1 = Some ks'"
    by (rule commit_all_Cons [OF Cons.prems [unfolded ze]])
  show ?case by (rule table_steps_trans [OF commit_table_steps [OF c(1)] Cons.IH [OF c(2)]])
qed (simp add: table_steps_refl)

section \<open>Replicas agree\<close>

lemma commit_entry_inv:
  assumes "ks_inv ks" and "commit now clock z entry ks = Some (Inr (rs, ks'))"
    and "\<And>s r. parseRequest entry = Inr (s, r) \<Longrightarrow> request_ok clock z s (rq_body r) (ks_container ks, ks_ephemerals ks)"
  shows "ks_inv ks'"
  using assms(2)
proof (cases rule: commit_okE)
  case (session s r internal_id timeout server_id sid)
  show ?thesis by (rule keeper_step_inv [OF assms(1) keeper_step.session [OF session(3)]])
next
  case (request s r)
  have ok: "request_ok clock (zxid_of (Some z) ks) s (rq_body r) (ks_container ks, ks_ephemerals ks)"
    using assms(3) [OF request(1)] by (simp add: zxid_of_def)
  show ?thesis by (rule keeper_step_inv [OF assms(1) keeper_step.request [OF ok request(3)]])
qed

lemma getSessionID_same:
  assumes "same_storage ks ks'" and "getSessionID now timeout ks = (sid, ks1)"
  shows "\<exists>ks1'. getSessionID now' timeout ks' = (sid, ks1') \<and> same_storage ks1 ks1' \<and> ks_zxid ks1' = ks_zxid ks'"
  using assms by (auto simp: getSessionID_def Let_def same_storage_def update_conv' split: option.splits)

lemma commit_same:
  assumes "same_storage ks ks'" and "store_inv (ks_container ks, ks_ephemerals ks)" and "sint (ks_zxid ks') < sint z"
    and "\<And>s r. parseRequest entry = Inr (s, r) \<Longrightarrow> request_ok clock z s (rq_body r) (ks_container ks, ks_ephemerals ks)"
    and "commit now clock z entry ks = Some (Inr (rs, ks1))"
  shows "\<exists>rs' ks1'. commit now' clock z entry ks' = Some (Inr (rs', ks1')) \<and> same_storage ks1 ks1'
     \<and> (ks_zxid ks1' = ks_zxid ks' \<or> ks_zxid ks1' = z)"
  using assms(5)
proof (cases rule: commit_okE)
  case (session s r internal_id timeout server_id sid)
  obtain ks1' where "getSessionID now' timeout ks' = (sid, ks1')" "same_storage ks1 ks1'" "ks_zxid ks1' = ks_zxid ks'"
    using getSessionID_same [OF assms(1) session(3)] by blast
  then show ?thesis by (simp add: commit_session [OF session(1,2)])
next
  case (request s r)
  note z = processRequest_zxid [OF request(3)]
  have "same_requested (processRequest now clock r s (Some z) ks) (processRequest now' clock r s (Some z) ks')"
    by (rule processRequest_same [OF assms(1,2) z(2) assms(3) assms(4) [OF request(1)]])
  then obtain rs' ks1' where p: "processRequest now' clock r s (Some z) ks' = Some (Inr (rs', ks1'))" "same_storage ks1 ks1'"
    unfolding request(3) by (cases "processRequest now' clock r s (Some z) ks'") (auto simp: same_requested_def elim!: rel_sum.cases)
  then show ?thesis using processRequest_zxid(1) [OF p(1)] by (simp add: commit_request [OF request(1,2)])
qed

definition after :: "64 word \<Rightarrow> log_entries \<Rightarrow> bool" where
  "after z entries \<longleftrightarrow> sorted_wrt (\<lambda>a b. sint a < sint b) (z # map fst entries)"

lemma entries_ok_Cons:
  assumes "entries_ok nows clocks i ((z, entry) # entries) ks"
  obtains rs ks1 where "commit (nows i) (clocks i) z entry ks = Some (Inr (rs, ks1))" "entries_ok nows clocks (Suc i) entries ks1"
  using assms by (auto split: option.splits sum.splits)

lemma entries_ok_request:
  assumes "entries_ok nows clocks i ((z, entry) # entries) ks" and "parseRequest entry = Inr (s, r)"
  shows "request_ok (clocks i) z s (rq_body r) (ks_container ks, ks_ephemerals ks)"
  using assms by simp

lemma entries_run: "entries_ok nows clocks i entries ks \<Longrightarrow> \<exists>ks2. commit_all nows clocks i entries ks = Some ks2"
proof (induction entries arbitrary: i ks)
  case (Cons ze entries)
  obtain z entry where ze: "ze = (z, entry)" by (rule prod.exhaust)
  obtain rs ks1 where c: "commit (nows i) (clocks i) z entry ks = Some (Inr (rs, ks1))" "entries_ok nows clocks (Suc i) entries ks1"
    by (rule entries_ok_Cons [OF Cons.prems [unfolded ze]])
  show ?case using Cons.IH [OF c(2)] c(1) by (simp add: ze)
qed simp

lemma commit_all_same:
  assumes "same_storage ks ks'" and "ks_inv ks" and "after (ks_zxid ks') entries" and "entries_ok nows clocks i entries ks"
  shows "\<exists>ks2 ks2'. commit_all nows clocks i entries ks = Some ks2 \<and> commit_all nows' clocks i entries ks' = Some ks2'
     \<and> same_storage ks2 ks2' \<and> ks_inv ks2"
  using assms
proof (induction entries arbitrary: i ks ks')
  case Nil
  then show ?case by simp
next
  case (Cons ze entries)
  obtain z entry where ze: "ze = (z, entry)" by (rule prod.exhaust)
  obtain rs ks1 where c: "commit (nows i) (clocks i) z entry ks = Some (Inr (rs, ks1))" "entries_ok nows clocks (Suc i) entries ks1"
    by (rule entries_ok_Cons [OF Cons.prems(4) [unfolded ze]])
  note ok = entries_ok_request [OF Cons.prems(4) [unfolded ze]]
  have inv: "store_inv (ks_container ks, ks_ephemerals ks)" using Cons.prems(2) by (simp add: ks_inv_def)
  have lt: "sint (ks_zxid ks') < sint z" using Cons.prems(3) by (simp add: after_def ze)
  obtain rs' ks1' where c': "commit (nows' i) (clocks i) z entry ks' = Some (Inr (rs', ks1'))" "same_storage ks1 ks1'"
      "ks_zxid ks1' = ks_zxid ks' \<or> ks_zxid ks1' = z"
    using commit_same [OF Cons.prems(1) inv lt ok c(1)] by blast
  have inv1: "ks_inv ks1" by (rule commit_entry_inv [OF Cons.prems(2) c(1) ok])
  have "after (ks_zxid ks1') entries" using c'(3) Cons.prems(3) by (auto simp: after_def ze)
  from Cons.IH [OF c'(2) inv1 this c(2)] show ?case using c(1) c'(1) by (simp add: ze)
qed

section \<open>Restarting from a snapshot\<close>

lemma restored_same: "restored z ks ks' \<Longrightarrow> same_storage ks ks'"
  using same_store_sym by (auto simp: restored_def same_storage_def)


text \<open>
  Entries that a leader wrote are taken when the requests in them are: the same test on requests, before they are written.
\<close>

fun requests_ok ::
  "(nat \<Rightarrow> int) \<Rightarrow> (nat \<Rightarrow> nat \<Rightarrow> i64) \<Rightarrow> nat \<Rightarrow> (64 word \<times> session \<times> zk_request) list \<Rightarrow> keeper_storage \<Rightarrow> bool" where
  "requests_ok nows clocks i [] ks = True"
| "requests_ok nows clocks i ((z, s, r) # reqs) ks =
     (wire_ok r \<and> getOpNum (rq_body r) \<noteq> OpSessionID
      \<and> request_ok (clocks i) z s (rq_body r) (ks_container ks, ks_ephemerals ks)
      \<and> (case processRequest (nows i) (clocks i) r s (Some z) ks of
           Some (Inr (rs, ks')) \<Rightarrow> requests_ok nows clocks (Suc i) reqs ks'
         | _ \<Rightarrow> False))"

definition log_of :: "(64 word \<times> session \<times> zk_request) list \<Rightarrow> log_entries" where
  "log_of reqs = map (\<lambda>(z, s, r). (z, getZooKeeperLogEntry s r)) reqs"

lemma log_of_ok: "requests_ok nows clocks i reqs ks \<Longrightarrow> entries_ok nows clocks i (log_of reqs) ks"
proof (induction reqs arbitrary: i ks)
  case (Cons q reqs)
  obtain z s r where q: "q = (z, s, r)" by (rule prod_cases3)
  note ok = Cons.prems [unfolded q requests_ok.simps]
  then obtain rs ks' where p: "processRequest (nows i) (clocks i) r s (Some z) ks = Some (Inr (rs, ks'))"
    by (auto split: option.splits sum.splits)
  have "entries_ok nows clocks (Suc i) (log_of reqs) ks'" by (rule Cons.IH) (use ok p in simp)
  moreover have parsed: "parseRequest (getZooKeeperLogEntry s r) = Inr (s, r)" by (rule log_entry_read) (use ok in simp)
  ultimately show ?case using ok p commit_request [OF parsed] by (simp add: q log_of_def)
qed (simp add: log_of_def)

text \<open>Two entries after a snapshot of the sample storage: session 2 sets \<open>/a\<close>, and session 1 closes.\<close>

definition sample_tail :: "(64 word \<times> session \<times> zk_request) list" where
  "sample_tail =
     [(10, 2, ZkRequest 4 False (SetRequest ''/a'' ''new'' (- 1))), (11, 1, ZkRequest 5 False CloseRequest)]"


end
