(* ===== verification/Sip_Hash.thy ===== *)
theory Sip_Hash
  imports Binary_IO
begin

text \<open>
  The hash function SipHash 2-4 (\<^verbatim>\<open>Common/SipHash.h\<close>), with which the records of the log of Keeper are checked.  The class
  takes its input in pieces of any size and processes words of eight bytes; \<open>sip_update_bytewise\<close> shows that this is the
  same as feeding one byte at a time, so that the hash depends on the bytes and not on how they were cut.
\<close>

unbundle bit_operations_syntax

section \<open>The class\<close>

record sip_hash =
  sip_v0 :: "64 word"
  sip_v1 :: "64 word"
  sip_v2 :: "64 word"
  sip_v3 :: "64 word"
  sip_cnt :: "64 word"
  current_bytes :: string

definition ROTL :: "64 word \<Rightarrow> nat \<Rightarrow> 64 word" where
  "ROTL x b = push_bit b x OR drop_bit (64 - b) x"

definition SIPROUND :: "sip_hash \<Rightarrow> sip_hash" where
  "SIPROUND h =
     (let v0 = sip_v0 h; v1 = sip_v1 h; v2 = sip_v2 h; v3 = sip_v3 h;
          v0 = v0 + v1; v1 = ROTL v1 13; v1 = v1 XOR v0; v0 = ROTL v0 32;
          v2 = v2 + v3; v3 = ROTL v3 16; v3 = v3 XOR v2;
          v0 = v0 + v3; v3 = ROTL v3 21; v3 = v3 XOR v0;
          v2 = v2 + v1; v1 = ROTL v1 17; v1 = v1 XOR v2; v2 = ROTL v2 32
      in h\<lparr>sip_v0 := v0, sip_v1 := v1, sip_v2 := v2, sip_v3 := v3\<rparr>)"

text \<open>\<^verbatim>\<open>current_word\<close> and \<^verbatim>\<open>current_bytes\<close> are one union.\<close>

definition current_word :: "sip_hash \<Rightarrow> 64 word" where
  "current_word h = word_of_nat (le_value (current_bytes h))"

lemma current_word_code [code]: "current_word h = word_of_int (le_value_int (current_bytes h))"
  by (simp add: current_word_def le_value_int)

definition no_bytes :: string where
  "no_bytes = replicate 8 (char_of (0::nat))"

definition sip_new :: "64 word \<Rightarrow> 64 word \<Rightarrow> sip_hash" where
  "sip_new k0 k1 =
     \<lparr>sip_v0 = 0x736f6d6570736575 XOR k0, sip_v1 = 0x646f72616e646f6d XOR k1,
      sip_v2 = 0x6c7967656e657261 XOR k0, sip_v3 = 0x7465646279746573 XOR k1,
      sip_cnt = 0, current_bytes = no_bytes\<rparr>"

definition sip_compress :: "sip_hash \<Rightarrow> sip_hash" where
  "sip_compress h =
     (let h1 = SIPROUND (SIPROUND (h\<lparr>sip_v3 := sip_v3 h XOR current_word h\<rparr>))
      in h1\<lparr>sip_v0 := sip_v0 h1 XOR current_word h\<rparr>)"

text \<open>The three loops of \<^verbatim>\<open>update\<close>: filling the word that an earlier call began, whole words, and the rest.\<close>

fun sip_fill :: "string \<Rightarrow> sip_hash \<Rightarrow> string \<times> sip_hash" where
  "sip_fill [] h = ([], h)"
| "sip_fill (c # data) h =
     (if sip_cnt h AND 7 \<noteq> 0 then
        sip_fill data (h\<lparr>current_bytes := (current_bytes h)[unat (sip_cnt h AND 7) := c], sip_cnt := sip_cnt h + 1\<rparr>)
      else (c # data, h))"

function sip_words :: "string \<Rightarrow> sip_hash \<Rightarrow> string \<times> sip_hash" where
  "sip_words data h =
     (if length data < 8 then (data, h)
      else sip_words (drop 8 data) (sip_compress (h\<lparr>current_bytes := take 8 data\<rparr>)))"
  by pat_completeness auto
termination
  by (relation "measure (length \<circ> fst)") auto

declare sip_words.simps [simp del]

definition sip_rest :: "string \<times> sip_hash \<Rightarrow> sip_hash" where
  "sip_rest dh = (case dh of (data, h) \<Rightarrow> h\<lparr>current_bytes := data @ drop (length data) no_bytes\<rparr>)"

definition sip_bulk :: "string \<Rightarrow> sip_hash \<Rightarrow> sip_hash" where
  "sip_bulk data h = sip_rest (sip_words data (h\<lparr>sip_cnt := sip_cnt h + word_of_nat (length data)\<rparr>))"

definition sip_update :: "string \<Rightarrow> sip_hash \<Rightarrow> sip_hash" where
  "sip_update data h =
     (if sip_cnt h AND 7 \<noteq> 0 then
        let (data, h) = sip_fill data h in
        if sip_cnt h AND 7 \<noteq> 0 then h else sip_bulk data (sip_compress h)
      else sip_bulk data h)"

definition sip_finalize :: "sip_hash \<Rightarrow> sip_hash" where
  "sip_finalize h =
     (let h1 = sip_compress (h\<lparr>current_bytes := (current_bytes h)[7 := char_of (unat (sip_cnt h))]\<rparr>);
          h2 = h1\<lparr>sip_v2 := sip_v2 h1 XOR 0xff\<rparr>
      in SIPROUND (SIPROUND (SIPROUND (SIPROUND h2))))"

definition sip_get64 :: "sip_hash \<Rightarrow> 64 word" where
  "sip_get64 h = (let h = sip_finalize h in sip_v0 h XOR sip_v1 h XOR sip_v2 h XOR sip_v3 h)"

definition sip_get128 :: "sip_hash \<Rightarrow> 64 word \<times> 64 word" where
  "sip_get128 h = (let h = sip_finalize h in (sip_v0 h XOR sip_v1 h, sip_v2 h XOR sip_v3 h))"

definition sipHash64 :: "string \<Rightarrow> 64 word" where
  "sipHash64 data = sip_get64 (sip_update data (sip_new 0 0))"

section \<open>One byte at a time\<close>

definition sip_byte :: "char \<Rightarrow> sip_hash \<Rightarrow> sip_hash" where
  "sip_byte c h =
     (let h1 = h\<lparr>current_bytes := (current_bytes h)[unat (sip_cnt h AND 7) := c], sip_cnt := sip_cnt h + 1\<rparr>
      in if sip_cnt h1 AND 7 = 0 then (sip_compress h1)\<lparr>current_bytes := no_bytes\<rparr> else h1)"

text \<open>The bytes that wait for the end of their word are \<open>pre\<close>.\<close>

definition waiting_bytes :: "string \<Rightarrow> sip_hash \<Rightarrow> bool" where
  "waiting_bytes pre h \<longleftrightarrow>
     current_bytes h = pre @ drop (length pre) no_bytes \<and> length pre < 8 \<and> unat (sip_cnt h) mod 8 = length pre"

lemma and_7: "(c :: 64 word) AND 7 = take_bit 3 c"
  by (simp add: take_bit_eq_mask mask_numeral)

lemma unat_and_7: "unat ((c :: 64 word) AND 7) = unat c mod 8"
  unfolding and_7 unsigned_take_bit_eq by (simp add: take_bit_eq_mod)

lemma and_7_zero: "(c :: 64 word) AND 7 = 0 \<longleftrightarrow> unat c mod 8 = 0"
  by (metis unat_and_7 unat_eq_zero)

lemma phase_add: "unat (c + word_of_nat n :: 64 word) mod 8 = (unat c mod 8 + n) mod 8"
proof -
  have "unat (c + word_of_nat n) = (unat c + n) mod 2 ^ 64"
    by (simp add: unat_word_ariths unat_of_nat take_bit_eq_mod mod_add_right_eq)
  then have "unat (c + word_of_nat n) mod 8 = (unat c + n) mod 8"
    by (simp add: mod_mod_cancel)
  then show ?thesis by (simp add: mod_add_left_eq)
qed

lemma put_byte:
  "length pre < 8 \<Longrightarrow> (pre @ drop (length pre) no_bytes)[length pre := c] = (pre @ [c]) @ drop (Suc (length pre)) no_bytes"
  by (simp add: list_update_append no_bytes_def Suc_diff_Suc [symmetric])

lemma byte_waits:
  assumes "waiting_bytes pre h" and "Suc (length pre) < 8"
  shows "sip_byte c h = h\<lparr>current_bytes := (pre @ [c]) @ drop (Suc (length pre)) no_bytes, sip_cnt := sip_cnt h + 1\<rparr>"
    and "waiting_bytes (pre @ [c]) (sip_byte c h)"
proof -
  have phase: "unat (sip_cnt h + 1) mod 8 = Suc (length pre)"
    using assms phase_add [of "sip_cnt h" 1] by (simp add: waiting_bytes_def)
  with assms show eq: "sip_byte c h = h\<lparr>current_bytes := (pre @ [c]) @ drop (Suc (length pre)) no_bytes, sip_cnt := sip_cnt h + 1\<rparr>"
    by (simp add: sip_byte_def waiting_bytes_def unat_and_7 and_7_zero put_byte)
  show "waiting_bytes (pre @ [c]) (sip_byte c h)"
    unfolding eq using phase assms(2) by (simp add: waiting_bytes_def)
qed

lemma bytes_wait:
  assumes "waiting_bytes pre h" and "length pre + length data < 8"
  shows "fold sip_byte data h = h\<lparr>current_bytes := (pre @ data) @ drop (length (pre @ data)) no_bytes,
      sip_cnt := sip_cnt h + word_of_nat (length data)\<rparr>"
  using assms
proof (induction data arbitrary: pre h)
  case (Cons c data)
  note step = byte_waits [OF Cons.prems(1), of c]
  show ?case using Cons.IH [OF step(2)] Cons.prems(2) step(1) by (simp add: add_ac)
qed (simp add: waiting_bytes_def)

text \<open>A full word is mixed in, and nothing waits after it.\<close>

lemma bytes_fill:
  assumes "waiting_bytes pre h" and "length pre + length data = 8"
  shows "fold sip_byte data h = (sip_compress (h\<lparr>current_bytes := pre @ data,
      sip_cnt := sip_cnt h + word_of_nat (length data)\<rparr>))\<lparr>current_bytes := no_bytes\<rparr>"
proof -
  have "data \<noteq> []" using assms by (auto simp: waiting_bytes_def)
  then obtain init c where d: "data = init @ [c]" by (metis append_butlast_last_id)
  let ?h = "h\<lparr>current_bytes := (pre @ init) @ drop (length (pre @ init)) no_bytes, sip_cnt := sip_cnt h + word_of_nat (length init)\<rparr>"
  have len: "length (pre @ init) = 7" using assms(2) by (simp add: d)
  have init: "fold sip_byte init h = ?h" by (rule bytes_wait [OF assms(1)]) (use len in simp)
  have phase: "unat (sip_cnt ?h) mod 8 = 7"
    using assms(1) len by (simp add: phase_add waiting_bytes_def)
  then have next8: "unat (sip_cnt ?h + 1) mod 8 = 0" using phase_add [of "sip_cnt ?h" 1] by simp
  have "(current_bytes ?h)[7 := c] = pre @ data"
    using put_byte [of "pre @ init" c] len by (simp add: d no_bytes_def)
  then have "sip_byte c ?h = (sip_compress (h\<lparr>current_bytes := pre @ data,
      sip_cnt := sip_cnt h + word_of_nat (length data)\<rparr>))\<lparr>current_bytes := no_bytes\<rparr>"
    unfolding sip_byte_def Let_def unat_and_7 phase using next8 by (simp add: and_7_zero d add_ac)
  then show ?thesis by (simp add: d init [simplified])
qed

lemma compress_fields [simp]:
  "sip_cnt (sip_compress h) = sip_cnt h" "current_bytes (sip_compress h) = current_bytes h"
  by (simp_all add: sip_compress_def SIPROUND_def Let_def)

lemma compress_irrelevant: "sip_compress (h\<lparr>sip_cnt := n\<rparr>) = (sip_compress h)\<lparr>sip_cnt := n\<rparr>"
  by (simp add: sip_compress_def SIPROUND_def Let_def current_word_def)

lemma byte_cnt: "sip_cnt (fold sip_byte data h) = sip_cnt h + word_of_nat (length data)"
  by (induction data arbitrary: h) (simp_all add: sip_byte_def Let_def add_ac)

section \<open>Words at a time\<close>

lemma words_overwrite: "sip_rest (sip_words data (h\<lparr>current_bytes := x\<rparr>)) = sip_rest (sip_words data h)"
  by (subst (1 2) sip_words.simps) (simp add: sip_rest_def)

lemma words_bytes:
  assumes "waiting_bytes [] h"
  shows "sip_rest (sip_words data (h\<lparr>sip_cnt := n\<rparr>)) = (fold sip_byte data h)\<lparr>sip_cnt := n\<rparr>"
  using assms
proof (induction data arbitrary: h rule: length_induct)
  case (1 data)
  show ?case
  proof (cases "length data < 8")
    case True
    then show ?thesis using bytes_wait [OF 1(2), of data] by (subst sip_words.simps) (simp add: sip_rest_def)
  next
    case False
    let ?h = "(sip_compress (h\<lparr>current_bytes := take 8 data, sip_cnt := sip_cnt h + word_of_nat (length (take 8 data))\<rparr>))
      \<lparr>current_bytes := no_bytes\<rparr>"
    have word: "fold sip_byte (take 8 data) h = ?h" using bytes_fill [OF 1(2), of "take 8 data"] False by simp
    have "waiting_bytes [] ?h"
      using 1(2) False phase_add [of "sip_cnt h" 8] by (simp add: waiting_bytes_def)
    then have "sip_rest (sip_words (drop 8 data) (?h\<lparr>sip_cnt := n\<rparr>)) = (fold sip_byte (drop 8 data) ?h)\<lparr>sip_cnt := n\<rparr>"
      using 1(1) False by simp
    moreover have "fold sip_byte data h = fold sip_byte (drop 8 data) ?h"
      using fold_append [of sip_byte "take 8 data" "drop 8 data"] by (simp add: word)
    moreover have "sip_rest (sip_words data (h\<lparr>sip_cnt := n\<rparr>)) = sip_rest (sip_words (drop 8 data) (?h\<lparr>sip_cnt := n\<rparr>))"
    proof -
      have order: "h\<lparr>sip_cnt := n, current_bytes := take 8 data\<rparr> = h\<lparr>current_bytes := take 8 data, sip_cnt := n\<rparr>" by simp
      have "?h\<lparr>sip_cnt := n\<rparr> = (sip_compress (h\<lparr>sip_cnt := n, current_bytes := take 8 data\<rparr>))\<lparr>current_bytes := no_bytes\<rparr>"
        unfolding order compress_irrelevant by simp
      then show ?thesis using False by (subst sip_words.simps) (simp add: words_overwrite)
    qed
    ultimately show ?thesis by simp
  qed
qed

lemma bulk_bytes: "waiting_bytes [] h \<Longrightarrow> sip_bulk data h = fold sip_byte data h"
  using words_bytes [of h data "sip_cnt h + word_of_nat (length data)"] byte_cnt [of data h] by (simp add: sip_bulk_def)

lemma fill_bytes:
  assumes "waiting_bytes pre h" and "pre \<noteq> []"
  shows "sip_fill data h = (let k = 8 - length pre; data1 = take k data in
    (drop k data, h\<lparr>current_bytes := (pre @ data1) @ drop (length (pre @ data1)) no_bytes,
                   sip_cnt := sip_cnt h + word_of_nat (length data1)\<rparr>))"
  using assms
proof (induction data arbitrary: pre h)
  case (Cons c data)
  let ?h = "h\<lparr>current_bytes := (pre @ [c]) @ drop (Suc (length pre)) no_bytes, sip_cnt := sip_cnt h + 1\<rparr>"
  have phase: "unat (sip_cnt h) mod 8 = length pre" "length pre < 8" and "length pre \<noteq> 0"
    using Cons.prems by (simp_all add: waiting_bytes_def)
  then have step: "sip_fill (c # data) h = sip_fill data ?h"
    using put_byte [OF phase(2)] Cons.prems by (simp add: unat_and_7 and_7_zero waiting_bytes_def)
  show ?case
  proof (cases "Suc (length pre) < 8")
    case True
    have "waiting_bytes (pre @ [c]) ?h" using byte_waits [OF Cons.prems(1) True, of c] by simp
    moreover obtain k where "8 - length pre = Suc k" "8 - Suc (length pre) = k" using phase(2) by (metis Suc_diff_Suc)
    ultimately show ?thesis using Cons.IH [of "pre @ [c]" ?h] step by (simp add: Let_def add_ac)
  next
    case False
    then have "length pre = 7" using phase(2) by simp
    then have "unat (sip_cnt h + 1) mod 8 = 0" using phase_add [of "sip_cnt h" 1] phase(1) by simp
    then have "sip_fill data ?h = (data, ?h)" by (cases data) (simp_all add: and_7_zero)
    then show ?thesis using step \<open>length pre = 7\<close> by (simp add: Let_def)
  qed
qed (simp add: waiting_bytes_def Let_def)

lemma bulk_overwrite: "sip_bulk data (h\<lparr>current_bytes := x\<rparr>) = sip_bulk data h"
proof -
  have order: "h\<lparr>current_bytes := x, sip_cnt := n\<rparr> = h\<lparr>sip_cnt := n, current_bytes := x\<rparr>" for n by simp
  have same: "sip_cnt (h\<lparr>current_bytes := x\<rparr>) = sip_cnt h" by simp
  show ?thesis unfolding sip_bulk_def same order words_overwrite ..
qed

lemma bytes_full:
  assumes "waiting_bytes pre h" and "length pre + length data = 8"
  shows "waiting_bytes [] (fold sip_byte data h)"
proof -
  have "unat (sip_cnt h) mod 8 = length pre" using assms(1) by (simp add: waiting_bytes_def)
  then show ?thesis
    unfolding bytes_fill [OF assms] using assms(2) by (simp add: waiting_bytes_def phase_add)
qed

lemma bytes_waiting: "waiting_bytes pre h \<Longrightarrow> \<exists>pre'. waiting_bytes pre' (fold sip_byte data h)"
proof (induction data arbitrary: pre h)
  case (Cons c data)
  have "\<exists>pre'. waiting_bytes pre' (sip_byte c h)"
  proof (cases "Suc (length pre) < 8")
    case True
    then show ?thesis using byte_waits(2) [OF Cons.prems] by blast
  next
    case False
    then show ?thesis using bytes_full [OF Cons.prems, of "[c]"] Cons.prems by (auto simp: waiting_bytes_def)
  qed
  then show ?case using Cons.IH by auto
qed auto

lemma update_bytes:
  assumes "waiting_bytes pre h"
  shows "sip_update data h = fold sip_byte data h"
proof (cases "pre = []")
  case True
  then show ?thesis using assms bulk_bytes by (auto simp: sip_update_def and_7_zero waiting_bytes_def)
next
  case False
  note phase = assms [unfolded waiting_bytes_def]
  define k where "k = 8 - length pre"
  have k: "length pre + k = 8" "k > 0" using phase by (simp_all add: k_def)
  have busy: "sip_cnt h AND 7 \<noteq> 0" using False phase by (simp add: and_7_zero)
  show ?thesis
  proof (cases "length data < k")
    case True
    then have all: "sip_fill data h = ([], fold sip_byte data h)"
      using fill_bytes [OF assms False, of data] bytes_wait [OF assms, of data] k by (simp add: Let_def k_def)
    have "sip_cnt (fold sip_byte data h) AND 7 \<noteq> 0"
      using False True k phase by (simp add: byte_cnt and_7_zero phase_add)
    then show ?thesis using busy all by (simp add: sip_update_def)
  next
    case False
    let ?h = "h\<lparr>current_bytes := pre @ take k data, sip_cnt := sip_cnt h + word_of_nat k\<rparr>"
    have fill: "sip_fill data h = (drop k data, ?h)"
      using fill_bytes [OF assms \<open>pre \<noteq> []\<close>, of data] False k(1) by (simp add: Let_def k_def no_bytes_def min_absorb2)
    have word: "fold sip_byte (take k data) h = (sip_compress ?h)\<lparr>current_bytes := no_bytes\<rparr>"
      using bytes_fill [OF assms, of "take k data"] False k(1) by (simp add: min_absorb2)
    have "sip_cnt ?h AND 7 = 0" using k(1) phase by (simp add: and_7_zero phase_add)
    then have "sip_update data h = sip_bulk (drop k data) (sip_compress ?h)" using busy fill by (simp add: sip_update_def)
    also have "\<dots> = sip_bulk (drop k data) (fold sip_byte (take k data) h)" unfolding word bulk_overwrite ..
    also have "\<dots> = fold sip_byte (drop k data) (fold sip_byte (take k data) h)"
      by (rule bulk_bytes, rule bytes_full [OF assms]) (use False k(1) in simp)
    also have "\<dots> = fold sip_byte data h" by (metis append_take_drop_id comp_apply fold_append)
    finally show ?thesis .
  qed
qed

lemma sip_new_waiting: "waiting_bytes [] (sip_new k0 k1)"
  by (simp add: waiting_bytes_def sip_new_def)

text \<open>
  C33. Hashing in pieces is hashing byte by byte: a new hash that is updated with any sequence of pieces is the one that is fed
  each byte of their concatenation in turn; in particular only the concatenation matters.
\<close>

theorem sip_update_bytewise:
  "fold sip_update pieces (sip_new k0 k1) = fold sip_byte (concat pieces) (sip_new k0 k1)"
proof -
  have "fold sip_update pieces h = fold sip_byte (concat pieces) h" if "waiting_bytes pre h" for pre h
    using that
  proof (induction pieces arbitrary: pre h)
    case (Cons piece pieces)
    obtain pre' where "waiting_bytes pre' (sip_update piece h)"
      using bytes_waiting [OF Cons.prems] update_bytes [OF Cons.prems] by metis
    then show ?case using Cons.IH update_bytes [OF Cons.prems] by simp
  qed simp
  then show ?thesis using sip_new_waiting by blast
qed

end
