(* ===== verification/Changelog_Record.thy ===== *)
theory Changelog_Record
  imports Sip_Hash "HOL-Library.AList"
begin

text \<open>
  One file of the log of Keeper (\<^verbatim>\<open>Coordination/Changelog.cpp\<close>): records with a checksum, one after the other, and the reader
  that stops at the first record that is not whole.  \<open>torn_log_reads_prefix\<close>: of a file that was cut at any byte, the
  reader returns the whole records before the cut, says whether the rest has to be cut off, and where.

  A log entry is an object of NuRaft with a term, a type and a buffer.  The type is an enumeration of NuRaft, kept here as its
  bytes; their number, \<^verbatim>\<open>sizeof(nuraft::log_val_type)\<close>, is the parameter \<open>vt_size\<close> of the reader.
\<close>

section \<open>Records\<close>

record log_entry =
  le_term :: "64 word"
  le_type :: string
  le_buf :: "string option"

record changelog_record =
  cr_version :: "8 word"
  cr_index :: "64 word"
  cr_term :: "64 word"
  cr_value_type :: string
  cr_blob_size :: "64 word"
  cr_blob :: "string option"

abbreviation CURRENT_CHANGELOG_VERSION :: "8 word" where
  "CURRENT_CHANGELOG_VERSION \<equiv> 0"

definition buildRecord :: "int \<Rightarrow> log_entry \<Rightarrow> changelog_record" where
  "buildRecord index e =
     \<lparr>cr_version = 0, cr_index = word_of_int index, cr_term = le_term e, cr_value_type = le_type e,
      cr_blob_size = (case le_buf e of None \<Rightarrow> 0 | Some b \<Rightarrow> word_of_nat (length b)), cr_blob = le_buf e\<rparr>"

definition blob_bytes :: "changelog_record \<Rightarrow> string" where
  "blob_bytes r = (if cr_blob_size r \<noteq> 0 then (case cr_blob r of None \<Rightarrow> [] | Some b \<Rightarrow> b) else [])"

definition header_bytes :: "changelog_record \<Rightarrow> string" where
  "header_bytes r =
     writeIntBinary (cr_version r) @ writeIntBinary (cr_index r) @ writeIntBinary (cr_term r) @
     cr_value_type r @ writeIntBinary (cr_blob_size r)"

definition computeRecordChecksum :: "changelog_record \<Rightarrow> 64 word" where
  "computeRecordChecksum r =
     (let hash = sip_new 0 0;
          hash = sip_update (writeIntBinary (cr_version r)) hash;
          hash = sip_update (writeIntBinary (cr_index r)) hash;
          hash = sip_update (writeIntBinary (cr_term r)) hash;
          hash = sip_update (cr_value_type r) hash;
          hash = sip_update (writeIntBinary (cr_blob_size r)) hash;
          hash = (if cr_blob_size r \<noteq> 0 then sip_update (blob_bytes r) hash else hash)
      in sip_get64 hash)"

text \<open>The bytes that \<^verbatim>\<open>ChangelogWriter::appendRecord\<close> adds to the file.\<close>

definition record_bytes :: "changelog_record \<Rightarrow> string" where
  "record_bytes r = writeIntBinary (computeRecordChecksum r) @ header_bytes r @ blob_bytes r"

definition read_record :: "nat \<Rightarrow> (64 word \<times> changelog_record) reader" where
  "read_record vt_size buf =
     bind_result (readIntBinary buf) (\<lambda>(record_checksum, buf).
     bind_result (readIntBinary buf) (\<lambda>(ver, buf).
     bind_result (readIntBinary buf) (\<lambda>(index, buf).
     bind_result (readIntBinary buf) (\<lambda>(trm, buf).
     bind_result (readStrict vt_size buf) (\<lambda>(value_type, buf).
     bind_result (readIntBinary buf) (\<lambda>(blob_size, buf).
       if ver > CURRENT_CHANGELOG_VERSION then Inl UnknownFormatVersion
       else
         bind_result
           (if blob_size \<noteq> 0 then
              bind_result (readStrict (unat blob_size) buf) (\<lambda>(blob, buf). Inr (Some blob, buf))
            else Inr (None, buf))
           (\<lambda>(blob, buf).
             Inr ((record_checksum,
                   \<lparr>cr_version = ver, cr_index = index, cr_term = trm, cr_value_type = value_type,
                    cr_blob_size = blob_size, cr_blob = blob\<rparr>), buf))))))))"

section \<open>Reading a file\<close>

record changelog_read_result =
  entries_read :: int
  first_read_index :: int
  last_position :: int
  read_error :: bool

type_synonym index_to_log_entry = "(int \<times> log_entry) list"
type_synonym index_to_offset = "(int \<times> int) list"

lemma read_record_shorter:
  assumes "read_record vt_size buf = Inr (x, rest)"
  shows "length rest < length buf"
proof -
  obtain record_checksum :: "64 word" and b where first: "readIntBinary buf = Inr (record_checksum, b)"
    using assms unfolding read_record_def bind_result_Inr by auto
  then have len: "length buf = 8 + length b"
    by (auto simp: readIntBinary_def readStrict_def bind_result_Inr split: if_splits)
  have "leaves (length b) (read_record vt_size buf)"
    unfolding read_record_def first bind_result_simps prod.case by (intro reader_leaves order_refl) assumption+
  then show ?thesis using leavesD [OF _ assms] len by fastforce
qed

text \<open>
  The loop of \<^verbatim>\<open>readChangelog\<close>: \<open>pos\<close> bytes were read, \<open>previous\<close> is the index of the last record (zero at the start).  Only an
  unknown version is thrown on; every other exception sets the flag \<^verbatim>\<open>error\<close>.
\<close>

function read_loop ::
  "nat \<Rightarrow> int \<Rightarrow> int \<Rightarrow> int \<Rightarrow> changelog_read_result \<Rightarrow> index_to_log_entry \<Rightarrow> index_to_offset \<Rightarrow> string
     \<Rightarrow> (bin_error, changelog_read_result \<times> index_to_log_entry \<times> index_to_offset) result" where
  "read_loop vt_size start_log_index previous pos result logs offsets buf =
     (if buf = [] then Inr (result, logs, offsets)
      else
        let result = result\<lparr>last_position := pos\<rparr>;
            failed = Inr (result\<lparr>read_error := True\<rparr>, logs, offsets)
        in case read_record vt_size buf of
             Inl e \<Rightarrow> if e = UnknownFormatVersion then Inl e else failed
           | Inr ((record_checksum, r), rest) \<Rightarrow>
               let index = uint (cr_index r);
                   pos' = pos + int (length buf) - int (length rest)
               in if previous \<noteq> 0 \<and> (previous + 1) mod 2 ^ 64 \<noteq> index then failed
                  else if computeRecordChecksum r \<noteq> record_checksum then failed
                  else if map_of logs index \<noteq> None then failed
                  else
                    let result = result\<lparr>entries_read := entries_read result + 1\<rparr>
                    in if index < start_log_index then
                         read_loop vt_size start_log_index index pos' result logs offsets rest
                       else
                         read_loop vt_size start_log_index index pos'
                           (result\<lparr>first_read_index := (if first_read_index result = 0 then index else first_read_index result)\<rparr>)
                           (AList.update index \<lparr>le_term = cr_term r, le_type = cr_value_type r, le_buf = cr_blob r\<rparr> logs)
                           (AList.update index pos offsets) rest)"
  by pat_completeness auto
termination
  by (relation "measure (\<lambda>(vt_size, start, previous, pos, result, logs, offsets, buf). length buf)")
     (auto dest: read_record_shorter)

declare read_loop.simps [simp del]

definition readChangelog ::
  "nat \<Rightarrow> int \<Rightarrow> index_to_log_entry \<Rightarrow> index_to_offset \<Rightarrow> string
     \<Rightarrow> (bin_error, changelog_read_result \<times> index_to_log_entry \<times> index_to_offset) result" where
  "readChangelog vt_size start_log_index logs offsets content =
     read_loop vt_size start_log_index 0 0 \<lparr>entries_read = 0, first_read_index = 0, last_position = 0, read_error = False\<rparr>
       logs offsets content"

section \<open>Cutting a record\<close>

lemma length_writeInt [simp]: "length (writeIntBinary (x :: 'a::len word)) = LENGTH('a) div 8"
  by (simp add: writeIntBinary_def)

lemma strict_cut:
  "readStrict (length bs) (take n (bs @ rest)) =
     (if n < length bs then Inl CannotReadAllData else Inr (bs, take (n - length bs) rest))"
  by (simp add: readStrict_def)

lemma int_cut:
  assumes "8 dvd LENGTH('a)"
  shows "readIntBinary (take n (writeIntBinary (x :: 'a::len word) @ rest)) =
     (if n < LENGTH('a) div 8 then Inl CannotReadAllData else Inr (x, take (n - LENGTH('a) div 8) rest))"
proof -
  show ?thesis
    using strict_cut [of "writeIntBinary x" n rest] readIntBinary_write [OF assms, of x "take (n - LENGTH('a) div 8) rest"]
    by (auto simp: readIntBinary_def)
qed

text \<open>What the reader makes of an entry: an empty buffer is read as none.\<close>

definition stored :: "log_entry \<Rightarrow> log_entry" where
  "stored e = e\<lparr>le_buf := (case le_buf e of None \<Rightarrow> None | Some b \<Rightarrow> if b = [] then None else Some b)\<rparr>"

definition entry_sized :: "nat \<Rightarrow> log_entry \<Rightarrow> bool" where
  "entry_sized vt_size e \<longleftrightarrow>
     length (le_type e) = vt_size \<and> (case le_buf e of None \<Rightarrow> True | Some b \<Rightarrow> int (length b) < 2 ^ 64)"

abbreviation entry_bytes :: "int \<Rightarrow> log_entry \<Rightarrow> string" where
  "entry_bytes index e \<equiv> record_bytes (buildRecord index e)"

lemma blob_size_zero: "int (length b) < 2 ^ 64 \<Longrightarrow> (word_of_nat (length b) :: 64 word) = 0 \<longleftrightarrow> b = []"
  by (simp add: word_of_nat_eq_0_iff dvd_imp_le) (auto dest: dvd_imp_le)

lemma unat_blob_size: "int (length b) < 2 ^ 64 \<Longrightarrow> unat (word_of_nat (length b) :: 64 word) = length b"
  by (simp add: unat_of_nat take_bit_eq_mod)

lemma read_cut:
  assumes "entry_sized vt_size e"
  shows "read_record vt_size (take n (entry_bytes index e @ rest)) =
     (if n < length (entry_bytes index e) then Inl CannotReadAllData
      else Inr ((computeRecordChecksum (buildRecord index e), (buildRecord index e)\<lparr>cr_blob := le_buf (stored e)\<rparr>),
                take (n - length (entry_bytes index e)) rest))"
proof -
  let ?r = "buildRecord index e"
  have size: "length (cr_value_type ?r) = vt_size" using assms by (simp add: entry_sized_def buildRecord_def)
  have type: "readStrict vt_size (take n (cr_value_type ?r @ rest)) =
      (if n < vt_size then Inl CannotReadAllData else Inr (cr_value_type ?r, take (n - vt_size) rest))" for n rest
    using strict_cut [of "cr_value_type ?r"] size by simp
  have blob: "(if cr_blob_size ?r \<noteq> 0 then
        bind_result (readStrict (unat (cr_blob_size ?r)) (take n (blob_bytes ?r @ rest))) (\<lambda>(blob, buf). Inr (Some blob, buf))
      else Inr (None, take n (blob_bytes ?r @ rest)))
    = (if n < length (blob_bytes ?r) then Inl CannotReadAllData
       else Inr (le_buf (stored e), take (n - length (blob_bytes ?r)) rest))" for n
  proof (cases "le_buf e")
    case None
    then show ?thesis by (simp add: buildRecord_def blob_bytes_def stored_def)
  next
    case (Some b)
    then have "int (length b) < 2 ^ 64" using assms by (simp add: entry_sized_def)
    then show ?thesis using Some
      by (simp add: buildRecord_def blob_bytes_def stored_def blob_size_zero unat_blob_size strict_cut del: take_append)
  qed
  have version: "cr_version ?r = 0" by (simp add: buildRecord_def)
  show ?thesis
    unfolding record_bytes_def header_bytes_def append_assoc read_record_def
    by (simp add: int_cut type blob version size del: take_append) (auto simp: add.assoc)
qed

lemma checksum_stored:
  "computeRecordChecksum ((buildRecord index e)\<lparr>cr_blob := le_buf (stored e)\<rparr>) = computeRecordChecksum (buildRecord index e)"
proof -
  have "blob_bytes ((buildRecord index e)\<lparr>cr_blob := le_buf (stored e)\<rparr>) = blob_bytes (buildRecord index e)"
    by (auto simp: blob_bytes_def buildRecord_def stored_def split: option.splits)
  then show ?thesis by (simp add: computeRecordChecksum_def Let_def)
qed

lemma stored_entry:
  "\<lparr>le_term = cr_term (buildRecord index e), le_type = cr_value_type (buildRecord index e), le_buf = le_buf (stored e)\<rparr> = stored e"
  by (cases e) (simp add: buildRecord_def stored_def)

lemma uint_index: "0 \<le> index \<Longrightarrow> index < 2 ^ 64 \<Longrightarrow> uint (cr_index (buildRecord index e)) = index"
  by (simp add: buildRecord_def uint_word_of_int)

section \<open>Cutting a file\<close>

primrec log_bytes :: "int \<Rightarrow> log_entry list \<Rightarrow> string" where
  "log_bytes index [] = []"
| "log_bytes index (e # es) = entry_bytes index e @ log_bytes (index + 1) es"

text \<open>The number of records that are whole among the first \<open>n\<close> bytes.\<close>

primrec whole :: "nat \<Rightarrow> int \<Rightarrow> log_entry list \<Rightarrow> nat" where
  "whole n index [] = 0"
| "whole n index (e # es) =
     (if n < length (entry_bytes index e) then 0 else Suc (whole (n - length (entry_bytes index e)) (index + 1) es))"

primrec load_log :: "int \<Rightarrow> int \<Rightarrow> log_entry list \<Rightarrow> index_to_log_entry \<Rightarrow> index_to_log_entry" where
  "load_log start index [] logs = logs"
| "load_log start index (e # es) logs =
     load_log start (index + 1) es (if index < start then logs else AList.update index (stored e) logs)"

primrec load_offsets :: "int \<Rightarrow> int \<Rightarrow> int \<Rightarrow> log_entry list \<Rightarrow> index_to_offset \<Rightarrow> index_to_offset" where
  "load_offsets start index pos [] offsets = offsets"
| "load_offsets start index pos (e # es) offsets =
     load_offsets start (index + 1) (pos + int (length (entry_bytes index e))) es
       (if index < start then offsets else AList.update index pos offsets)"

definition read_ok :: "int \<Rightarrow> int \<Rightarrow> int \<Rightarrow> nat \<Rightarrow> nat \<Rightarrow> nat \<Rightarrow> changelog_read_result \<Rightarrow> changelog_read_result \<Rightarrow> bool" where
  "read_ok start index pos n k here res res' \<longleftrightarrow>
     entries_read res' = entries_read res + int k
     \<and> first_read_index res' =
         (if first_read_index res \<noteq> 0 then first_read_index res
          else if k > 0 \<and> start < index + int k then max index start else 0)
     \<and> (read_error res' \<longleftrightarrow> here < n) \<and> (read_error res' \<longrightarrow> last_position res' = pos + int here)"

lemma entry_bytes_ne: "entry_bytes index e \<noteq> []"
proof -
  have "length (entry_bytes index e) \<noteq> 0" by (simp add: record_bytes_def)
  then show ?thesis by force
qed

lemma read_loop_whole:
  assumes "entry_sized vt_size e" and "1 \<le> index" and "index < 2 ^ 64"
    and "previous = 0 \<or> previous + 1 = index" and "map_of logs index = None"
  shows "read_loop vt_size start previous pos res logs offsets (entry_bytes index e @ rest) =
    (let res1 = res\<lparr>last_position := pos, entries_read := entries_read res + 1\<rparr>;
         pos1 = pos + int (length (entry_bytes index e))
     in if index < start then read_loop vt_size start index pos1 res1 logs offsets rest
        else read_loop vt_size start index pos1
               (res1\<lparr>first_read_index := (if first_read_index res = 0 then index else first_read_index res)\<rparr>)
               (AList.update index (stored e) logs) (AList.update index pos offsets) rest)"
proof -
  have read: "read_record vt_size (entry_bytes index e @ rest) =
      Inr ((computeRecordChecksum (buildRecord index e), (buildRecord index e)\<lparr>cr_blob := le_buf (stored e)\<rparr>), rest)"
    using read_cut [OF assms(1), of "length (entry_bytes index e @ rest)" index rest] by simp
  have previous: "previous \<noteq> 0 \<longrightarrow> (previous + 1) mod 2 ^ 64 = index" using assms(2-4) by auto
  show ?thesis
    using assms(2,3,5) previous
    by (cases "previous = 0"; subst read_loop.simps)
      (simp_all add: read Let_def entry_bytes_ne uint_index checksum_stored stored_entry)
qed

lemma read_loop_cut:
  assumes "list_all (entry_sized vt_size) es" and "1 \<le> index" and "index + int (length es) \<le> 2 ^ 64"
    and "previous = 0 \<or> previous + 1 = index" and "\<And>j. index \<le> j \<Longrightarrow> map_of logs j = None"
    and "n \<le> length (log_bytes index es)" and "\<not> read_error res" and "k = whole n index es"
  shows "\<exists>res'. read_loop vt_size start previous pos res logs offsets (take n (log_bytes index es)) =
      Inr (res', load_log start index (take k es) logs, load_offsets start index pos (take k es) offsets)
    \<and> read_ok start index pos n k (length (log_bytes index (take k es))) res res'"
  using assms
proof (induction es arbitrary: index n k pos previous res logs offsets)
  case Nil
  then show ?case by (subst read_loop.simps) (simp add: read_ok_def)
next
  case (Cons e es)
  let ?b = "entry_bytes index e"
  show ?case
  proof (cases "n < length ?b")
    case True
    show ?thesis
    proof (cases "n = 0")
      case True
      then show ?thesis using Cons.prems by (subst read_loop.simps) (simp add: read_ok_def entry_bytes_ne)
    next
      case False
      have "read_record vt_size (take n (?b @ log_bytes (index + 1) es)) = Inl CannotReadAllData"
        using read_cut [of vt_size e n index] Cons.prems(1) True by (simp del: take_append)
      then have "read_loop vt_size start previous pos res logs offsets (take n (log_bytes index (e # es))) =
          Inr (res\<lparr>last_position := pos, read_error := True\<rparr>, logs, offsets)"
        using False entry_bytes_ne [of index e] by (subst read_loop.simps) (simp add: Let_def del: take_append)
      then show ?thesis using Cons.prems(8) True False by (simp add: read_ok_def)
    qed
  next
    case False
    let ?m = "n - length ?b"
    let ?res1 = "res\<lparr>last_position := pos, entries_read := entries_read res + 1\<rparr>"
    let ?res2 = "if index < start then ?res1
      else ?res1\<lparr>first_read_index := (if first_read_index res = 0 then index else first_read_index res)\<rparr>"
    let ?logs = "if index < start then logs else AList.update index (stored e) logs"
    let ?offs = "if index < start then offsets else AList.update index pos offsets"
    obtain k' where k: "k = Suc k'" "k' = whole ?m (index + 1) es" using Cons.prems(8) False by simp
    have "\<exists>res'. read_loop vt_size start index (pos + int (length ?b)) ?res2 ?logs ?offs (take ?m (log_bytes (index + 1) es)) =
        Inr (res', load_log start (index + 1) (take k' es) ?logs, load_offsets start (index + 1) (pos + int (length ?b)) (take k' es) ?offs)
      \<and> read_ok start (index + 1) (pos + int (length ?b)) ?m k' (length (log_bytes (index + 1) (take k' es))) ?res2 res'"
      by (rule Cons.IH) (use Cons.prems False k in \<open>auto simp: update_conv'\<close>)
    then obtain res' where r: "read_loop vt_size start index (pos + int (length ?b)) ?res2 ?logs ?offs (take ?m (log_bytes (index + 1) es)) =
        Inr (res', load_log start (index + 1) (take k' es) ?logs, load_offsets start (index + 1) (pos + int (length ?b)) (take k' es) ?offs)"
        "read_ok start (index + 1) (pos + int (length ?b)) ?m k' (length (log_bytes (index + 1) (take k' es))) ?res2 res'"
      by blast
    have "take n (log_bytes index (e # es)) = ?b @ take ?m (log_bytes (index + 1) es)" using False by simp
    then have "read_loop vt_size start previous pos res logs offsets (take n (log_bytes index (e # es))) =
        read_loop vt_size start index (pos + int (length ?b)) ?res2 ?logs ?offs (take ?m (log_bytes (index + 1) es))"
      using read_loop_whole [of vt_size e index previous logs start pos res offsets "take ?m (log_bytes (index + 1) es)"] Cons.prems(1-5)
      by (simp add: Let_def)
    moreover have "read_ok start index pos n k (length (log_bytes index (take k (e # es)))) res res'"
      using r(2) k(1) False Cons.prems(2) by (auto simp: read_ok_def split: if_splits)
    ultimately show ?thesis using r(1) k(1) by auto
  qed
qed

lemma load_log_at:
  "map_of (load_log start index es logs) j =
     (if max index start \<le> j \<and> j < index + int (length es) then Some (stored (es ! nat (j - index))) else map_of logs j)"
proof (induction es arbitrary: index logs)
  case (Cons e es)
  show ?case
  proof (cases "j \<le> index")
    case True
    then show ?thesis using Cons by (auto simp: update_conv')
  next
    case False
    then have "nat (j - index) = Suc (nat (j - (index + 1)))" by simp
    then show ?thesis using Cons False by (auto simp: update_conv')
  qed
qed auto

lemma load_offsets_at:
  "map_of (load_offsets start index pos es offsets) j =
     (if max index start \<le> j \<and> j < index + int (length es) then Some (pos + int (length (log_bytes index (take (nat (j - index)) es))))
      else map_of offsets j)"
proof (induction es arbitrary: index pos offsets)
  case (Cons e es)
  show ?case
  proof (cases "j \<le> index")
    case True
    then show ?thesis using Cons by (auto simp: update_conv')
  next
    case False
    then have "nat (j - index) = Suc (nat (j - (index + 1)))" by simp
    then show ?thesis using Cons False by (auto simp: update_conv')
  qed
qed auto

lemma whole_bounds:
  assumes "n \<le> length (log_bytes index es)"
  shows "whole n index es \<le> length es \<and> length (log_bytes index (take (whole n index es) es)) \<le> n
    \<and> (whole n index es < length es \<longrightarrow> n < length (log_bytes index (take (Suc (whole n index es)) es)))"
  using assms
proof (induction es arbitrary: n index)
  case (Cons e es)
  show ?case
  proof (cases "n < length (entry_bytes index e)")
    case False
    have "n - length (entry_bytes index e) \<le> length (log_bytes (index + 1) es)" using Cons.prems by simp
    from Cons.IH [OF this] show ?thesis using False by (auto simp del: log_bytes.simps simp: log_bytes.simps(2))
  qed simp
qed simp

text \<open>
  C15. A file that was cut anywhere gives its whole records: of the records with consecutive indices that were written, exactly those that
  end at or before the cut are read, with their positions; the reader reports an error exactly when the cut is inside a
  record, and then the position it reports is where that record begins.
\<close>

theorem torn_log_reads_prefix:
  assumes "list_all (entry_sized vt_size) es" and "1 \<le> index" and "index + int (length es) \<le> 2 ^ 64"
    and "n \<le> length (log_bytes index es)"
  shows "\<exists>k res logs offsets. readChangelog vt_size start [] [] (take n (log_bytes index es)) = Inr (res, logs, offsets)
    \<and> k \<le> length es \<and> length (log_bytes index (take k es)) \<le> n
    \<and> (k < length es \<longrightarrow> n < length (log_bytes index (take (Suc k) es)))
    \<and> entries_read res = int k
    \<and> (\<forall>j. map_of logs j = (if max index start \<le> j \<and> j < index + int k then Some (stored (es ! nat (j - index))) else None))
    \<and> (\<forall>j. map_of offsets j = (if max index start \<le> j \<and> j < index + int k
               then Some (int (length (log_bytes index (take (nat (j - index)) es)))) else None))
    \<and> (read_error res \<longleftrightarrow> length (log_bytes index (take k es)) \<noteq> n)
    \<and> (read_error res \<longrightarrow> last_position res = int (length (log_bytes index (take k es))))"
proof -
  define k where "k = whole n index es"
  note bounds = whole_bounds [OF assms(4), folded k_def]
  let ?new = "\<lparr>entries_read = 0, first_read_index = 0, last_position = 0, read_error = False\<rparr>"
  obtain res where r: "read_loop vt_size start 0 0 ?new [] [] (take n (log_bytes index es)) =
      Inr (res, load_log start index (take k es) [], load_offsets start index 0 (take k es) [])"
      "read_ok start index 0 n k (length (log_bytes index (take k es))) ?new res"
    using read_loop_cut [OF assms(1-3) _ _ assms(4) _ k_def, of 0 "[]" ?new start 0 "[]"] by auto
  have "take (nat (j - index)) (take k es) = take (nat (j - index)) es" if "index \<le> j" "j < index + int k" for j
    using that by (simp add: min_absorb1)
  then show ?thesis
    using r bounds
    by (intro exI [of _ k] exI [of _ res] exI conjI)
      (auto simp: readChangelog_def read_ok_def load_log_at load_offsets_at min_absorb2)
qed

definition sample_log :: "log_entry list" where
  "sample_log =
     [\<lparr>le_term = 1, le_type = ''....'', le_buf = Some ''first''\<rparr>, \<lparr>le_term = 1, le_type = ''....'', le_buf = Some ''second''\<rparr>]"

lemma sample_log_bytes:
  "length (log_bytes 7 sample_log) = 85" "length (log_bytes 7 (take (Suc 0) sample_log)) = 42"
  by (simp_all add: sample_log_def record_bytes_def header_bytes_def buildRecord_def blob_bytes_def)

theorem torn_log_reads_prefix_witness:
  "\<exists>res logs offsets. readChangelog 4 1 [] [] (take 60 (log_bytes 7 sample_log)) = Inr (res, logs, offsets)
    \<and> entries_read res = 1 \<and> map_of logs 7 = Some (sample_log ! 0) \<and> map_of logs 8 = None
    \<and> read_error res \<and> last_position res = 42"
proof -
  have "list_all (entry_sized 4) sample_log" by (simp add: sample_log_def entry_sized_def)
  then obtain k res logs offsets where r: "readChangelog 4 1 [] [] (take 60 (log_bytes 7 sample_log)) = Inr (res, logs, offsets)"
      "k \<le> length sample_log" "length (log_bytes 7 (take k sample_log)) \<le> 60" "entries_read res = int k"
      "k < length sample_log \<longrightarrow> 60 < length (log_bytes 7 (take (Suc k) sample_log))"
      "\<forall>j. map_of logs j = (if max 7 1 \<le> j \<and> j < 7 + int k then Some (stored (sample_log ! nat (j - 7))) else None)"
      "read_error res \<longleftrightarrow> length (log_bytes 7 (take k sample_log)) \<noteq> 60"
      "read_error res \<longrightarrow> last_position res = int (length (log_bytes 7 (take k sample_log)))"
    using torn_log_reads_prefix [of 4 sample_log 7 60 1] sample_log_bytes(1) by (auto simp: sample_log_def)
  have len: "length sample_log = 2" by (simp add: sample_log_def)
  have "k \<noteq> 0" by (rule notI) (use r(5) sample_log_bytes(2) len in simp)
  moreover have "k \<noteq> 2" by (rule notI) (use r(3) sample_log_bytes(1) len in simp)
  ultimately have k: "k = Suc 0" using r(2) len by linarith
  have "stored (sample_log ! 0) = sample_log ! 0" by (simp add: sample_log_def stored_def)
  then show ?thesis using r sample_log_bytes(2) unfolding k by auto
qed

end
