(* ===== verification/Changelog.thy ===== *)
theory Changelog
  imports Changelog_Record Text_IO
begin

text \<open>
  The log of Keeper over its files: names of the files, the writer, and the class \<^verbatim>\<open>Changelog\<close> with its operations
  (\<^verbatim>\<open>Coordination/Changelog.cpp\<close>, \<^verbatim>\<open>Changelog.h\<close>), behind the interface of \<^verbatim>\<open>KeeperLogStore.cpp\<close>.  The disk is a list of
  files by path.  A write goes to the file at once; what a buffer loses in a crash is the end of the file, see
  \<open>Changelog_Restart\<close>.  Indices are integers below \<open>2 ^ 64\<close>, with the wrap-around of \<^verbatim>\<open>uint64_t\<close> written out.
\<close>

datatype changelog_error = CorruptedData | CannotParseNumber | LogicalError | FileDoesntExist | ReadError bin_error

section \<open>File names\<close>

record changelog_file_description =
  cf_prefix :: string
  from_log_index :: int
  to_log_index :: int
  cf_path :: string

abbreviation DEFAULT_PREFIX :: string where
  "DEFAULT_PREFIX \<equiv> ''changelog''"

text \<open>\<^verbatim>\<open>std::filesystem::path\<close>: \<^verbatim>\<open>operator/=\<close> and \<^verbatim>\<open>stem\<close>.\<close>

definition path_join :: "string \<Rightarrow> string \<Rightarrow> string" where
  "path_join dir name = (if dir = [] \<or> last dir = CHR ''/'' then dir @ name else dir @ ''/'' @ name)"

definition after_last :: "char \<Rightarrow> string \<Rightarrow> string" where
  "after_last c s = rev (takeWhile (\<lambda>x. x \<noteq> c) (rev s))"

definition before_last :: "char \<Rightarrow> string \<Rightarrow> string" where
  "before_last c s = rev (tl (dropWhile (\<lambda>x. x \<noteq> c) (rev s)))"

definition stem :: "string \<Rightarrow> string" where
  "stem path =
     (let filename = after_last CHR ''/'' path
      in if filename = ''.'' \<or> filename = ''..'' \<or> CHR ''.'' \<notin> set filename \<or> before_last CHR ''.'' filename = []
         then filename else before_last CHR ''.'' filename)"

fun split_on :: "char \<Rightarrow> string \<Rightarrow> string list" where
  "split_on c [] = [[]]"
| "split_on c (x # s) =
     (if x = c then [] # split_on c s
      else case split_on c s of [] \<Rightarrow> [[x]] | p # ps \<Rightarrow> (x # p) # ps)"

text \<open>\<^verbatim>\<open>parse<uint64_t>\<close>: digits are accumulated without a check, other characters end the number.\<close>

fun read_uint_loop :: "64 word \<Rightarrow> string \<Rightarrow> (changelog_error, 64 word) result" where
  "read_uint_loop res [] = Inr res"
| "read_uint_loop res (c # buf) =
     (if c = CHR ''+'' then read_uint_loop res buf
      else if c = CHR ''-'' then Inl CannotParseNumber
      else if is_digit c then read_uint_loop (res * 10 + of_int (digit_value c)) buf
      else Inr res)"

definition parse_uint64 :: "string \<Rightarrow> (changelog_error, int) result" where
  "parse_uint64 s = (if s = [] then Inl CannotParseNumber else bind_result (read_uint_loop 0 s) (\<lambda>w. Inr (uint w)))"

definition formatChangelogPath :: "string \<Rightarrow> changelog_file_description \<Rightarrow> string" where
  "formatChangelogPath prefix name =
     path_join prefix (cf_prefix name @ ''_'' @ writeIntText (from_log_index name) @ ''_'' @
                       writeIntText (to_log_index name) @ ''.bin'')"

definition getChangelogFileDescription :: "string \<Rightarrow> (changelog_error, changelog_file_description) result" where
  "getChangelogFileDescription path =
     (let filename_parts = split_on CHR ''_'' (stem path)
      in if length filename_parts < 3 then Inl CorruptedData
         else
           bind_result (parse_uint64 (filename_parts ! 1)) (\<lambda>from_idx.
           bind_result (parse_uint64 (filename_parts ! 2)) (\<lambda>to_idx.
             Inr \<lparr>cf_prefix = filename_parts ! 0, from_log_index = from_idx, to_log_index = to_idx, cf_path = path\<rparr>)))"

section \<open>The disk and the writer\<close>

type_synonym disk = "(string \<times> string) list"

abbreviation zeros :: "nat \<Rightarrow> string" where
  "zeros n \<equiv> replicate n (char_of (0::nat))"

datatype write_mode = Rewrite | Append

record changelog_writer =
  w_filepath :: string
  w_mode :: write_mode
  w_position :: nat
  w_count :: int
  entries_written :: int
  w_start_index :: int

text \<open>Opening the file; \<^verbatim>\<open>plain_buf.count()\<close> counts the bytes written since.\<close>

definition changelog_writer_new :: "string \<Rightarrow> write_mode \<Rightarrow> int \<Rightarrow> disk \<Rightarrow> changelog_writer \<times> disk" where
  "changelog_writer_new path mode start_idx disk =
     (\<lparr>w_filepath = path, w_mode = mode, w_position = 0, w_count = 0, entries_written = 0, w_start_index = start_idx\<rparr>,
      case mode of
        Rewrite \<Rightarrow> AList.update path [] disk
      | Append \<Rightarrow> (if map_of disk path = None then AList.update path [] disk else disk))"

text \<open>
  \<^verbatim>\<open>write\<close> of the operating system: at the end of a file that was opened with \<^verbatim>\<open>O_APPEND\<close>, otherwise at the position of the
  descriptor.  What is written to a file that was removed is lost.
\<close>

definition write_bytes :: "string \<Rightarrow> changelog_writer \<Rightarrow> disk \<Rightarrow> changelog_writer \<times> disk" where
  "write_bytes bytes w disk =
     (case map_of disk (w_filepath w) of
        None \<Rightarrow> (w\<lparr>w_position := w_position w + length bytes, w_count := w_count w + int (length bytes)\<rparr>, disk)
      | Some content \<Rightarrow>
          let pos = (if w_mode w = Append then length content else w_position w)
          in (w\<lparr>w_position := pos + length bytes, w_count := w_count w + int (length bytes)\<rparr>,
              AList.update (w_filepath w)
                (take pos content @ zeros (pos - length content) @ bytes @ drop (pos + length bytes) content) disk))"

definition appendRecord :: "changelog_record \<Rightarrow> changelog_writer \<Rightarrow> disk \<Rightarrow> int \<times> changelog_writer \<times> disk" where
  "appendRecord r w disk =
     (let (w', disk') = write_bytes (record_bytes r) w disk
      in (w_count w, w'\<lparr>entries_written := (entries_written w + 1) mod 2 ^ 64\<rparr>, disk'))"

definition truncateToLength :: "int \<Rightarrow> changelog_writer \<Rightarrow> disk \<Rightarrow> changelog_writer \<times> disk" where
  "truncateToLength new_length w disk =
     (w\<lparr>w_position := nat new_length\<rparr>,
      case map_of disk (w_filepath w) of
        None \<Rightarrow> disk
      | Some content \<Rightarrow>
          AList.update (w_filepath w) (take (nat new_length) content @ zeros (nat new_length - length content)) disk)"

section \<open>The class\<close>

type_synonym changelogs = "(int \<times> changelog_file_description) list"

record changelog =
  changelogs_dir :: string
  rotate_interval :: int
  existing_changelogs :: changelogs
  current_writer :: "changelog_writer option"
  index_to_start_pos :: index_to_offset
  cl_logs :: index_to_log_entry
  cl_start_index :: int

type_synonym cl_state = "changelog \<times> disk"

text \<open>\<^verbatim>\<open>std::map\<close>, sorted by key.\<close>

fun map_put :: "int \<Rightarrow> 'v \<Rightarrow> (int \<times> 'v) list \<Rightarrow> (int \<times> 'v) list" where
  "map_put k v [] = [(k, v)]"
| "map_put k v ((k', v') # m) =
     (if k < k' then (k, v) # (k', v') # m else if k = k' then (k, v) # m else (k', v') # map_put k v m)"

definition lower_bound :: "int \<Rightarrow> (int \<times> 'v) list \<Rightarrow> (int \<times> 'v) list" where
  "lower_bound k m = dropWhile (\<lambda>(k', v). k' < k) m"

definition upper_bound :: "int \<Rightarrow> (int \<times> 'v) list \<Rightarrow> (int \<times> 'v) list" where
  "upper_bound k m = dropWhile (\<lambda>(k', v). k' \<le> k) m"

definition remove_files :: "changelogs \<Rightarrow> disk \<Rightarrow> disk" where
  "remove_files ds disk = fold (\<lambda>(k, d). AList.delete (cf_path d)) ds disk"

definition in_dir :: "string \<Rightarrow> string \<Rightarrow> bool" where
  "in_dir dir p \<longleftrightarrow>
     (let base = path_join dir [] in take (length base) p = base \<and> CHR ''/'' \<notin> set (drop (length base) p))"

definition list_dir :: "string \<Rightarrow> disk \<Rightarrow> string list" where
  "list_dir dir disk = filter (in_dir dir) (map fst disk)"

fun describe_all :: "string list \<Rightarrow> changelogs \<Rightarrow> (changelog_error, changelogs) result" where
  "describe_all [] m = Inr m"
| "describe_all (p # ps) m =
     bind_result (getChangelogFileDescription p) (\<lambda>d. describe_all ps (map_put (from_log_index d) d m))"

definition changelog_new :: "string \<Rightarrow> int \<Rightarrow> disk \<Rightarrow> (changelog_error, cl_state) result" where
  "changelog_new dir interval disk =
     bind_result (describe_all (list_dir dir disk) []) (\<lambda>m.
       Inr (\<lparr>changelogs_dir = dir, rotate_interval = interval, existing_changelogs = m, current_writer = None,
             index_to_start_pos = [], cl_logs = [], cl_start_index = 0\<rparr>, disk))"

definition cl_rotate :: "int \<Rightarrow> cl_state \<Rightarrow> cl_state" where
  "cl_rotate new_start_log_index st =
     (let (cl, disk) = st;
          d = \<lparr>cf_prefix = DEFAULT_PREFIX, from_log_index = new_start_log_index,
               to_log_index = (new_start_log_index + rotate_interval cl - 1) mod 2 ^ 64, cf_path = []\<rparr>;
          d = d\<lparr>cf_path := formatChangelogPath (changelogs_dir cl) d\<rparr>;
          (w, disk) = changelog_writer_new (cf_path d) Rewrite new_start_log_index disk
      in (cl\<lparr>existing_changelogs := map_put new_start_log_index d (existing_changelogs cl), current_writer := Some w\<rparr>, disk))"

section \<open>Reading all files\<close>

record read_state =
  total_read :: int
  incomplete_log_index :: int
  rs_result :: changelog_read_result
  rs_first_read_index :: int
  rs_started :: bool
  rs_logs :: index_to_log_entry
  rs_offsets :: index_to_offset

definition start_to_read_from :: "int \<Rightarrow> int \<Rightarrow> int" where
  "start_to_read_from last_commited_log_index logs_to_keep =
     (if last_commited_log_index > logs_to_keep then last_commited_log_index - logs_to_keep else 1)"

fun read_files :: "nat \<Rightarrow> int \<Rightarrow> int \<Rightarrow> disk \<Rightarrow> changelogs \<Rightarrow> read_state \<Rightarrow> (changelog_error, read_state) result" where
  "read_files vt_size last_commited start disk [] s = Inr s"
| "read_files vt_size last_commited start disk ((key, d) # ds) s =
     (let entries_in_last = (to_log_index d - from_log_index d + 1) mod 2 ^ 64
      in if to_log_index d \<ge> start then
           if \<not> rs_started s \<and> from_log_index d > last_commited \<and> from_log_index d - last_commited > 1
           then Inr (s\<lparr>incomplete_log_index := key\<rparr>)
           else
             case map_of disk (cf_path d) of
               None \<Rightarrow> Inl FileDoesntExist
             | Some content \<Rightarrow>
                 (case readChangelog vt_size start (rs_logs s) (rs_offsets s) content of
                    Inl e \<Rightarrow> Inl (ReadError e)
                  | Inr (res, logs, offsets) \<Rightarrow>
                      let s' = s\<lparr>rs_started := True, rs_result := res, rs_logs := logs, rs_offsets := offsets,
                                 rs_first_read_index :=
                                   (if rs_first_read_index s = 0 then first_read_index res else rs_first_read_index s),
                                 total_read := total_read s + entries_read res\<rparr>
                      in if entries_read res < entries_in_last then Inr (s'\<lparr>incomplete_log_index := key\<rparr>)
                         else read_files vt_size last_commited start disk ds s')
         else read_files vt_size last_commited start disk ds s)"

definition read_state_init :: "cl_state \<Rightarrow> read_state" where
  "read_state_init st =
     \<lparr>total_read = 0, incomplete_log_index = 0,
      rs_result = \<lparr>entries_read = 0, first_read_index = 0, last_position = 0, read_error = False\<rparr>,
      rs_first_read_index = 0, rs_started = False, rs_logs = cl_logs (fst st), rs_offsets = index_to_start_pos (fst st)\<rparr>"

text \<open>What follows the loop: files behind the incomplete one are removed, and the last file that is left is continued.\<close>

definition continue_last :: "read_state \<Rightarrow> cl_state \<Rightarrow> cl_state" where
  "continue_last s st =
     (let (cl, disk) = st;
          gone = (if rs_started s then upper_bound (incomplete_log_index s) (existing_changelogs cl) else existing_changelogs cl);
          kept = take (length (existing_changelogs cl) - length gone) (existing_changelogs cl);
          disk = remove_files gone disk;
          cl = cl\<lparr>existing_changelogs := kept\<rparr>
      in if kept = [] then (cl, disk)
         else
           let d = snd (last kept);
               (w, disk) = changelog_writer_new (cf_path d) Append (from_log_index d) disk;
               w = w\<lparr>entries_written := entries_read (rs_result s)\<rparr>;
               (w, disk) = (if read_error (rs_result s) then truncateToLength (last_position (rs_result s)) w disk else (w, disk))
           in (cl\<lparr>current_writer := Some w\<rparr>, disk))"

definition readChangelogAndInitWriter :: "nat \<Rightarrow> int \<Rightarrow> int \<Rightarrow> cl_state \<Rightarrow> (changelog_error, cl_state) result" where
  "readChangelogAndInitWriter vt_size last_commited_log_index logs_to_keep st =
     (let (cl, disk) = st
      in bind_result
           (read_files vt_size last_commited_log_index (start_to_read_from last_commited_log_index logs_to_keep) disk
              (existing_changelogs cl) (read_state_init st))
           (\<lambda>s. let start_idx = (if rs_first_read_index s \<noteq> 0 then rs_first_read_index s else last_commited_log_index);
                    cl = cl\<lparr>cl_start_index := start_idx, cl_logs := rs_logs s, index_to_start_pos := rs_offsets s\<rparr>;
                    (cl, disk) = (if incomplete_log_index s \<noteq> 0 then continue_last s (cl, disk) else (cl, disk))
                in Inr (if current_writer cl = None then cl_rotate ((start_idx + total_read s) mod 2 ^ 64) (cl, disk)
                        else (cl, disk))))"

section \<open>Operations\<close>

definition getNextEntryIndex :: "changelog \<Rightarrow> int" where
  "getNextEntryIndex cl = (cl_start_index cl + int (length (cl_logs cl))) mod 2 ^ 64"

type_synonym cl_outcome = "(changelog_error \<times> cl_state, cl_state) result option"

text \<open>
  \<open>None\<close> is undefined behaviour, and an entry without a buffer, for which NuRaft has no copy.  An exception leaves the state it
  left.
\<close>

definition makeClone :: "log_entry \<Rightarrow> log_entry option" where
  "makeClone e = (if le_buf e = None then None else Some e)"

definition appendEntry :: "int \<Rightarrow> log_entry \<Rightarrow> cl_state \<Rightarrow> cl_outcome" where
  "appendEntry index e st =
     (let (cl, disk) = st
      in case current_writer cl of
           None \<Rightarrow> Some (Inl (LogicalError, st))
         | Some w \<Rightarrow>
             let cl = (if cl_logs cl = [] then cl\<lparr>cl_start_index := index\<rparr> else cl);
                 (cl, disk) = (if entries_written w = rotate_interval cl then cl_rotate index (cl, disk) else (cl, disk));
                 (offset, w, disk) = appendRecord (buildRecord index e) (the (current_writer cl)) disk;
                 cl = cl\<lparr>current_writer := Some w\<rparr>
             in if map_of (index_to_start_pos cl) index \<noteq> None then Some (Inl (LogicalError, (cl, disk)))
                else
                  case makeClone e of
                    None \<Rightarrow> None
                  | Some clone \<Rightarrow>
                      Some (Inr (cl\<lparr>index_to_start_pos := AList.update index offset (index_to_start_pos cl),
                                     cl_logs := AList.update index clone (cl_logs cl)\<rparr>, disk)))"

text \<open>The loop that removes the entries from \<open>i\<close> on; it ends because there are finitely many entries.\<close>

function drop_entries ::
  "int \<Rightarrow> index_to_log_entry \<Rightarrow> index_to_offset \<Rightarrow> int \<Rightarrow> index_to_log_entry \<times> index_to_offset \<times> int" where
  "drop_entries i logs offsets written =
     (if map_of logs i = None then (logs, offsets, written)
      else drop_entries ((i + 1) mod 2 ^ 64) (AList.delete i logs) (AList.delete i offsets) ((written - 1) mod 2 ^ 64))"
  by pat_completeness auto
termination
proof (relation "measure (\<lambda>(i, logs, offsets, written). length logs)")
  fix i :: int and logs :: index_to_log_entry and offsets :: index_to_offset and written :: int
  assume "map_of logs i \<noteq> None"
  then have "(i, the (map_of logs i)) \<in> set logs" by (auto dest: map_of_SomeD)
  then have "length (AList.delete i logs) < length logs"
    unfolding AList.delete_eq by (intro length_filter_less) auto
  then show "(((i + 1) mod 2 ^ 64, AList.delete i logs, AList.delete i offsets, (written - 1) mod 2 ^ 64), i, logs, offsets, written)
      \<in> measure (\<lambda>(i, logs, offsets, written). length logs)" by simp
qed simp

declare drop_entries.simps [simp del]

text \<open>
  The file that an earlier index is in, for \<^verbatim>\<open>writeAt\<close>; \<open>None\<close> when it dereferences the end of the map or steps before
  its beginning.
\<close>

definition previous_file :: "int \<Rightarrow> changelogs \<Rightarrow> (int \<times> changelog_file_description) option" where
  "previous_file index m =
     (case lower_bound index m of
        [] \<Rightarrow> None
      | (key, d) # _ \<Rightarrow>
          if key = index then Some (key, d)
          else
            let smaller = take (length m - length (lower_bound index m)) m
            in if smaller = [] then None else Some (key, snd (last smaller)))"

definition writeAt :: "int \<Rightarrow> log_entry \<Rightarrow> cl_state \<Rightarrow> cl_outcome" where
  "writeAt index e st =
     (let (cl, disk) = st
      in case map_of (index_to_start_pos cl) index of
           None \<Rightarrow> Some (Inl (LogicalError, st))
         | Some position \<Rightarrow>
             (case current_writer cl of
                None \<Rightarrow> None
              | Some cur \<Rightarrow>
                  let go_to_previous_file = index < w_start_index cur
                  in case (if go_to_previous_file then
                             map_option (\<lambda>(key, d).
                                 let (w, disk) = changelog_writer_new (cf_path d) Append key disk
                                 in (w\<lparr>entries_written := (to_log_index d - from_log_index d + 1) mod 2 ^ 64\<rparr>, disk))
                               (previous_file index (existing_changelogs cl))
                           else Some (cur, disk)) of
                       None \<Rightarrow> None
                     | Some (w, disk) \<Rightarrow>
                         let (w, disk) = truncateToLength position w disk;
                             gone = (if go_to_previous_file then upper_bound index (existing_changelogs cl) else []);
                             disk = remove_files gone disk;
                             m = take (length (existing_changelogs cl) - length gone) (existing_changelogs cl);
                             (logs, offsets, written) =
                               drop_entries index (cl_logs cl) (index_to_start_pos cl) (entries_written w);
                             cl = cl\<lparr>existing_changelogs := m, current_writer := Some (w\<lparr>entries_written := written\<rparr>),
                                     cl_logs := logs, index_to_start_pos := offsets\<rparr>
                         in appendEntry index e (cl, disk)))"

fun compact_files :: "int \<Rightarrow> changelogs \<Rightarrow> index_to_offset \<Rightarrow> disk \<Rightarrow> changelogs \<times> index_to_offset \<times> disk" where
  "compact_files up_to [] offsets disk = ([], offsets, disk)"
| "compact_files up_to ((key, d) # ds) offsets disk =
     (if to_log_index d \<le> up_to then
        compact_files up_to ds (filter (\<lambda>(i, pos). \<not> i \<le> to_log_index d) offsets) (AList.delete (cf_path d) disk)
      else ((key, d) # ds, offsets, disk))"

definition compact :: "int \<Rightarrow> cl_state \<Rightarrow> cl_state" where
  "compact up_to st =
     (let (cl, disk) = st;
          (m, offsets, disk) = compact_files up_to (existing_changelogs cl) (index_to_start_pos cl) disk
      in (cl\<lparr>existing_changelogs := m, index_to_start_pos := offsets, cl_start_index := (up_to + 1) mod 2 ^ 64,
             cl_logs := filter (\<lambda>(i, e). \<not> i \<le> up_to) (cl_logs cl)\<rparr>, disk))"

definition entryAt :: "int \<Rightarrow> changelog \<Rightarrow> log_entry option" where
  "entryAt index cl = map_of (cl_logs cl) index"

text \<open>The entry that stands for an empty log is built by NuRaft; it is an argument.\<close>

definition getLastEntry :: "log_entry \<Rightarrow> changelog \<Rightarrow> log_entry" where
  "getLastEntry fake_entry cl =
     (case map_of (cl_logs cl) ((getNextEntryIndex cl - 1) mod 2 ^ 64) of None \<Rightarrow> fake_entry | Some e \<Rightarrow> e)"

definition getLogEntriesBetween :: "int \<Rightarrow> int \<Rightarrow> changelog \<Rightarrow> log_entry option list" where
  "getLogEntriesBetween start end_idx cl = map (\<lambda>i. entryAt i cl) [start..end_idx - 1]"

text \<open>
  Packs of entries that servers exchange: the entries of a pack in their order; their bytes are a format of NuRaft.
\<close>

definition serializeEntriesToBuffer :: "int \<Rightarrow> int \<Rightarrow> changelog \<Rightarrow> (changelog_error, log_entry list) result" where
  "serializeEntriesToBuffer index cnt cl =
     (let es = map (\<lambda>i. map_of (cl_logs cl) i) [index..index + cnt - 1]
      in if None \<in> set es then Inl LogicalError else Inr (map the es))"

fun apply_pack_from :: "int \<Rightarrow> log_entry list \<Rightarrow> cl_state \<Rightarrow> cl_outcome" where
  "apply_pack_from index [] st = Some (Inr st)"
| "apply_pack_from index (e # es) st =
     (case appendEntry index e st of
        Some (Inr st') \<Rightarrow> apply_pack_from ((index + 1) mod 2 ^ 64) es st'
      | r \<Rightarrow> r)"

definition applyEntriesFromBuffer :: "int \<Rightarrow> log_entry list \<Rightarrow> cl_state \<Rightarrow> cl_outcome" where
  "applyEntriesFromBuffer index pack st =
     (case pack of
        [] \<Rightarrow> Some (Inr st)
      | e # es \<Rightarrow>
          if map_of (cl_logs (fst st)) index \<noteq> None then
            (case writeAt index e st of
               Some (Inr st') \<Rightarrow> apply_pack_from ((index + 1) mod 2 ^ 64) es st'
             | r \<Rightarrow> r)
          else apply_pack_from index pack st)"

section \<open>The log store\<close>

text \<open>\<^verbatim>\<open>KeeperLogStore\<close> adds a lock to each operation, and chooses the index of an append.\<close>

definition log_store_append :: "log_entry \<Rightarrow> cl_state \<Rightarrow> cl_outcome" where
  "log_store_append e st = appendEntry (getNextEntryIndex (fst st)) e st"

definition term_at :: "int \<Rightarrow> changelog \<Rightarrow> 64 word" where
  "term_at index cl = (case entryAt index cl of None \<Rightarrow> 0 | Some e \<Rightarrow> le_term e)"

text \<open>Starting a log store: its constructor and \<^verbatim>\<open>init\<close>.\<close>

definition log_store_start :: "nat \<Rightarrow> string \<Rightarrow> int \<Rightarrow> int \<Rightarrow> int \<Rightarrow> disk \<Rightarrow> (changelog_error, cl_state) result" where
  "log_store_start vt_size dir interval last_commited_log_index logs_to_keep disk =
     bind_result (changelog_new dir interval disk) (readChangelogAndInitWriter vt_size last_commited_log_index logs_to_keep)"

end
