(* ===== verification/Changelog_Restart.thy ===== *)
theory Changelog_Restart
  imports Changelog
begin

text \<open>
  What is in the log survives: between the entries in memory and the files there is a relation that appends, crashes and
  restarts keep.
\<close>

section \<open>Names of files\<close>

lemma after_last_slash: "CHR ''/'' \<notin> set name \<Longrightarrow> after_last CHR ''/'' (path_join dir name) = name"
proof -
  assume name: "CHR ''/'' \<notin> set name"
  have tw: "takeWhile (\<lambda>x. x \<noteq> CHR ''/'') (rev name @ rest) = rev name @ takeWhile (\<lambda>x. x \<noteq> CHR ''/'') rest" for rest
    by (rule takeWhile_append2) (use name in auto)
  have slash: "after_last CHR ''/'' (xs @ CHR ''/'' # name) = name" for xs
    by (simp add: after_last_def tw)
  show ?thesis
  proof (cases "dir = [] \<or> last dir = CHR ''/''")
    case True
    show ?thesis
    proof (cases "dir = []")
      case True
      then show ?thesis by (simp add: path_join_def after_last_def tw [of "[]", unfolded append_Nil2 takeWhile.simps])
    next
      case False
      then obtain xs where "dir = xs @ [CHR ''/'']" using \<open>dir = [] \<or> last dir = CHR ''/''\<close> by (metis append_butlast_last_id)
      then show ?thesis using slash by (simp add: path_join_def)
    qed
  next
    case False
    then show ?thesis using slash by (simp add: path_join_def)
  qed
qed

lemma stem_bin:
  assumes "CHR ''/'' \<notin> set s" and "s \<noteq> []"
  shows "stem (path_join dir (s @ ''.bin'')) = s"
proof -
  have "after_last CHR ''/'' (path_join dir (s @ ''.bin'')) = s @ ''.bin''"
    by (rule after_last_slash) (use assms in simp)
  moreover have "before_last CHR ''.'' (s @ ''.bin'') = s" by (simp add: before_last_def)
  ultimately show ?thesis using assms(2) by (simp add: stem_def Let_def append_eq_Cons_conv)
qed

lemma split_on_plain: "c \<notin> set p \<Longrightarrow> split_on c p = [p]"
  by (induction p) auto

lemma split_on_first: "c \<notin> set p \<Longrightarrow> split_on c (p @ c # q) = p # split_on c q"
  by (induction p) auto

lemma read_uint_digits:
  assumes "\<forall>c\<in>set ds. is_digit c"
  shows "read_uint_loop (of_int a) ds = Inr (of_int (foldl (\<lambda>acc c. acc * 10 + digit_value c) a ds))"
  using assms
proof (induction ds arbitrary: a)
  case (Cons c ds)
  have "c \<noteq> CHR ''+''" "c \<noteq> CHR ''-''" using Cons.prems by (auto simp: is_digit_def)
  then show ?case using Cons.prems Cons.IH [of "a * 10 + digit_value c"] by simp
qed simp

lemma parse_uint64_write:
  assumes "0 \<le> x" and "x < 2 ^ 64"
  shows "parse_uint64 (writeIntText x) = Inr x"
proof -
  have "read_uint_loop (of_int 0) (write_nat (nat x)) = Inr (of_int (digits_value (write_nat (nat x))))"
    unfolding digits_value_def by (rule read_uint_digits) (use write_nat_digits in blast)
  then show ?thesis using assms by (simp add: parse_uint64_def writeIntText_def uint_word_of_int)
qed

lemma int_text_chars: "0 \<le> x \<Longrightarrow> c \<in> set (writeIntText x) \<Longrightarrow> is_digit c"
  by (auto simp: writeIntText_def dest: write_nat_digits)

definition file_of :: "string \<Rightarrow> int \<Rightarrow> int \<Rightarrow> changelog_file_description" where
  "file_of dir interval start =
     (let d = \<lparr>cf_prefix = DEFAULT_PREFIX, from_log_index = start, to_log_index = start + interval - 1, cf_path = []\<rparr>
      in d\<lparr>cf_path := formatChangelogPath dir d\<rparr>)"

lemma file_of_simps [simp]:
  "from_log_index (file_of dir interval start) = start" "to_log_index (file_of dir interval start) = start + interval - 1"
  by (simp_all add: file_of_def Let_def)

abbreviation file_path :: "string \<Rightarrow> int \<Rightarrow> int \<Rightarrow> string" where
  "file_path dir interval start \<equiv> cf_path (file_of dir interval start)"

text \<open>The description of a file is read back from its path.\<close>

lemma description_of_path:
  assumes "0 \<le> start" and "1 \<le> interval" and "start + interval \<le> 2 ^ 64"
  shows "getChangelogFileDescription (file_path dir interval start) = Inr (file_of dir interval start)"
proof -
  let ?from = "writeIntText start" and ?to = "writeIntText (start + interval - 1)"
  let ?s = "DEFAULT_PREFIX @ CHR ''_'' # ?from @ CHR ''_'' # ?to"
  have digits: "is_digit c" if "c \<in> set ?from \<union> set ?to" for c
    using that int_text_chars [of start c] int_text_chars [of "start + interval - 1" c] assms by auto
  have no: "CHR ''/'' \<notin> set ?from \<union> set ?to" "CHR ''_'' \<notin> set ?from" "CHR ''_'' \<notin> set ?to"
    using digits by (fastforce simp: is_digit_def)+
  have path: "file_path dir interval start = path_join dir (?s @ ''.bin'')"
    by (simp add: file_of_def Let_def formatChangelogPath_def)
  have "stem (file_path dir interval start) = ?s" unfolding path by (rule stem_bin) (use no in auto)
  moreover have "split_on CHR ''_'' ?s = [DEFAULT_PREFIX, ?from, ?to]"
    using no split_on_first [of "CHR ''_''" DEFAULT_PREFIX] split_on_first [of "CHR ''_''" ?from ?to] split_on_plain [of "CHR ''_''" ?to]
    by simp
  moreover have "parse_uint64 ?from = Inr start" "parse_uint64 ?to = Inr (start + interval - 1)"
    using assms by (simp_all add: parse_uint64_write)
  ultimately show ?thesis by (simp add: getChangelogFileDescription_def) (simp add: file_of_def Let_def)
qed

lemma file_path_inj:
  assumes "file_path dir interval s = file_path dir interval t"
    and "0 \<le> s" "0 \<le> t" "1 \<le> interval" "s + interval \<le> 2 ^ 64" "t + interval \<le> 2 ^ 64"
  shows "s = t"
proof -
  have "Inr (file_of dir interval s) = (Inr (file_of dir interval t) :: (changelog_error, changelog_file_description) result)"
    using description_of_path [OF assms(2,4,5), of dir] description_of_path [OF assms(3,4,6), of dir]
    unfolding assms(1) by (rule trans [OF sym])
  then have "from_log_index (file_of dir interval s) = from_log_index (file_of dir interval t)" by (rule arg_cong [OF Inr_inject])
  then show ?thesis by simp
qed

lemma file_path_in_dir: "0 \<le> start \<Longrightarrow> 1 \<le> interval \<Longrightarrow> in_dir dir (file_path dir interval start)"
proof -
  assume range: "0 \<le> start" "1 \<le> interval"
  let ?name = "DEFAULT_PREFIX @ ''_'' @ writeIntText start @ ''_'' @ writeIntText (start + interval - 1) @ ''.bin''"
  have path: "file_path dir interval start = path_join dir [] @ ?name"
    by (simp add: file_of_def Let_def formatChangelogPath_def path_join_def)
  have "is_digit c" if "c \<in> set (writeIntText start) \<union> set (writeIntText (start + interval - 1))" for c
    using that int_text_chars [of start c] int_text_chars [of "start + interval - 1" c] range by auto
  then have "CHR ''/'' \<notin> set ?name" by (fastforce simp: is_digit_def)
  then show ?thesis unfolding path by (simp add: in_dir_def Let_def)
qed

section \<open>The map of files\<close>

abbreviation key_sorted :: "(int \<times> 'v) list \<Rightarrow> bool" where
  "key_sorted m \<equiv> sorted_wrt (\<lambda>x y. fst x < fst y) m"

lemma map_put_keys: "set (map fst (map_put k v m)) = insert k (set (map fst m))"
  by (induction k v m rule: map_put.induct) auto

lemma map_put_sorted: "key_sorted m \<Longrightarrow> key_sorted (map_put k v m)"
proof (induction k v m rule: map_put.induct)
  case (2 k v k' v' m)
  have keys: "x \<in> set (map_put k v m) \<Longrightarrow> fst x = k \<or> fst x \<in> fst ` set m" for x
    using map_put_keys [of k v m] by force
  show ?case
  proof (cases "k < k'")
    case True
    then show ?thesis using 2 by force
  next
    case False
    then show ?thesis using 2 keys by fastforce
  qed
qed simp

lemma map_put_at: "key_sorted m \<Longrightarrow> map_of (map_put k v m) j = (if j = k then Some v else map_of m j)"
proof (induction k v m rule: map_put.induct)
  case (2 k v k' v' m)
  have "map_of m k = None" if "k \<le> k'"
    using 2(2) that by (auto simp: map_of_eq_None_iff)
  then show ?case using 2 by auto
qed simp

lemma map_put_last:
  "(\<And>x. x \<in> set m \<Longrightarrow> fst x < k) \<Longrightarrow> map_put k v m = m @ [(k, v)]"
  by (induction k v m rule: map_put.induct) force+

lemma key_sorted_unique:
  assumes "key_sorted m" and "key_sorted m'" and "map_of m = map_of m'"
  shows "m = m'"
proof -
  have keys: "sorted (map fst m)" "distinct (map fst m)" if "key_sorted m" for m :: "(int \<times> 'a) list"
    using that by (simp_all add: sorted_wrt_map sorted_wrt_mono_rel [of _ "\<lambda>x y. fst x < fst y"] distinct_map)
      (induction m; force)+
  have "x \<in> set m \<longleftrightarrow> x \<in> set m'" for x
    using map_of_eq_Some_iff [OF keys(2) [OF assms(1)], of "fst x" "snd x"]
      map_of_eq_Some_iff [OF keys(2) [OF assms(2)], of "fst x" "snd x"] assms(3) by simp
  then have "set m = set m'" by blast
  moreover have "inj_on fst (set m)" using keys(2) [OF assms(1)] by (simp add: distinct_map)
  ultimately show ?thesis
    using map_sorted_distinct_set_unique [of fst m m'] keys assms by simp
qed

text \<open>Whatever the order of the directory, its files give the sorted map.\<close>

lemma describe_all_files:
  assumes "\<And>p. p \<in> set ps \<Longrightarrow> \<exists>s\<in>S. p = file_path dir interval s"
    and "\<And>s. s \<in> S \<Longrightarrow> 0 \<le> s \<and> s + interval \<le> 2 ^ 64" and "1 \<le> interval" and "key_sorted m"
  shows "\<exists>m'. describe_all ps m = Inr m' \<and> key_sorted m'
    \<and> (\<forall>k. map_of m' k = (if k \<in> S \<and> file_path dir interval k \<in> set ps then Some (file_of dir interval k) else map_of m k))"
  using assms(1,4)
proof (induction ps arbitrary: m)
  case (Cons p ps)
  obtain s where s: "s \<in> S" "p = file_path dir interval s" using Cons.prems(1) by auto
  have d: "getChangelogFileDescription p = Inr (file_of dir interval s)"
    unfolding s(2) by (rule description_of_path) (use assms(2) [OF s(1)] assms(3) in simp_all)
  have inj: "file_path dir interval k = p \<longleftrightarrow> k = s" if "k \<in> S" for k
    using file_path_inj [of dir interval k s] assms(2) [OF that] assms(2) [OF s(1)] assms(3) s(2) by blast
  obtain m' where m': "describe_all ps (map_put s (file_of dir interval s) m) = Inr m'" "key_sorted m'"
      "\<forall>k. map_of m' k = (if k \<in> S \<and> file_path dir interval k \<in> set ps then Some (file_of dir interval k)
         else map_of (map_put s (file_of dir interval s) m) k)"
    using Cons.IH [of "map_put s (file_of dir interval s) m"] Cons.prems map_put_sorted by (metis list.set_intros(2))
  have "map_of m' k = (if k \<in> S \<and> file_path dir interval k \<in> set (p # ps) then Some (file_of dir interval k) else map_of m k)" for k
    using m'(3) inj s(1) map_put_at [OF Cons.prems(2), of s "file_of dir interval s" k] by auto
  then show ?case using m'(1,2) d by simp
qed simp

section \<open>Memory and files\<close>

text \<open>The log begins at index \<open>b\<close> and has files of \<open>R\<close> entries, the last of which is number \<open>m\<close>.\<close>

abbreviation file_start :: "int \<Rightarrow> nat \<Rightarrow> nat \<Rightarrow> int" where
  "file_start b R c \<equiv> b + int (c * R)"

definition chunk :: "nat \<Rightarrow> nat \<Rightarrow> 'a list \<Rightarrow> 'a list" where
  "chunk R c es = take R (drop (c * R) es)"

definition log_files :: "string \<Rightarrow> nat \<Rightarrow> int \<Rightarrow> nat \<Rightarrow> changelogs" where
  "log_files dir R b n = map (\<lambda>c. (file_start b R c, file_of dir (int R) (file_start b R c))) [0..<n]"

abbreviation nth_path :: "string \<Rightarrow> nat \<Rightarrow> int \<Rightarrow> nat \<Rightarrow> string" where
  "nth_path dir R b c \<equiv> file_path dir (int R) (file_start b R c)"

abbreviation chunk_bytes :: "nat \<Rightarrow> int \<Rightarrow> log_entry list \<Rightarrow> nat \<Rightarrow> string" where
  "chunk_bytes R b es c \<equiv> log_bytes (file_start b R c) (chunk R c es)"

definition entry_ok :: "nat \<Rightarrow> log_entry \<Rightarrow> bool" where
  "entry_ok vt_size e \<longleftrightarrow> entry_sized vt_size e \<and> le_buf e \<noteq> None \<and> le_buf e \<noteq> Some []"

definition disk_holds :: "string \<Rightarrow> nat \<Rightarrow> int \<Rightarrow> nat \<Rightarrow> log_entry list \<Rightarrow> disk \<Rightarrow> bool" where
  "disk_holds dir R b n es disk \<longleftrightarrow>
     (\<forall>c<n. map_of disk (nth_path dir R b c) = Some (chunk_bytes R b es c))
     \<and> (\<forall>p. in_dir dir p \<and> map_of disk p \<noteq> None \<longrightarrow> (\<exists>c<n. p = nth_path dir R b c))"

definition memory_holds :: "int \<Rightarrow> log_entry list \<Rightarrow> changelog \<Rightarrow> bool" where
  "memory_holds b es cl \<longleftrightarrow>
     cl_start_index cl = b \<and> distinct (map fst (cl_logs cl))
     \<and> (\<forall>j. map_of (cl_logs cl) j = (if b \<le> j \<and> j < b + int (length es) then Some (es ! nat (j - b)) else None))
     \<and> (\<forall>j. map_of (index_to_start_pos cl) j = None \<longleftrightarrow> \<not> (b \<le> j \<and> j < b + int (length es)))"

definition writer_at :: "string \<Rightarrow> nat \<Rightarrow> string \<Rightarrow> changelog_writer \<Rightarrow> bool" where
  "writer_at path n content w \<longleftrightarrow>
     w_filepath w = path \<and> entries_written w = int n \<and> (w_mode w = Rewrite \<longrightarrow> w_position w = length content)"

definition log_holds :: "nat \<Rightarrow> string \<Rightarrow> nat \<Rightarrow> int \<Rightarrow> nat \<Rightarrow> log_entry list \<Rightarrow> cl_state \<Rightarrow> bool" where
  "log_holds vt_size dir R b m es st \<longleftrightarrow>
     0 < R \<and> 1 \<le> b \<and> file_start b R (Suc m) \<le> 2 ^ 64 \<and> list_all (entry_ok vt_size) es
     \<and> m * R \<le> length es \<and> length es \<le> Suc m * R
     \<and> changelogs_dir (fst st) = dir \<and> rotate_interval (fst st) = int R
     \<and> existing_changelogs (fst st) = log_files dir R b (Suc m)
     \<and> disk_holds dir R b (Suc m) es (snd st) \<and> memory_holds b es (fst st)
     \<and> (\<exists>w. current_writer (fst st) = Some w
            \<and> writer_at (nth_path dir R b m) (length es - m * R) (chunk_bytes R b es m) w)"

lemma memory_size:
  assumes "memory_holds b es cl"
  shows "length (cl_logs cl) = length es"
proof -
  have "dom (map_of (cl_logs cl)) = {b..<b + int (length es)}"
    using assms by (auto simp: memory_holds_def dom_def)
  then have "card (set (map fst (cl_logs cl))) = length es"
    by (simp add: dom_map_of_conv_image_fst)
  then show ?thesis using assms distinct_card [of "map fst (cl_logs cl)"] by (simp add: memory_holds_def)
qed

lemma next_index:
  assumes "memory_holds b es cl" and "1 \<le> b" and "b + int (length es) < 2 ^ 64"
  shows "getNextEntryIndex cl = b + int (length es)"
proof -
  have "cl_start_index cl = b" using assms(1) by (simp add: memory_holds_def)
  then show ?thesis using assms(2,3) by (simp add: getNextEntryIndex_def memory_size [OF assms(1)])
qed

lemma log_bytes_append: "log_bytes index (es @ es') = log_bytes index es @ log_bytes (index + int (length es)) es'"
  by (induction es arbitrary: index) (simp_all add: add.assoc)

lemma chunk_snoc_last:
  assumes "m * R \<le> length es" and "length es < Suc m * R"
  shows "chunk R m (es @ [e]) = chunk R m es @ [e]" "length (chunk R m es) = length es - m * R"
  using assms by (simp_all add: chunk_def)

lemma chunk_bytes_snoc:
  assumes "m * R \<le> length es" and "length es < Suc m * R"
  shows "chunk_bytes R b (es @ [e]) m = chunk_bytes R b es m @ entry_bytes (b + int (length es)) e"
proof -
  have at: "file_start b R m + int (length (chunk R m es)) = b + int (length es)"
    using assms(1) chunk_snoc_last(2) [OF assms] by simp
  show ?thesis unfolding chunk_snoc_last(1) [OF assms] log_bytes_append at by simp
qed

lemma chunk_snoc_before: "Suc c * R \<le> length es \<Longrightarrow> chunk R c (es @ es') = chunk R c es"
  by (simp add: chunk_def)

lemma nth_path_inj:
  assumes "nth_path dir R b c = nth_path dir R b c'" and "0 < R" and "1 \<le> b"
    and "file_start b R (Suc c) \<le> 2 ^ 64" and "file_start b R (Suc c') \<le> 2 ^ 64"
  shows "c = c'"
proof -
  have "file_start b R c = file_start b R c'" by (rule file_path_inj [OF assms(1)]) (use assms(2-5) in simp_all)
  then show ?thesis using assms(2) by simp
qed

lemma file_start_mono: "c \<le> m \<Longrightarrow> file_start b R c \<le> file_start b R m"
  by (simp add: mult_le_mono1 flip: of_nat_mult)

text \<open>Writing at the end of the last file.\<close>

lemma write_at_end:
  assumes "map_of disk path = Some content" and "writer_at path n content w"
  shows "\<exists>w'. write_bytes bytes w disk = (w', AList.update path (content @ bytes) disk)
    \<and> w_filepath w' = path \<and> (w_mode w' = Rewrite \<longrightarrow> w_position w' = length (content @ bytes))"
  using assms by (cases "w_mode w") (auto simp: write_bytes_def writer_at_def)

section \<open>Appending\<close>

lemma disk_holds_append:
  assumes "disk_holds dir R b (Suc m) es disk" and "0 < R" "1 \<le> b" "file_start b R (Suc m) \<le> 2 ^ 64"
    and "m * R \<le> length es" "length es < Suc m * R"
  shows "disk_holds dir R b (Suc m) (es @ [e])
    (AList.update (nth_path dir R b m) (chunk_bytes R b es m @ entry_bytes (b + int (length es)) e) disk)"
  unfolding disk_holds_def
proof (intro conjI allI impI)
  fix c
  assume c: "c < Suc m"
  show "map_of (AList.update (nth_path dir R b m) (chunk_bytes R b es m @ entry_bytes (b + int (length es)) e) disk) (nth_path dir R b c)
      = Some (chunk_bytes R b (es @ [e]) c)"
  proof (cases "c = m")
    case True
    show ?thesis unfolding True chunk_bytes_snoc [OF assms(5,6)] by (simp add: update_conv')
  next
    case False
    then have "Suc c * R \<le> m * R" using c by (intro mult_le_mono1) simp
    then have full: "Suc c * R \<le> length es" and bound: "file_start b R (Suc c) \<le> 2 ^ 64"
      using assms(4,5) by (simp_all flip: of_nat_add of_nat_mult)
    have "nth_path dir R b c \<noteq> nth_path dir R b m"
      using nth_path_inj [of dir R b c m] assms(2-4) bound False by blast
    then show ?thesis
      using assms(1) c by (simp add: disk_holds_def update_conv' chunk_snoc_before [OF full])
  qed
next
  fix p
  assume "in_dir dir p \<and> map_of (AList.update (nth_path dir R b m) (chunk_bytes R b es m @ entry_bytes (b + int (length es)) e) disk) p \<noteq> None"
  then have "p = nth_path dir R b m \<or> in_dir dir p \<and> map_of disk p \<noteq> None" by (auto simp: update_conv' split: if_splits)
  then show "\<exists>c<Suc m. p = nth_path dir R b c" using assms(1) by (auto simp: disk_holds_def)
qed

lemma memory_holds_append:
  assumes "memory_holds b es cl"
  shows "memory_holds b (es @ [e])
    (cl\<lparr>current_writer := w, index_to_start_pos := AList.update (b + int (length es)) offset (index_to_start_pos cl),
        cl_logs := AList.update (b + int (length es)) e (cl_logs cl)\<rparr>)"
proof -
  have "(es @ [e]) ! nat (j - b) = es ! nat (j - b)" if "b \<le> j" "j < b + int (length es)" for j
    using that by (simp add: nth_append)
  then show ?thesis using assms by (auto simp: memory_holds_def update_conv' distinct_update)
qed

lemma append_in_file:
  assumes h: "log_holds vt_size dir R b m es (cl, disk)" and ok: "entry_ok vt_size e" and room: "length es < Suc m * R"
  shows "\<exists>st'. appendEntry (b + int (length es)) e (cl, disk) = Some (Inr st') \<and> log_holds vt_size dir R b m (es @ [e]) st'"
proof -
  note facts = h [unfolded log_holds_def fst_conv snd_conv]
  obtain w where w: "current_writer cl = Some w"
      "writer_at (nth_path dir R b m) (length es - m * R) (chunk_bytes R b es m) w"
    using facts by blast
  let ?i = "b + int (length es)"
  let ?bytes = "entry_bytes ?i e"
  have content: "map_of disk (nth_path dir R b m) = Some (chunk_bytes R b es m)"
    using facts by (simp add: disk_holds_def)
  obtain w' where w': "write_bytes ?bytes w disk = (w', AList.update (nth_path dir R b m) (chunk_bytes R b es m @ ?bytes) disk)"
      "w_filepath w' = nth_path dir R b m" "w_mode w' = Rewrite \<longrightarrow> w_position w' = length (chunk_bytes R b es m @ ?bytes)"
    using write_at_end [OF content w(2)] by blast
  define written where "written = w'\<lparr>entries_written := (entries_written w + 1) mod 2 ^ 64\<rparr>"
  have start: "(if cl_logs cl = [] then cl\<lparr>cl_start_index := ?i\<rparr> else cl) = cl"
    using memory_size [of b es cl] facts by (auto simp: memory_holds_def)
  obtain k where k: "length es = m * R + k" using facts le_Suc_ex by blast
  have "R \<le> Suc m * R" by simp
  then have "k < R" "int R < 2 ^ 64" using facts room k by (simp_all flip: of_nat_add of_nat_mult)
  moreover have "entries_written w = int k" "rotate_interval cl = int R"
    using w(2) facts unfolding writer_at_def k by simp_all
  ultimately have below: "entries_written w \<noteq> rotate_interval cl"
    and count: "(entries_written w + 1) mod 2 ^ 64 = int (length (es @ [e]) - m * R)"
    by (simp_all add: k)
  have free: "map_of (index_to_start_pos cl) ?i = None" using facts by (simp add: memory_holds_def)
  have clone: "makeClone e = Some e" using ok by (simp add: makeClone_def entry_ok_def)
  let ?st' = "(cl\<lparr>current_writer := Some written, index_to_start_pos := AList.update ?i (w_count w) (index_to_start_pos cl),
      cl_logs := AList.update ?i e (cl_logs cl)\<rparr>, AList.update (nth_path dir R b m) (chunk_bytes R b es m @ ?bytes) disk)"
  have "appendEntry ?i e (cl, disk) = Some (Inr ?st')"
    unfolding appendEntry_def Let_def prod.case w(1) option.case start
    using below free clone by (simp add: appendRecord_def w'(1) w(1) written_def)
  moreover have "log_holds vt_size dir R b m (es @ [e]) ?st'"
  proof -
    have bytes: "chunk_bytes R b (es @ [e]) m = chunk_bytes R b es m @ ?bytes"
      by (rule chunk_bytes_snoc) (use facts room in simp_all)
    have "writer_at (nth_path dir R b m) (length (es @ [e]) - m * R) (chunk_bytes R b (es @ [e]) m) written"
      using w'(2,3) unfolding bytes writer_at_def written_def count by simp
    then show ?thesis
      using disk_holds_append [of dir R b m es disk e] memory_holds_append [of b es cl e] facts ok room
      by (simp add: log_holds_def)
  qed
  ultimately show ?thesis by blast
qed

text \<open>Starting a file when all files are full; with no file at all, the first one.\<close>

lemma log_files_snoc: "log_files dir R b (Suc n) = log_files dir R b n @ [(file_start b R n, file_of dir (int R) (file_start b R n))]"
  by (simp add: log_files_def)

lemma disk_holds_new:
  assumes "disk_holds dir R b n es disk" and "0 < R" "1 \<le> b" "file_start b R (Suc n) \<le> 2 ^ 64" and "length es = n * R"
  shows "disk_holds dir R b (Suc n) es (AList.update (nth_path dir R b n) [] disk)"
  unfolding disk_holds_def
proof (intro conjI allI impI)
  fix c
  assume c: "c < Suc n"
  show "map_of (AList.update (nth_path dir R b n) [] disk) (nth_path dir R b c) = Some (chunk_bytes R b es c)"
  proof (cases "c = n")
    case True
    then show ?thesis using assms(5) by (simp add: update_conv' chunk_def)
  next
    case False
    have "file_start b R (Suc c) \<le> file_start b R (Suc n)" using c by (intro file_start_mono) simp
    then have "nth_path dir R b c \<noteq> nth_path dir R b n"
      using nth_path_inj [of dir R b c n] assms(2-4) False by linarith
    then show ?thesis using assms(1) c False by (simp add: disk_holds_def update_conv')
  qed
next
  fix p
  assume "in_dir dir p \<and> map_of (AList.update (nth_path dir R b n) [] disk) p \<noteq> None"
  then have "p = nth_path dir R b n \<or> in_dir dir p \<and> map_of disk p \<noteq> None" by (auto simp: update_conv' split: if_splits)
  then show "\<exists>c<Suc n. p = nth_path dir R b c"
  proof
    assume "in_dir dir p \<and> map_of disk p \<noteq> None"
    then obtain c where "c < n" "p = nth_path dir R b c" using assms(1) unfolding disk_holds_def by blast
    then show ?thesis using less_SucI by blast
  qed blast
qed

lemma rotate_holds:
  assumes "0 < R" "1 \<le> b" "file_start b R (Suc n) \<le> 2 ^ 64" and "list_all (entry_ok vt_size) es" and "length es = n * R"
    and "changelogs_dir cl = dir" "rotate_interval cl = int R" "existing_changelogs cl = log_files dir R b n"
    and "disk_holds dir R b n es disk" and "memory_holds b es cl"
  shows "log_holds vt_size dir R b n es (cl_rotate (file_start b R n) (cl, disk))"
proof -
  let ?d = "file_of dir (int R) (file_start b R n)"
  let ?w = "\<lparr>w_filepath = cf_path ?d, w_mode = Rewrite, w_position = 0, w_count = 0, entries_written = 0,
      w_start_index = file_start b R n\<rparr>"
  have to: "(file_start b R n + int R - 1) mod 2 ^ 64 = file_start b R n + int R - 1"
  proof (rule mod_pos_pos_trivial)
    have "0 \<le> int (n * R)" "0 < int R" using assms(1) by simp_all
    then show "0 \<le> file_start b R n + int R - 1" using assms(2) by linarith
  qed (use assms(3) in simp)
  have put: "map_put (file_start b R n) ?d (log_files dir R b n) = log_files dir R b (Suc n)"
    unfolding log_files_snoc by (rule map_put_last) (use assms(1) in \<open>auto simp: log_files_def\<close>)
  have eq: "cl_rotate (file_start b R n) (cl, disk) =
      (cl\<lparr>existing_changelogs := log_files dir R b (Suc n), current_writer := Some ?w\<rparr>, AList.update (cf_path ?d) [] disk)"
    unfolding cl_rotate_def Let_def prod.case assms(6-8) to
    using put by (simp add: changelog_writer_new_def file_of_def Let_def)
  have "chunk R n es = []" using assms(5) by (simp add: chunk_def)
  then have "writer_at (nth_path dir R b n) (length es - n * R) (chunk_bytes R b es n) ?w"
    using assms(5) by (simp add: writer_at_def)
  moreover have "memory_holds b es (cl\<lparr>existing_changelogs := log_files dir R b (Suc n), current_writer := Some ?w\<rparr>)"
    using assms(10) by (simp add: memory_holds_def)
  ultimately show ?thesis
    unfolding eq log_holds_def fst_conv snd_conv using assms(1-7) disk_holds_new [OF assms(9,1,2,3,5)] by simp
qed

lemma append_rotates:
  assumes "current_writer cl = Some w" and "entries_written w = rotate_interval cl" and "rotate_interval cl \<noteq> 0" and "cl_logs cl \<noteq> []"
  shows "appendEntry index e (cl, disk) = appendEntry index e (cl_rotate index (cl, disk))"
proof -
  obtain cl' disk' where r: "cl_rotate index (cl, disk) = (cl', disk')" by (rule prod.exhaust)
  then obtain w' where "current_writer cl' = Some w'" "entries_written w' = 0" "rotate_interval cl' = rotate_interval cl"
      "cl_logs cl' = cl_logs cl"
    by (auto simp: cl_rotate_def changelog_writer_new_def Let_def)
  then show ?thesis using assms by (simp add: appendEntry_def r)
qed

lemma append_holds:
  assumes h: "log_holds vt_size dir R b m es st" and ok: "entry_ok vt_size e" and bound: "file_start b R (Suc (Suc m)) \<le> 2 ^ 64"
  shows "\<exists>st'. log_store_append e st = Some (Inr st')
    \<and> log_holds vt_size dir R b (if length es = Suc m * R then Suc m else m) (es @ [e]) st'"
proof -
  obtain cl disk where st: "st = (cl, disk)" by (rule prod.exhaust)
  note facts = h [unfolded log_holds_def st fst_conv snd_conv]
  have below: "b + int (length es) < 2 ^ 64" using facts bound by (auto simp flip: of_nat_add of_nat_mult)
  have next_idx: "getNextEntryIndex cl = b + int (length es)" by (rule next_index) (use facts below in simp_all)
  show ?thesis
  proof (cases "length es < Suc m * R")
    case True
    then show ?thesis using append_in_file [OF h [unfolded st] ok True] next_idx by (auto simp: log_store_append_def st)
  next
    case False
    then have full: "length es = Suc m * R" using facts by simp
    let ?st = "cl_rotate (file_start b R (Suc m)) (cl, disk)"
    have rot: "log_holds vt_size dir R b (Suc m) es ?st"
      by (rule rotate_holds) (use facts full bound in simp_all)
    obtain w where w: "current_writer cl = Some w" "entries_written w = int (length es - m * R)"
      using facts unfolding writer_at_def by blast
    have at: "b + int (length es) = file_start b R (Suc m)" using full by simp
    have "cl_logs cl \<noteq> []" using memory_size [of b es cl] facts full by auto
    then have "appendEntry (b + int (length es)) e (cl, disk) = appendEntry (b + int (length es)) e ?st"
      unfolding at by (intro append_rotates [OF w(1)]) (use w(2) facts full in simp_all)
    moreover obtain st' where "appendEntry (b + int (length es)) e ?st = Some (Inr st')" "log_holds vt_size dir R b (Suc m) (es @ [e]) st'"
      using append_in_file [of vt_size dir R b "Suc m" es "fst ?st" "snd ?st" e] rot ok facts full by auto
    ultimately show ?thesis using next_idx full by (auto simp: log_store_append_def st)
  qed
qed

section \<open>Reading the files\<close>

definition loaded_log :: "int \<Rightarrow> log_entry list \<Rightarrow> nat \<Rightarrow> index_to_log_entry \<Rightarrow> index_to_offset \<Rightarrow> bool" where
  "loaded_log b es k logs offsets \<longleftrightarrow>
     distinct (map fst logs)
     \<and> (\<forall>j. map_of logs j = (if b \<le> j \<and> j < b + int k then Some (es ! nat (j - b)) else None))
     \<and> (\<forall>j. map_of offsets j = None \<longleftrightarrow> \<not> (b \<le> j \<and> j < b + int k))"

lemma load_log_distinct: "distinct (map fst logs) \<Longrightarrow> distinct (map fst (load_log start index es logs))"
  by (induction es arbitrary: index logs) (simp_all add: distinct_update)

lemma whole_all: "whole (length (log_bytes index es)) index es = length es"
  by (induction es arbitrary: index) simp_all

lemma stored_ok: "entry_ok vt_size e \<Longrightarrow> stored e = e"
  by (cases e) (auto simp: entry_ok_def stored_def split: if_splits)

lemma whole_le: "whole n index es \<le> length es"
  by (induction es arbitrary: n index) auto

lemma chunk_nth:
  assumes "file_start b R c \<le> j" and "j < file_start b R c + int k" and "k \<le> length (chunk R c es)"
  shows "chunk R c es ! nat (j - file_start b R c) = es ! nat (j - b)"
proof -
  have "nat (j - file_start b R c) < k" using assms(1,2) by linarith
  moreover have "c * R + nat (j - file_start b R c) = nat (j - b)" using assms(1) by linarith
  moreover have "c * R \<le> length es" using assms(3) calculation(1) by (simp add: chunk_def) linarith
  ultimately show ?thesis using assms(3) nth_drop [of "c * R" es "nat (j - file_start b R c)"] by (simp add: chunk_def)
qed

abbreviation new_result :: changelog_read_result where
  "new_result \<equiv> \<lparr>entries_read = 0, first_read_index = 0, last_position = 0, read_error = False\<rparr>"

lemma read_file_chunk:
  assumes "loaded_log b es (c * R) logs offsets" and "list_all (entry_ok vt_size) es" and "1 \<le> b" and "start \<le> b"
    and "b + int (length es) \<le> 2 ^ 64" and "c * R \<le> length es" and "n \<le> length (chunk_bytes R b es c)"
    and k: "k = whole n (file_start b R c) (chunk R c es)"
  shows "\<exists>res logs' offsets'. readChangelog vt_size start logs offsets (take n (chunk_bytes R b es c)) = Inr (res, logs', offsets')
    \<and> loaded_log b es (c * R + k) logs' offsets'
    \<and> read_ok start (file_start b R c) 0 n k (length (log_bytes (file_start b R c) (take k (chunk R c es)))) new_result res"
proof -
  let ?i = "file_start b R c" and ?es = "chunk R c es"
  have pos: "0 \<le> int (c * R)" by simp
  have "set ?es \<subseteq> set es" unfolding chunk_def by (meson order_trans set_drop_subset set_take_subset)
  then have ok: "list_all (entry_ok vt_size) ?es" using assms(2) by (auto simp: list_all_iff)
  then have sized: "list_all (entry_sized vt_size) ?es" by (auto simp: list_all_iff entry_ok_def)
  have "length ?es \<le> length es - c * R" by (simp add: chunk_def)
  then have len: "int (c * R) + int (length ?es) \<le> int (length es)" using assms(6) by linarith
  obtain res where r: "read_loop vt_size start 0 0 new_result logs offsets (take n (log_bytes ?i ?es)) =
      Inr (res, load_log start ?i (take k ?es) logs, load_offsets start ?i 0 (take k ?es) offsets)"
      "read_ok start ?i 0 n k (length (log_bytes ?i (take k ?es))) new_result res"
    using read_loop_cut [OF sized _ _ _ _ assms(7) _ k, of 0 logs new_result start 0 offsets] assms(1,3,5) len pos
    by (auto simp: loaded_log_def simp del: of_nat_mult)
  have le: "k \<le> length ?es" using whole_le k by simp
  have range: "max ?i start = ?i" using assms(4) pos by linarith
  have at: "map_of (load_log start ?i (take k ?es) logs) j =
      (if b \<le> j \<and> j < b + int (c * R + k) then Some (es ! nat (j - b)) else None)" for j
  proof (cases "?i \<le> j \<and> j < ?i + int k")
    case True
    have "nat (j - ?i) < k" using True by linarith
    then have "take k ?es ! nat (j - ?i) = es ! nat (j - b)" using chunk_nth [of b c R j k es] True le by simp
    moreover have "stored (es ! nat (j - b)) = es ! nat (j - b)"
    proof -
      have "nat (j - b) < length es" using True le len by linarith
      then show ?thesis using assms(2) stored_ok by (metis list_all_length)
    qed
    ultimately show ?thesis using True le pos range by (simp add: load_log_at del: of_nat_mult)
  next
    case False
    then show ?thesis using assms(1) le range pos by (auto simp: load_log_at loaded_log_def simp del: of_nat_mult)
  qed
  have "map_of (load_offsets start ?i 0 (take k ?es) offsets) j = None \<longleftrightarrow> \<not> (b \<le> j \<and> j < b + int (c * R + k))" for j
    using assms(1) le range pos by (auto simp: load_offsets_at loaded_log_def simp del: of_nat_mult)
  then have "loaded_log b es (c * R + k) (load_log start ?i (take k ?es) logs) (load_offsets start ?i 0 (take k ?es) offsets)"
    using at load_log_distinct assms(1) by (simp add: loaded_log_def)
  then show ?thesis using r by (auto simp: readChangelog_def)
qed

definition after_file ::
  "changelog_read_result \<Rightarrow> index_to_log_entry \<Rightarrow> index_to_offset \<Rightarrow> read_state \<Rightarrow> read_state" where
  "after_file res logs offsets s =
     s\<lparr>rs_started := True, rs_result := res, rs_logs := logs, rs_offsets := offsets,
       rs_first_read_index := (if rs_first_read_index s = 0 then first_read_index res else rs_first_read_index s),
       total_read := total_read s + entries_read res\<rparr>"

lemma read_files_step:
  assumes "map_of disk (file_path dir (int R) key) = Some content"
    and "readChangelog vt_size start (rs_logs s) (rs_offsets s) content = Inr (res, logs, offsets)"
    and "start \<le> key + int R - 1" and "rs_started s \<or> key \<le> last_commited + 1" and "int R < 2 ^ 64"
  shows "read_files vt_size last_commited start disk ((key, file_of dir (int R) key) # ds) s =
    (if entries_read res < int R then Inr ((after_file res logs offsets s)\<lparr>incomplete_log_index := key\<rparr>)
     else read_files vt_size last_commited start disk ds (after_file res logs offsets s))"
proof -
  have entries: "(to_log_index (file_of dir (int R) key) - from_log_index (file_of dir (int R) key) + 1) mod 2 ^ 64 = int R"
    using assms(5) by simp
  from assms(4) consider "rs_started s" | "\<not> 1 < key - last_commited" by linarith
  then show ?thesis
  proof cases
    case 1
    then show ?thesis using assms(1-3) entries by (simp add: Let_def after_file_def)
  next
    case 2
    then show ?thesis using assms(1-3) entries by (simp add: Let_def after_file_def)
  qed
qed

definition files_read :: "int \<Rightarrow> nat \<Rightarrow> log_entry list \<Rightarrow> nat \<Rightarrow> nat \<Rightarrow> nat \<Rightarrow> read_state \<Rightarrow> bool" where
  "files_read b R es m n k s \<longleftrightarrow>
     loaded_log b es (m * R + k) (rs_logs s) (rs_offsets s) \<and> total_read s = int (m * R + k)
     \<and> rs_first_read_index s = (if m * R + k = 0 then 0 else b) \<and> rs_started s
     \<and> incomplete_log_index s = (if k < R then file_start b R m else 0) \<and> entries_read (rs_result s) = int k
     \<and> (read_error (rs_result s) \<longleftrightarrow> length (log_bytes (file_start b R m) (take k (chunk R m es))) < n)
     \<and> (read_error (rs_result s) \<longrightarrow>
          last_position (rs_result s) = int (length (log_bytes (file_start b R m) (take k (chunk R m es)))))"

lemma read_files_bounds:
  assumes "0 < R" "1 \<le> b" "start \<le> b" and "file_start b R (Suc m) \<le> 2 ^ 64" and "length es \<le> Suc m * R"
  shows "b + int (length es) \<le> 2 ^ 64" "int R < 2 ^ 64" "start \<le> file_start b R c + int R - 1"
proof -
  have "int (length es) \<le> int (Suc m * R)" "int R \<le> int (Suc m * R)" "0 \<le> int (c * R)" "1 \<le> int R"
    using assms(1,5) by (simp_all only: of_nat_le_iff) simp_all
  then show "b + int (length es) \<le> 2 ^ 64" "int R < 2 ^ 64" "start \<le> file_start b R c + int R - 1"
    using assms(2-4) by linarith+
qed

lemma first_index:
  assumes "start \<le> b"
  shows "(if 0 < k \<and> start < file_start b R c + int k then max (file_start b R c) start else 0) = (if k = 0 then 0 else file_start b R c)"
proof -
  have "0 \<le> int (c * R)" by simp
  then have "start \<le> file_start b R c" using assms by linarith
  then show ?thesis by simp
qed

lemma read_files_from:
  assumes "0 < R" "1 \<le> b" "start \<le> b" "b \<le> last_commited + 1" "list_all (entry_ok vt_size) es"
    and bound: "file_start b R (Suc m) \<le> 2 ^ 64" and len: "m * R \<le> length es" "length es \<le> Suc m * R"
    and files: "\<And>c. c < m \<Longrightarrow> map_of disk (nth_path dir R b c) = Some (chunk_bytes R b es c)"
      "map_of disk (nth_path dir R b m) = Some (take n (chunk_bytes R b es m))"
    and n: "n \<le> length (chunk_bytes R b es m)" and k: "k = whole n (file_start b R m) (chunk R m es)"
    and "c \<le> m" and "loaded_log b es (c * R) (rs_logs s) (rs_offsets s)" and "total_read s = int (c * R)"
    and "rs_first_read_index s = (if c = 0 then 0 else b)" and "c = 0 \<or> rs_started s" and "incomplete_log_index s = 0"
  shows "\<exists>s'. read_files vt_size last_commited start disk
      (map (\<lambda>c. (file_start b R c, file_of dir (int R) (file_start b R c))) [c..<Suc m]) s = Inr s' \<and> files_read b R es m n k s'"
  using assms(13-18)
proof (induction "m - c" arbitrary: c s)
  note bounds = read_files_bounds [OF assms(1-3) bound len(2)]
  case 0
  then have c: "c = m" by simp
  obtain res logs offsets where r:
      "readChangelog vt_size start (rs_logs s) (rs_offsets s) (take n (chunk_bytes R b es m)) = Inr (res, logs, offsets)"
      "loaded_log b es (m * R + k) logs offsets"
      "read_ok start (file_start b R m) 0 n k (length (log_bytes (file_start b R m) (take k (chunk R m es)))) new_result res"
    using read_file_chunk [OF 0(3) [unfolded c] assms(5,2,3) bounds(1) len(1) n k] by blast
  have "rs_started s \<or> file_start b R m \<le> last_commited + 1" using 0(6) assms(4) c by auto
  from read_files_step [OF files(2) r(1) bounds(3) this bounds(2)]
  have step: "read_files vt_size last_commited start disk
      (map (\<lambda>c. (file_start b R c, file_of dir (int R) (file_start b R c))) [c..<Suc m]) s =
    (if entries_read res < int R then Inr ((after_file res logs offsets s)\<lparr>incomplete_log_index := file_start b R m\<rparr>)
     else Inr (after_file res logs offsets s))"
    by (simp add: c)
  have kR: "k \<le> R" using whole_le [of n "file_start b R m" "chunk R m es"] by (simp add: k chunk_def)
  have res: "entries_read res = int k" "first_read_index res = (if k = 0 then 0 else file_start b R m)"
      "read_error res \<longleftrightarrow> length (log_bytes (file_start b R m) (take k (chunk R m es))) < n"
      "read_error res \<longrightarrow> last_position res = int (length (log_bytes (file_start b R m) (take k (chunk R m es))))"
    using r(3) unfolding read_ok_def first_index [OF assms(3)] by simp_all
  have "files_read b R es m n k
      (if k < R then (after_file res logs offsets s)\<lparr>incomplete_log_index := file_start b R m\<rparr> else after_file res logs offsets s)"
    using r(2) res 0(4,5,7) c assms(1,2) by (auto simp: files_read_def after_file_def)
  then show ?case using step res(1) kR by (auto split: if_splits)
next
  note bounds = read_files_bounds [OF assms(1-3) bound len(2)]
  case (Suc d)
  then have c: "c < m" "d = m - Suc c" by simp_all
  have "Suc c * R \<le> m * R" using c by (intro mult_le_mono1) simp
  then have full: "length (chunk R c es) = R" and le: "c * R \<le> length es" using len(1) by (simp_all add: chunk_def)
  obtain res logs offsets where r:
      "readChangelog vt_size start (rs_logs s) (rs_offsets s) (chunk_bytes R b es c) = Inr (res, logs, offsets)"
      "loaded_log b es (c * R + R) logs offsets"
      "read_ok start (file_start b R c) 0 (length (chunk_bytes R b es c)) R (length (chunk_bytes R b es c)) new_result res"
    using read_file_chunk [OF Suc(4) assms(5,2,3) bounds(1) le order_refl whole_all [symmetric]] by (auto simp: full)
  have res: "entries_read res = int R" "first_read_index res = file_start b R c"
    using r(3) assms(1) unfolding read_ok_def first_index [OF assms(3)] by simp_all
  have "rs_started s \<or> file_start b R c \<le> last_commited + 1" using Suc(7) assms(4) by auto
  from read_files_step [OF files(1) [OF c(1)] r(1) bounds(3) this bounds(2)] res(1)
  have "read_files vt_size last_commited start disk
      (map (\<lambda>c. (file_start b R c, file_of dir (int R) (file_start b R c))) [c..<Suc m]) s =
    read_files vt_size last_commited start disk
      (map (\<lambda>c. (file_start b R c, file_of dir (int R) (file_start b R c))) [Suc c..<Suc m]) (after_file res logs offsets s)"
    using c(1) upt_conv_Cons [of c "Suc m"] by simp
  moreover have "\<exists>s'. read_files vt_size last_commited start disk
      (map (\<lambda>c. (file_start b R c, file_of dir (int R) (file_start b R c))) [Suc c..<Suc m]) (after_file res logs offsets s) = Inr s'
    \<and> files_read b R es m n k s'"
    by (rule Suc(1) [OF c(2)]) (use c(1) r(2) res Suc(5-8) assms(2) in \<open>auto simp: after_file_def add.commute\<close>)
  ultimately show ?case by simp
qed

section \<open>Crash and restart\<close>

text \<open>A crash loses the end of the file that was being written.\<close>

definition crash :: "nat \<Rightarrow> cl_state \<Rightarrow> disk" where
  "crash n st =
     (case current_writer (fst st) of
        None \<Rightarrow> snd st
      | Some w \<Rightarrow>
          (case map_of (snd st) (w_filepath w) of
             None \<Rightarrow> snd st
           | Some content \<Rightarrow> AList.update (w_filepath w) (take n content) (snd st)))"

lemma log_files_at:
  "map_of (log_files dir R b n) key = (if key \<in> file_start b R ` {..<n} then Some (file_of dir (int R) key) else None)"
proof -
  have "log_files dir R b n = map (\<lambda>key. (key, file_of dir (int R) key)) (map (file_start b R) [0..<n])"
    by (simp add: log_files_def)
  then have "map_of (log_files dir R b n) = (Some \<circ> file_of dir (int R)) |` (file_start b R ` {..<n})"
    by (simp only: map_of_map_restrict) (simp add: atLeast0LessThan)
  then show ?thesis by (simp add: restrict_map_def)
qed

lemma log_files_sorted: "0 < R \<Longrightarrow> key_sorted (log_files dir R b n)"
  by (simp add: log_files_def sorted_wrt_map)

lemma files_described:
  assumes "0 < R" "1 \<le> b" "file_start b R n \<le> 2 ^ 64"
    and "\<And>p. in_dir dir p \<and> map_of disk p \<noteq> None \<longleftrightarrow> (\<exists>c<n. p = nth_path dir R b c)"
  shows "describe_all (list_dir dir disk) [] = Inr (log_files dir R b n)"
proof -
  let ?S = "file_start b R ` {..<n}"
  have mem: "p \<in> set (list_dir dir disk) \<longleftrightarrow> (\<exists>c<n. p = nth_path dir R b c)" for p
    using assms(4) [of p] by (auto simp: list_dir_def map_of_eq_None_iff image_iff)
  have range: "0 \<le> s \<and> s + int R \<le> 2 ^ 64" if S: "s \<in> ?S" for s
  proof -
    obtain c where c: "c < n" "s = file_start b R c" using S by blast
    have "file_start b R (Suc c) \<le> file_start b R n" using c(1) by (intro file_start_mono) simp
    moreover have "0 \<le> int (c * R)" "file_start b R (Suc c) = s + int R" using c(2) by simp_all
    ultimately show ?thesis using assms(2,3) c(2) by linarith
  qed
  obtain m' where m': "describe_all (list_dir dir disk) [] = Inr m'" "key_sorted m'"
      "\<forall>key. map_of m' key = (if key \<in> ?S \<and> file_path dir (int R) key \<in> set (list_dir dir disk)
         then Some (file_of dir (int R) key) else map_of [] key)"
    using describe_all_files [of "list_dir dir disk" ?S dir "int R" "[]"] range mem assms(1) by (force simp: image_iff)
  have "map_of m' key = map_of (log_files dir R b n) key" for key
    using m'(3) mem by (auto simp: log_files_at)
  then have "m' = log_files dir R b n"
    using key_sorted_unique [OF m'(2) log_files_sorted [OF assms(1)]] by blast
  then show ?thesis using m'(1) by simp
qed

lemma log_bytes_take: "take (length (log_bytes index (take k es))) (log_bytes index es) = log_bytes index (take k es)"
  using log_bytes_append [of index "take k es" "drop k es"] by simp

lemma chunk_take:
  assumes "m * R \<le> length es" and "k \<le> length (chunk R m es)"
  shows "chunk R m (take (m * R + k) es) = take k (chunk R m es)" "c < m \<Longrightarrow> chunk R c (take (m * R + k) es) = chunk R c es"
    "m * R + k \<le> length es" "k \<le> R"
proof -
  show "k \<le> R" "m * R + k \<le> length es" using assms by (auto simp: chunk_def)
  then show "chunk R m (take (m * R + k) es) = take k (chunk R m es)"
    by (simp add: chunk_def drop_take min_absorb1 min_absorb2)
  assume "c < m"
  then have "Suc c * R \<le> m * R" by (intro mult_le_mono1) simp
  then show "chunk R c (take (m * R + k) es) = chunk R c es"
    by (simp add: chunk_def drop_take min_absorb1)
qed

lemma disk_holds_cut:
  assumes "disk_holds dir R b (Suc m) es disk" and "0 < R" "1 \<le> b" "file_start b R (Suc m) \<le> 2 ^ 64"
    and "m * R \<le> length es" "k \<le> length (chunk R m es)"
    and disk': "map_of disk' = (map_of disk)(nth_path dir R b m \<mapsto> log_bytes (file_start b R m) (take k (chunk R m es)))"
  shows "disk_holds dir R b (Suc m) (take (m * R + k) es) disk'"
  unfolding disk_holds_def
proof (intro conjI allI impI)
  fix c
  assume c: "c < Suc m"
  show "map_of disk' (nth_path dir R b c) = Some (chunk_bytes R b (take (m * R + k) es) c)"
  proof (cases "c = m")
    case True
    then show ?thesis using chunk_take(1) [OF assms(5,6)] by (simp add: disk')
  next
    case False
    have "file_start b R (Suc c) \<le> file_start b R (Suc m)" using c by (intro file_start_mono) simp
    then have "nth_path dir R b c \<noteq> nth_path dir R b m"
      using nth_path_inj [of dir R b c m] assms(2-4) False by linarith
    then have "map_of disk' (nth_path dir R b c) = map_of disk (nth_path dir R b c)" by (simp add: disk')
    then show ?thesis
      using assms(1) c False chunk_take(2) [OF assms(5,6), of c] unfolding disk_holds_def by simp
  qed
next
  fix p
  assume "in_dir dir p \<and> map_of disk' p \<noteq> None"
  then have "p = nth_path dir R b m \<or> in_dir dir p \<and> map_of disk p \<noteq> None" by (auto simp: disk' split: if_splits)
  then show "\<exists>c<Suc m. p = nth_path dir R b c"
  proof
    assume "in_dir dir p \<and> map_of disk p \<noteq> None"
    then show ?thesis using assms(1) unfolding disk_holds_def by blast
  qed blast
qed

lemma loaded_memory:
  assumes "loaded_log b es k logs offsets" and "k \<le> length es" and "cl_start_index cl = b" "cl_logs cl = logs" "index_to_start_pos cl = offsets"
  shows "memory_holds b (take k es) cl"
proof -
  have "take k es ! nat (j - b) = es ! nat (j - b)" if "j < b + int k" "b \<le> j" for j
  proof -
    have "nat (j - b) < k" using that by linarith
    then show ?thesis by simp
  qed
  then show ?thesis using assms by (auto simp: loaded_log_def memory_holds_def min_absorb2)
qed

lemma crash_disk:
  assumes "log_holds vt_size dir R b m es (cl, disk)"
  shows "crash n (cl, disk) = AList.update (nth_path dir R b m) (take n (chunk_bytes R b es m)) disk"
proof -
  obtain w where "current_writer cl = Some w" "w_filepath w = nth_path dir R b m"
    using assms unfolding log_holds_def writer_at_def by auto
  moreover have "map_of disk (nth_path dir R b m) = Some (chunk_bytes R b es m)"
    using assms unfolding log_holds_def disk_holds_def by auto
  ultimately show ?thesis by (simp add: crash_def)
qed

text \<open>The last file is continued when it has room.\<close>

lemma continue_holds:
  assumes h: "log_holds vt_size dir R b m es (cl0, disk0)" and read: "files_read b R es m n k s" and "k < R"
    and n: "n \<le> length (chunk_bytes R b es m)" and k: "k = whole n (file_start b R m) (chunk R m es)"
    and cl: "changelogs_dir cl = dir" "rotate_interval cl = int R" "existing_changelogs cl = log_files dir R b (Suc m)"
      "cl_start_index cl = b" "cl_logs cl = rs_logs s" "index_to_start_pos cl = rs_offsets s"
  shows "log_holds vt_size dir R b m (take (m * R + k) es) (continue_last s (cl, crash n (cl0, disk0)))
    \<and> current_writer (fst (continue_last s (cl, crash n (cl0, disk0)))) \<noteq> None"
proof -
  note facts = h [unfolded log_holds_def fst_conv snd_conv]
  let ?path = "nth_path dir R b m" and ?kept = "log_bytes (file_start b R m) (take k (chunk R m es))"
  let ?disk = "AList.update ?path (take n (chunk_bytes R b es m)) disk0"
  have disk: "crash n (cl0, disk0) = ?disk" by (rule crash_disk [OF h])
  have kle: "k \<le> length (chunk R m es)" and here: "length ?kept \<le> n"
    using whole_bounds [OF n] k by auto
  have mle: "m * R \<le> length es" using facts by simp
  note cut = chunk_take [OF mle kle]
  have state: "incomplete_log_index s = file_start b R m" "rs_started s" "entries_read (rs_result s) = int k"
      "loaded_log b es (m * R + k) (rs_logs s) (rs_offsets s)"
      "read_error (rs_result s) \<longleftrightarrow> length ?kept < n" "read_error (rs_result s) \<longrightarrow> last_position (rs_result s) = int (length ?kept)"
    using read \<open>k < R\<close> unfolding files_read_def by simp_all
  have "key \<le> file_start b R m" if "(key, d) \<in> set (log_files dir R b (Suc m))" for key d
    using that file_start_mono [of _ m b R] by (auto simp: log_files_def)
  then have gone: "upper_bound (file_start b R m) (log_files dir R b (Suc m)) = []"
    by (auto simp: upper_bound_def dropWhile_eq_Nil_conv)
  let ?w = "\<lparr>w_filepath = ?path, w_mode = Append, w_position = 0, w_count = 0, entries_written = int k, w_start_index = file_start b R m\<rparr>"
  define wd where "wd = (if read_error (rs_result s) then truncateToLength (int (length ?kept)) ?w ?disk else (?w, ?disk))"
  obtain w' disk' where wd': "wd = (w', disk')" by (rule prod.exhaust)
  have "snd (last (log_files dir R b (Suc m))) = file_of dir (int R) (file_start b R m)" "log_files dir R b (Suc m) \<noteq> []"
    by (simp_all add: log_files_snoc)
  moreover have "map_of ?disk ?path \<noteq> None" by (simp add: update_conv')
  ultimately have eq: "continue_last s (cl, ?disk) = (cl\<lparr>existing_changelogs := log_files dir R b (Suc m), current_writer := Some w'\<rparr>, disk')"
    using wd' state(6) unfolding continue_last_def Let_def prod.case cl(3) state(1,3) gone wd_def
    by (auto simp: changelog_writer_new_def remove_files_def state(2) gone split: if_splits)
  have w': "w_filepath w' = ?path" "w_mode w' = Append" "entries_written w' = int k"
    using wd' by (auto simp: wd_def truncateToLength_def split: if_splits)
  have disk': "map_of disk' = (map_of disk0)(?path \<mapsto> ?kept)"
  proof (cases "length ?kept < n")
    case True
    have "take (length ?kept) (take n (chunk_bytes R b es m)) = ?kept"
      using True log_bytes_take [of "file_start b R m" k "chunk R m es"] by (simp add: min_absorb1)
    then show ?thesis
      using wd' True state(5) n here by (auto simp: wd_def truncateToLength_def update_conv' update_conv)
  next
    case False
    then have "n = length ?kept" using here by simp
    then have "take n (chunk_bytes R b es m) = ?kept" using log_bytes_take by metis
    then show ?thesis using wd' False state(5) by (auto simp: wd_def update_conv)
  qed
  let ?cl = "cl\<lparr>existing_changelogs := log_files dir R b (Suc m), current_writer := Some w'\<rparr>"
  have "memory_holds b (take (m * R + k) es) ?cl"
    by (rule loaded_memory [OF state(4) cut(3)]) (simp_all add: cl)
  moreover have "disk_holds dir R b (Suc m) (take (m * R + k) es) disk'"
    using disk_holds_cut [OF _ _ _ _ mle kle disk'] facts by blast
  moreover have "list_all (entry_ok vt_size) (take (m * R + k) es)"
    using facts by (metis append_take_drop_id list_all_append)
  moreover have "writer_at ?path (length (take (m * R + k) es) - m * R) (chunk_bytes R b (take (m * R + k) es) m) w'"
    using w' cut(3) by (simp add: writer_at_def min_absorb2)
  ultimately show ?thesis
    unfolding disk eq log_holds_def fst_conv snd_conv using facts cl cut(3) \<open>k < R\<close> by (simp add: min_absorb2)
qed

text \<open>Nothing is skipped when reading begins at or before the first entry, and the log is not ahead of the state machine.\<close>

definition restart_ok :: "int \<Rightarrow> int \<Rightarrow> int \<Rightarrow> nat \<Rightarrow> bool" where
  "restart_ok b last_commited logs_to_keep k \<longleftrightarrow>
     start_to_read_from last_commited logs_to_keep \<le> b \<and> b \<le> last_commited + 1 \<and> (last_commited = b \<or> 0 < k)"

lemma crashed_files:
  assumes h: "log_holds vt_size dir R b m es (cl, disk)"
  shows "describe_all (list_dir dir (crash n (cl, disk))) [] = Inr (log_files dir R b (Suc m))"
    and "\<And>c. c < m \<Longrightarrow> map_of (crash n (cl, disk)) (nth_path dir R b c) = Some (chunk_bytes R b es c)"
    and "map_of (crash n (cl, disk)) (nth_path dir R b m) = Some (take n (chunk_bytes R b es m))"
proof -
  note facts = h [unfolded log_holds_def fst_conv snd_conv]
  have d: "disk_holds dir R b (Suc m) es disk" and R: "0 < R" "1 \<le> b" "file_start b R (Suc m) \<le> 2 ^ 64" using facts by simp_all
  show "map_of (crash n (cl, disk)) (nth_path dir R b c) = Some (chunk_bytes R b es c)" if c: "c < m" for c
  proof -
    have "file_start b R (Suc c) \<le> file_start b R (Suc m)" using c by (intro file_start_mono) simp
    then have "nth_path dir R b c \<noteq> nth_path dir R b m" using nth_path_inj [of dir R b c m] R c by linarith
    then have "map_of (crash n (cl, disk)) (nth_path dir R b c) = map_of disk (nth_path dir R b c)"
      unfolding crash_disk [OF h] by (simp add: update_conv')
    then show ?thesis using d c unfolding disk_holds_def by simp
  qed
  show "map_of (crash n (cl, disk)) (nth_path dir R b m) = Some (take n (chunk_bytes R b es m))"
    unfolding crash_disk [OF h] by (simp add: update_conv')
  have dom: "map_of (crash n (cl, disk)) p \<noteq> None \<longleftrightarrow> map_of disk p \<noteq> None" for p
    using d unfolding crash_disk [OF h] disk_holds_def by (auto simp: update_conv')
  have inside: "in_dir dir (nth_path dir R b c)" for c
  proof (rule file_path_in_dir)
    have "0 \<le> int (c * R)" by simp
    then show "0 \<le> file_start b R c" using R(2) by linarith
  qed (use R(1) in simp)
  have "in_dir dir p \<and> map_of (crash n (cl, disk)) p \<noteq> None \<longleftrightarrow> (\<exists>c<Suc m. p = nth_path dir R b c)" for p
  proof
    assume "\<exists>c<Suc m. p = nth_path dir R b c"
    then obtain c where "c < Suc m" "p = nth_path dir R b c" by blast
    then show "in_dir dir p \<and> map_of (crash n (cl, disk)) p \<noteq> None" using d dom inside unfolding disk_holds_def by simp
  qed (use d dom in \<open>unfold disk_holds_def, blast\<close>)
  then show "describe_all (list_dir dir (crash n (cl, disk))) [] = Inr (log_files dir R b (Suc m))"
    by (rule files_described [OF R])
qed

lemma restart_holds:
  assumes h: "log_holds vt_size dir R b m es st" and n: "n \<le> length (chunk_bytes R b es m)"
    and k: "k = whole n (file_start b R m) (chunk R m es)" and ok: "restart_ok b last_commited logs_to_keep (m * R + k)"
    and bound: "file_start b R (Suc (Suc m)) \<le> 2 ^ 64"
  shows "\<exists>st'. log_store_start vt_size dir (int R) last_commited logs_to_keep (crash n st) = Inr st'
    \<and> log_holds vt_size dir R b (if k = R then Suc m else m) (take (m * R + k) es) st'"
proof -
  obtain cl0 disk0 where st: "st = (cl0, disk0)" by (rule prod.exhaust)
  note h = h [unfolded st]
  note facts = h [unfolded log_holds_def fst_conv snd_conv]
  note files = crashed_files [OF h, where n = n]
  let ?disk = "crash n (cl0, disk0)"
  let ?cl = "\<lparr>changelogs_dir = dir, rotate_interval = int R, existing_changelogs = log_files dir R b (Suc m), current_writer = None,
             index_to_start_pos = [], cl_logs = [], cl_start_index = 0\<rparr>"
  have new: "changelog_new dir (int R) ?disk = Inr (?cl, ?disk)" by (simp add: changelog_new_def files(1))
  let ?start = "start_to_read_from last_commited logs_to_keep"
  have empty: "loaded_log b es (0 * R) [] []" by (simp add: loaded_log_def)
  have "\<exists>s. read_files vt_size last_commited ?start ?disk
      (map (\<lambda>c. (file_start b R c, file_of dir (int R) (file_start b R c))) [0..<Suc m]) (read_state_init (?cl, ?disk)) = Inr s
    \<and> files_read b R es m n k s"
    by (rule read_files_from [OF _ _ _ _ _ _ _ _ files(2,3) n k])
      (use facts ok empty in \<open>simp_all add: restart_ok_def read_state_init_def\<close>)
  then obtain s where s: "read_files vt_size last_commited ?start ?disk (log_files dir R b (Suc m)) (read_state_init (?cl, ?disk)) = Inr s"
      "files_read b R es m n k s"
    unfolding log_files_def [symmetric] by blast
  define start_idx where "start_idx = (if rs_first_read_index s \<noteq> 0 then rs_first_read_index s else last_commited)"
  have start_b: "start_idx = b" using s(2) ok facts by (auto simp: start_idx_def files_read_def restart_ok_def)
  let ?cl1 = "?cl\<lparr>cl_start_index := b, cl_logs := rs_logs s, index_to_start_pos := rs_offsets s\<rparr>"
  have total: "total_read s = int (m * R + k)" using s(2) by (simp add: files_read_def)
  have init: "log_store_start vt_size dir (int R) last_commited logs_to_keep ?disk =
      (let (cl, disk) = (if incomplete_log_index s \<noteq> 0 then continue_last s (?cl1, ?disk) else (?cl1, ?disk))
       in Inr (if current_writer cl = None then cl_rotate ((b + int (m * R + k)) mod 2 ^ 64) (cl, disk) else (cl, disk)))"
    unfolding log_store_start_def new bind_result_simps readChangelogAndInitWriter_def Let_def prod.case
      changelog.select_convs s(1) start_b [unfolded start_idx_def] total by simp
  have pos: "0 \<le> int (m * R)" by simp
  show ?thesis
  proof (cases "k < R")
    case True
    note cont = continue_holds [OF h s(2) True n k, of ?cl1]
    have "incomplete_log_index s \<noteq> 0"
      using s(2) True facts pos by (simp add: files_read_def del: of_nat_mult)
    then have "log_store_start vt_size dir (int R) last_commited logs_to_keep ?disk = Inr (continue_last s (?cl1, ?disk))"
      using init cont by (cases "continue_last s (?cl1, ?disk)") auto
    then show ?thesis using cont True unfolding st by auto
  next
    case False
    have mle: "m * R \<le> length es" using facts by simp
    have kle: "k \<le> length (chunk R m es)" using whole_le k by simp
    note cut = chunk_take [OF mle kle]
    have kR: "k = R" using False cut(4) by simp
    have all: "take (m * R + k) es = es" and full: "length es = Suc m * R" using cut(3) facts kR by simp_all
    have "length (chunk R m es) = k" using kle kR by (simp add: chunk_def)
    then have "n = length (chunk_bytes R b es m)" using whole_bounds [OF n] n k by simp
    then have "map_of ?disk = (map_of disk0)(nth_path dir R b m \<mapsto> log_bytes (file_start b R m) (take k (chunk R m es)))"
      using \<open>length (chunk R m es) = k\<close> unfolding crash_disk [OF h] by (simp add: update_conv')
    then have disk: "disk_holds dir R b (Suc m) es ?disk"
      using disk_holds_cut [OF _ _ _ _ mle kle] facts all by metis
    have memory: "memory_holds b es ?cl1"
      using loaded_memory [of b es "m * R + k" "rs_logs s" "rs_offsets s" ?cl1] s(2) cut(3) all by (simp add: files_read_def)
    have "int (Suc m * R) < int (Suc (Suc m) * R)" using facts by (simp only: of_nat_less_iff) simp
    then have "(b + int (m * R + k)) mod 2 ^ 64 = file_start b R (Suc m)"
      using kR bound facts pos by (simp add: add.commute del: of_nat_mult)
    moreover have "incomplete_log_index s = 0" using s(2) False by (simp add: files_read_def)
    ultimately have "log_store_start vt_size dir (int R) last_commited logs_to_keep ?disk =
        Inr (cl_rotate (file_start b R (Suc m)) (?cl1, ?disk))"
      using init by simp
    moreover have "log_holds vt_size dir R b (Suc m) es (cl_rotate (file_start b R (Suc m)) (?cl1, ?disk))"
      by (rule rotate_holds) (use facts bound full disk memory in simp_all)
    ultimately show ?thesis using kR unfolding st all by simp
  qed
qed

section \<open>Any number of appends and crashes\<close>

text \<open>
  What the log store goes through: an append, or a crash that leaves the first \<open>n\<close> bytes of the current file (all of them, when the
  server was stopped in order), followed by a start with what the state machine has committed.  \<open>None\<close> is an exception or undefined
  behaviour.
\<close>

datatype log_event = Appended log_entry | Restarted (ev_bytes: nat) (ev_commited: int) (ev_keep: int)

fun log_event_step :: "nat \<Rightarrow> string \<Rightarrow> nat \<Rightarrow> log_event \<Rightarrow> cl_state \<Rightarrow> cl_state option" where
  "log_event_step vt_size dir R (Appended e) st = (case log_store_append e st of Some (Inr st') \<Rightarrow> Some st' | _ \<Rightarrow> None)"
| "log_event_step vt_size dir R (Restarted n last_commited logs_to_keep) st =
     (case log_store_start vt_size dir (int R) last_commited logs_to_keep (crash n st) of Inr st' \<Rightarrow> Some st' | Inl _ \<Rightarrow> None)"

primrec log_events :: "nat \<Rightarrow> string \<Rightarrow> nat \<Rightarrow> log_event list \<Rightarrow> cl_state \<Rightarrow> cl_state option" where
  "log_events vt_size dir R [] st = Some st"
| "log_events vt_size dir R (v # vs) st = Option.bind (log_event_step vt_size dir R v st) (log_events vt_size dir R vs)"

text \<open>
  The specification: the number of files before the current one, and the entries.  An append adds an entry.  A crash keeps the
  entries of the earlier files and those of the current file whose records are whole.
\<close>

abbreviation whole_entries :: "nat \<Rightarrow> int \<Rightarrow> nat \<Rightarrow> nat \<Rightarrow> log_entry list \<Rightarrow> nat" where
  "whole_entries R b n m es \<equiv> whole n (file_start b R m) (chunk R m es)"

fun spec_event :: "nat \<Rightarrow> int \<Rightarrow> log_event \<Rightarrow> nat \<times> log_entry list \<Rightarrow> nat \<times> log_entry list" where
  "spec_event R b (Appended e) (m, es) = (if length es = Suc m * R then Suc m else m, es @ [e])"
| "spec_event R b (Restarted n last_commited logs_to_keep) (m, es) =
     (let k = whole_entries R b n m es in (if k = R then Suc m else m, take (m * R + k) es))"

fun event_ok :: "nat \<Rightarrow> nat \<Rightarrow> int \<Rightarrow> log_event \<Rightarrow> nat \<times> log_entry list \<Rightarrow> bool" where
  "event_ok vt_size R b (Appended e) (m, es) \<longleftrightarrow> entry_ok vt_size e \<and> file_start b R (Suc (Suc m)) \<le> 2 ^ 64"
| "event_ok vt_size R b (Restarted n last_commited logs_to_keep) (m, es) \<longleftrightarrow>
     n \<le> length (chunk_bytes R b es m) \<and> restart_ok b last_commited logs_to_keep (m * R + whole_entries R b n m es)
     \<and> file_start b R (Suc (Suc m)) \<le> 2 ^ 64"

primrec spec_events :: "nat \<Rightarrow> int \<Rightarrow> log_event list \<Rightarrow> nat \<times> log_entry list \<Rightarrow> nat \<times> log_entry list" where
  "spec_events R b [] s = s"
| "spec_events R b (v # vs) s = spec_events R b vs (spec_event R b v s)"

primrec events_ok :: "nat \<Rightarrow> nat \<Rightarrow> int \<Rightarrow> log_event list \<Rightarrow> nat \<times> log_entry list \<Rightarrow> bool" where
  "events_ok vt_size R b [] s \<longleftrightarrow> True"
| "events_ok vt_size R b (v # vs) s \<longleftrightarrow> event_ok vt_size R b v s \<and> events_ok vt_size R b vs (spec_event R b v s)"

lemma event_refines:
  assumes "log_holds vt_size dir R b (fst s) (snd s) st" and "event_ok vt_size R b v s"
  shows "\<exists>st'. log_event_step vt_size dir R v st = Some st'
    \<and> log_holds vt_size dir R b (fst (spec_event R b v s)) (snd (spec_event R b v s)) st'"
proof -
  obtain m es where s: "s = (m, es)" by (rule prod.exhaust)
  show ?thesis
  proof (cases v)
    case (Appended e)
    then show ?thesis using append_holds [of vt_size dir R b m es st e] assms s by auto
  next
    case (Restarted n last_commited logs_to_keep)
    then show ?thesis
      using restart_holds [of vt_size dir R b m es st n, OF _ _ refl] assms s by (fastforce simp: Let_def)
  qed
qed

lemma events_refine:
  assumes "log_holds vt_size dir R b (fst s) (snd s) st" and "events_ok vt_size R b vs s"
  shows "\<exists>st'. log_events vt_size dir R vs st = Some st'
    \<and> log_holds vt_size dir R b (fst (spec_events R b vs s)) (snd (spec_events R b vs s)) st'"
  using assms
proof (induction vs arbitrary: s st)
  case (Cons v vs)
  obtain st' where "log_event_step vt_size dir R v st = Some st'"
      "log_holds vt_size dir R b (fst (spec_event R b v s)) (snd (spec_event R b v s)) st'"
    using event_refines Cons.prems by fastforce
  then show ?case using Cons.IH Cons.prems(2) by simp
qed simp

lemma fresh_holds:
  assumes "0 < R" "1 \<le> b" "file_start b R 1 \<le> 2 ^ 64"
  shows "\<exists>st. log_store_start vt_size dir (int R) b logs_to_keep [] = Inr st \<and> log_holds vt_size dir R b 0 [] st"
proof -
  let ?cl = "\<lparr>changelogs_dir = dir, rotate_interval = int R, existing_changelogs = [], current_writer = None,
             index_to_start_pos = [], cl_logs = [], cl_start_index = b\<rparr>"
  have "b mod 2 ^ 64 = b" using assms by simp
  then have "log_store_start vt_size dir (int R) b logs_to_keep [] = Inr (cl_rotate (file_start b R 0) (?cl, []))"
    by (simp add: log_store_start_def changelog_new_def list_dir_def readChangelogAndInitWriter_def read_state_init_def Let_def)
  moreover have "log_holds vt_size dir R b 0 [] (cl_rotate (file_start b R 0) (?cl, []))"
    by (rule rotate_holds) (use assms in \<open>simp_all add: log_files_def disk_holds_def memory_holds_def\<close>)
  ultimately show ?thesis by blast
qed

lemma orderly_stop_keeps_all:
  assumes "log_holds vt_size dir R b m es st"
  shows "snd (spec_event R b (Restarted (length (chunk_bytes R b es m)) last_commited logs_to_keep) (m, es)) = es"
proof -
  have "m * R \<le> length es" "length es \<le> Suc m * R" using assms by (simp_all add: log_holds_def)
  then have "m * R + length (chunk R m es) = length es" by (simp add: chunk_def)
  then show ?thesis by (simp add: Let_def whole_all)
qed


definition sample_events :: "log_event list" where
  "sample_events =
     [Appended (sample_log ! 0), Appended (sample_log ! 1), Appended (sample_log ! 0), Restarted 20 1 5, Appended (sample_log ! 1)]"

lemma sample_record_bytes: "length (entry_bytes i (sample_log ! 0)) = 42" "length (entry_bytes i (sample_log ! Suc 0)) = 43"
  by (simp_all add: sample_log_def record_bytes_def header_bytes_def buildRecord_def blob_bytes_def)

lemma sample_events_ok:
  "events_ok 4 2 1 sample_events (0, [])"
  "spec_events 2 1 sample_events (0, []) = (1, [sample_log ! 0, sample_log ! 1, sample_log ! 1])"
  using sample_record_bytes [of 3]
  by (simp_all add: sample_events_def chunk_def restart_ok_def start_to_read_from_def)
    (simp_all add: sample_log_def entry_ok_def entry_sized_def)


end
