(* ===== verification/Changelog_Defects.thy ===== *)
theory Changelog_Defects
  imports Changelog_Restart
begin

text \<open>
  Compaction of the Keeper log beyond the current file, as after a snapshot of the leader was installed on a server whose log is
  behind it: every file is removed, also the one that is open for writing, and \<^verbatim>\<open>current_writer\<close> is kept.
  \<open>compacted_log_not_written\<close>: what is appended next is in memory only.
\<close>

section \<open>Compacting everything\<close>

lemma compact_all_files:
  assumes "\<forall>x \<in> set ds. to_log_index (snd x) \<le> up_to"
  shows "\<exists>offsets' disk'. compact_files up_to ds offsets disk = ([], offsets', disk')
    \<and> (\<forall>p. map_of disk' p = (if p \<in> (\<lambda>(key, d). cf_path d) ` set ds then None else map_of disk p))
    \<and> set offsets' = {(i, pos) \<in> set offsets. \<forall>(key, d) \<in> set ds. to_log_index d < i}"
  using assms
proof (induction ds arbitrary: offsets disk)
  case (Cons x ds)
  obtain key d where x: "x = (key, d)" by (rule prod.exhaust)
  then have "to_log_index d \<le> up_to" using Cons.prems by simp
  moreover obtain offsets' disk' where
    "compact_files up_to ds (filter (\<lambda>(i, pos). \<not> i \<le> to_log_index d) offsets) (AList.delete (cf_path d) disk) = ([], offsets', disk')"
    "\<forall>p. map_of disk' p = (if p \<in> (\<lambda>(key, d). cf_path d) ` set ds then None else map_of (AList.delete (cf_path d) disk) p)"
    "set offsets' = {(i, pos) \<in> set (filter (\<lambda>(i, pos). \<not> i \<le> to_log_index d) offsets). \<forall>(key, d) \<in> set ds. to_log_index d < i}"
    using Cons.IH [of "filter (\<lambda>(i, pos). \<not> i \<le> to_log_index d) offsets" "AList.delete (cf_path d) disk"] Cons.prems by auto
  ultimately show ?case unfolding x by (auto simp: delete_conv')
qed simp

text \<open>No file is left, the log is empty, and the writer still counts the entries of the file it wrote to.\<close>

definition no_file :: "string \<Rightarrow> disk \<Rightarrow> bool" where
  "no_file dir disk \<longleftrightarrow> (\<forall>p. in_dir dir p \<longrightarrow> map_of disk p = None)"

definition detached :: "string \<Rightarrow> nat \<Rightarrow> int \<Rightarrow> nat \<Rightarrow> log_entry list \<Rightarrow> cl_state \<Rightarrow> bool" where
  "detached dir R b c es st \<longleftrightarrow>
     rotate_interval (fst st) = int R \<and> no_file dir (snd st) \<and> memory_holds b es (fst st)
     \<and> (\<exists>w. current_writer (fst st) = Some w \<and> entries_written w = int c \<and> map_of (snd st) (w_filepath w) = None)"

lemma memory_indices:
  assumes "memory_holds b es cl"
  shows "map_of (index_to_start_pos cl) i = Some pos \<Longrightarrow> i < b + int (length es)"
    and "map_of (cl_logs cl) i = Some e \<Longrightarrow> i < b + int (length es)"
  using assms unfolding memory_holds_def by (metis option.distinct(1))+

lemma compact_detaches:
  assumes h: "log_holds vt_size dir R b m es st" and past: "file_start b R (Suc m) - 1 \<le> up_to" and "up_to + 1 < 2 ^ 64"
  shows "detached dir R (up_to + 1) (length es - m * R) [] (compact up_to st)"
proof -
  obtain cl disk where st: "st = (cl, disk)" by (rule prod.exhaust)
  note facts = h [unfolded log_holds_def st fst_conv snd_conv]
  let ?ds = "log_files dir R b (Suc m)"
  have ends: "\<forall>x \<in> set ?ds. to_log_index (snd x) \<le> up_to"
  proof
    fix x
    assume d: "x \<in> set ?ds"
    obtain c where c: "c < Suc m" "snd x = file_of dir (int R) (file_start b R c)" using d by (auto simp: log_files_def simp del: upt_Suc of_nat_mult)
    have "file_start b R (Suc c) \<le> file_start b R (Suc m)" using c(1) by (intro file_start_mono) simp
    then show "to_log_index (snd x) \<le> up_to" using past c(2) by simp
  qed
  obtain offsets' disk' where files: "compact_files up_to ?ds (index_to_start_pos cl) disk = ([], offsets', disk')"
      "\<And>p. map_of disk' p = (if p \<in> (\<lambda>(key, d). cf_path d) ` set ?ds then None else map_of disk p)"
      "set offsets' = {(i, pos) \<in> set (index_to_start_pos cl). \<forall>(key, d) \<in> set ?ds. to_log_index d < i}"
    using compact_all_files [OF ends, of "index_to_start_pos cl" disk] by blast
  have paths: "(\<lambda>(key, d). cf_path d) ` set ?ds = nth_path dir R b ` {..<Suc m}"
    by (simp add: log_files_def image_image atLeast0LessThan del: upt_Suc of_nat_mult)
  have len: "b + int (length es) \<le> file_start b R (Suc m)" using facts by (simp flip: of_nat_add of_nat_mult)
  have mem: "memory_holds b es cl" using facts by blast
  have "i < b + int (length es)" if "(i, pos) \<in> set (index_to_start_pos cl)" for i pos
    using memory_indices(1) [OF mem] weak_map_of_SomeI [OF that] by blast
  moreover have "(file_start b R m, file_of dir (int R) (file_start b R m)) \<in> set ?ds" by (simp add: log_files_def)
  ultimately have "offsets' = []" using files(3) len by (fastforce simp flip: set_empty2)
  moreover have "i \<le> up_to" if "(i, e) \<in> set (cl_logs cl)" for i e
    using memory_indices(2) [OF mem] weak_map_of_SomeI [OF that] past len by fastforce
  then have "filter (\<lambda>(i, e). \<not> i \<le> up_to) (cl_logs cl) = []" by (auto simp: filter_empty_conv)
  moreover have "no_file dir disk'"
    using facts unfolding no_file_def disk_holds_def files(2) paths by fastforce
  moreover have "0 \<le> up_to + 1" using past len facts by linarith
  ultimately show ?thesis
    using facts files(1) assms(3) unfolding st
    by (auto simp: detached_def compact_def memory_holds_def writer_at_def files(2) paths)
qed

section \<open>Appending to the removed file\<close>

lemma detached_append:
  assumes d: "detached dir R b c es st" and "c < R" "int R < 2 ^ 64" and "entry_ok vt_size e"
    and "1 \<le> b" "b + int (length es) < 2 ^ 64"
  shows "\<exists>st'. log_store_append e st = Some (Inr st') \<and> detached dir R b (Suc c) (es @ [e]) st'"
proof -
  obtain cl disk where st: "st = (cl, disk)" by (rule prod.exhaust)
  note facts = d [unfolded detached_def st fst_conv snd_conv]
  obtain w where w: "current_writer cl = Some w" "entries_written w = int c" "map_of disk (w_filepath w) = None" using facts by blast
  let ?i = "b + int (length es)" and ?bytes = "entry_bytes (b + int (length es)) e"
  let ?w = "w\<lparr>w_position := w_position w + length ?bytes, w_count := w_count w + int (length ?bytes), entries_written := int (Suc c)\<rparr>"
  let ?cl = "cl\<lparr>current_writer := Some ?w, index_to_start_pos := AList.update ?i (w_count w) (index_to_start_pos cl),
      cl_logs := AList.update ?i e (cl_logs cl)\<rparr>"
  have start: "(if cl_logs cl = [] then cl\<lparr>cl_start_index := ?i\<rparr> else cl) = cl"
    using memory_size [of b es cl] facts by (auto simp: memory_holds_def)
  have below: "entries_written w \<noteq> rotate_interval cl" and count: "(entries_written w + 1) mod 2 ^ 64 = int (Suc c)"
    using w(2) facts assms(2,3) by simp_all
  have free: "map_of (index_to_start_pos cl) ?i = None" using facts by (simp add: memory_holds_def)
  have clone: "makeClone e = Some e" using assms(4) by (simp add: makeClone_def entry_ok_def)
  have written: "appendRecord (buildRecord ?i e) w disk = (w_count w, ?w, disk)"
    using count by (simp add: appendRecord_def write_bytes_def w(3))
  have "appendEntry ?i e (cl, disk) = Some (Inr (?cl, disk))"
    unfolding appendEntry_def Let_def prod.case w(1) option.case start
    using below free clone by (simp add: w(1) written)
  moreover have "getNextEntryIndex cl = ?i" by (rule next_index) (use facts assms in simp_all)
  moreover have "detached dir R b (Suc c) (es @ [e]) (?cl, disk)"
    using memory_holds_append [where e = e and w = "Some ?w" and offset = "w_count w"] facts w(3) by (simp add: detached_def)
  ultimately show ?thesis by (simp add: log_store_append_def st)
qed

lemma detached_appends:
  assumes "detached dir R b c es st" and "c + length es' \<le> R" "int R < 2 ^ 64" and "list_all (entry_ok vt_size) es'"
    and "1 \<le> b" "b + int (length es + length es') \<le> 2 ^ 64"
  shows "\<exists>st'. log_events vt_size dir R (map Appended es') st = Some st' \<and> detached dir R b (c + length es') (es @ es') st'"
  using assms
proof (induction es' arbitrary: c es st)
  case (Cons e es')
  obtain st' where "log_store_append e st = Some (Inr st')" "detached dir R b (Suc c) (es @ [e]) st'"
    using detached_append [of dir R b c es st vt_size e] Cons.prems by auto
  moreover from this obtain st'' where "log_events vt_size dir R (map Appended es') st' = Some st''"
      "detached dir R b (Suc c + length es') ((es @ [e]) @ es') st''"
    using Cons.IH [of "Suc c" "es @ [e]" st'] Cons.prems by auto
  ultimately show ?case by simp
qed simp

text \<open>A start on a directory without files is a start with an empty log.\<close>

lemma start_without_files:
  assumes "no_file dir disk"
  shows "\<exists>st. log_store_start vt_size dir interval last_commited logs_to_keep disk = Inr st \<and> cl_logs (fst st) = []"
proof -
  have "map_of disk p = None \<Longrightarrow> p \<notin> fst ` set disk" for p by (simp add: map_of_eq_None_iff)
  then have "list_dir dir disk = []"
    using assms by (auto simp: list_dir_def no_file_def filter_empty_conv)
  then show ?thesis
    by (simp add: log_store_start_def changelog_new_def readChangelogAndInitWriter_def read_state_init_def cl_rotate_def
        changelog_writer_new_def Let_def)
qed

lemma crash_detached: "detached dir R b c es st \<Longrightarrow> crash n st = snd st"
  by (auto simp: detached_def crash_def)

text \<open>
  C35. After the log was compacted past its current file, the next entries are appended to a file that no longer exists: they are
  accepted and can be read, but no file of the log holds them, and after a restart, even in order, the log is empty.
\<close>

theorem compacted_log_not_written:
  assumes "log_holds vt_size dir R b m es st" and "file_start b R (Suc m) - 1 \<le> up_to"
    and "list_all (entry_ok vt_size) es'" and "length es + length es' \<le> Suc m * R" and "up_to + 1 + int (length es') < 2 ^ 64"
  shows "\<exists>st'. log_events vt_size dir R (map Appended es') (compact up_to st) = Some st'
    \<and> (\<forall>i<length es'. entryAt (up_to + 1 + int i) (fst st') = Some (es' ! i))
    \<and> (\<forall>p. in_dir dir p \<longrightarrow> map_of (snd st') p = None)
    \<and> (\<forall>n last_commited keep. \<exists>st''. log_store_start vt_size dir (int R) last_commited keep (crash n st') = Inr st''
          \<and> cl_logs (fst st'') = [])"
proof -
  note facts = assms(1) [unfolded log_holds_def]
  have "R \<le> Suc m * R" by simp
  then have R: "int R < 2 ^ 64" using facts by (simp flip: of_nat_add of_nat_mult)
  have up: "1 \<le> up_to + 1" using assms(2) facts by (simp flip: of_nat_add of_nat_mult)
  have room: "length es - m * R + length es' \<le> R" using assms(4) facts by simp
  have "detached dir R (up_to + 1) (length es - m * R) [] (compact up_to st)"
    by (rule compact_detaches [OF assms(1,2)]) (use assms(5) in simp)
  from detached_appends [OF this room R assms(3) up] assms(5)
  obtain st' where st': "log_events vt_size dir R (map Appended es') (compact up_to st) = Some st'"
      "detached dir R (up_to + 1) (length es - m * R + length es') es' st'"
    by auto
  then have mem: "memory_holds (up_to + 1) es' (fst st')" and none: "no_file dir (snd st')" by (simp_all add: detached_def)
  have "entryAt (up_to + 1 + int i) (fst st') = Some (es' ! i)" if "i < length es'" for i
    using mem that by (simp add: memory_holds_def entryAt_def)
  moreover have "\<exists>st''. log_store_start vt_size dir (int R) last_commited keep (crash n st') = Inr st'' \<and> cl_logs (fst st'') = []"
    for n last_commited keep
    unfolding crash_detached [OF st'(2)] by (rule start_without_files [OF none])
  ultimately show ?thesis using st'(1) none unfolding no_file_def by blast
qed

text \<open>A log with one entry, compacted up to index 9; the file is for entries 1 to 3.\<close>

lemma one_entry_log:
  "\<exists>st. log_store_start 4 ''/log'' 3 1 5 [] = Inr st \<and> (\<exists>st'. log_store_append (sample_log ! 0) st = Some (Inr st')
    \<and> log_holds 4 ''/log'' 3 1 0 [sample_log ! 0] st')"
proof -
  have "entry_ok 4 (sample_log ! 0)" by (simp add: sample_log_def entry_ok_def entry_sized_def)
  moreover obtain st where "log_store_start 4 ''/log'' 3 1 5 [] = Inr st" "log_holds 4 ''/log'' 3 1 0 [] st"
    using fresh_holds [of 3 1 4 "''/log''" 5] by auto
  ultimately show ?thesis using append_holds [of 4 "''/log''" 3 1 0 "[]" st "sample_log ! 0"] by auto
qed

theorem compacted_log_not_written_witness:
  "\<exists>st st' st2. log_store_start 4 ''/log'' 3 1 5 [] = Inr st \<and> log_store_append (sample_log ! 0) st = Some (Inr st')
    \<and> log_events 4 ''/log'' 3 [Appended (sample_log ! 1)] (compact 9 st') = Some st2
    \<and> entryAt 10 (fst st2) = Some (sample_log ! 1)
    \<and> (\<exists>st3. log_store_start 4 ''/log'' 3 10 5 (crash 1000 st2) = Inr st3 \<and> entryAt 10 (fst st3) = None)"
proof -
  obtain st st' where st: "log_store_start 4 ''/log'' 3 1 5 [] = Inr st" "log_store_append (sample_log ! 0) st = Some (Inr st')"
      "log_holds 4 ''/log'' 3 1 0 [sample_log ! 0] st'"
    using one_entry_log by blast
  have "list_all (entry_ok 4) [sample_log ! 1]" by (simp add: sample_log_def entry_ok_def entry_sized_def)
  from compacted_log_not_written [OF st(3) _ this, of 9] obtain st2 where
    st2: "log_events 4 ''/log'' 3 [Appended (sample_log ! 1)] (compact 9 st') = Some st2"
      "entryAt 10 (fst st2) = Some (sample_log ! 1)"
      "\<And>n last_commited keep. \<exists>st''. log_store_start 4 ''/log'' 3 last_commited keep (crash n st2) = Inr st'' \<and> cl_logs (fst st'') = []"
    by auto
  show ?thesis using st(1,2) st2 by (fastforce simp: entryAt_def)
qed

end
