(* ===== verification/Spec2Isabelle.thy ===== *)
theory Spec2Isabelle
  imports Missing_Ranges Sequence_Text Part_Recovery Recovery_Routing Block_Output Query_Routing
    Catalog_Index Placement Task_Status Keeper_Defects Keeper_Machine Changelog_Defects
begin

text \<open>
  A verification of the streaming storage of Daisy, the warehouse built on ClickHouse under
  \<^verbatim>\<open>src/src\<close>, and of Keeper, its coordination service.

  \<^bold>\<open>The program.\<close>  A table of the engine DistributedMergeTree has shards; a shard is a partition of a
  write-ahead log and, on each node that holds it, a local MergeTree table.  An \<^verbatim>\<open>INSERT\<close> splits its
  blocks by the sharding key and appends a record per shard to the log
  (\<^verbatim>\<open>DistributedMergeTreeBlockOutputStream.cpp\<close>, \<^verbatim>\<open>IngestingBlocks.cpp\<close>).  The node of the shard consumes
  the records, drops duplicates, merges the blocks of a batch and hands the batch to a thread pool that
  writes data parts (\<^verbatim>\<open>StorageDistributedMergeTree.cpp\<close>, \<^verbatim>\<open>DistributedMergeTreeCallbackData.cpp\<close>).  Each
  part has a file \<^verbatim>\<open>sn.txt\<close> with the sequence numbers and keys it holds (\<^verbatim>\<open>SequenceInfo.cpp\<close>), the table a
  file \<^verbatim>\<open>committed_sn.txt\<close>; after a restart the missing ranges are computed from them and consumed again
  (\<^verbatim>\<open>StorageMergeTree.cpp\<close>).  A \<^verbatim>\<open>SELECT\<close> is sent to the shards that can have matching rows.  Three services
  consume their own logs: the catalog of the tables of all nodes, the placement of new tables, and the status of
  distributed tasks (\<^verbatim>\<open>DistributedMetadata\<close>).

  Keeper (\<^verbatim>\<open>Coordination\<close>) serves the ZooKeeper protocol.  A connection reads a request from the wire
  (\<^verbatim>\<open>Common/ZooKeeper\<close>), the request becomes an entry of a replicated log, the log is kept in files with
  checksums (\<^verbatim>\<open>Changelog.cpp\<close>, \<^verbatim>\<open>Common/SipHash.h\<close>), and each server applies the entries to its
  tree of nodes (\<^verbatim>\<open>KeeperStateMachine.cpp\<close>, \<^verbatim>\<open>KeeperStorage.cpp\<close>).  From time to time it writes the tree to a
  snapshot while requests go on (\<^verbatim>\<open>SnapshotableHashTable.h\<close>, \<^verbatim>\<open>KeeperSnapshotManager.cpp\<close>) and compacts the log; a
  restart loads the snapshot and the rest of the log.  Sessions that are silent are closed
  (\<^verbatim>\<open>SessionExpiryQueue.cpp\<close>).

  \<^bold>\<open>Conventions.\<close>  A struct is a record, an operation a function on the state.  An exception is \<open>Inl\<close> of an error
  type; undefined behaviour, and a loop that does not end, is \<open>None\<close>, so that a result \<open>Some\<close> says that the
  behaviour is defined.  Assertions are not executed.  Sequence numbers and times are integers; counters whose width
  matters are words (\<^verbatim>\<open>UInt16\<close> and \<^verbatim>\<open>uint32\<close> in the insert path, \<^verbatim>\<open>UInt64\<close> in parsing, flags and hashing, all integers on the
  wire and in snapshots); indices of the log of Keeper are integers with the wrap-around at \<open>2 ^ 64\<close> written out.
  Hash maps are association lists in the order in which they are walked; ordered maps and sets are sorted lists.

  \<^bold>\<open>Theories.\<close>
  \<^item> \<open>Daisy_Prelude\<close>: results, the locale \<open>step_system\<close> (invariants of step relations) and the locale \<open>std_sort\<close>
    (what \<^verbatim>\<open>std::sort\<close> promises), interpreted for sequence ranges and for placement.
  \<^item> \<open>Sequence_Ranges\<close>, \<open>Sequence_Merge\<close>, \<open>Missing_Ranges\<close>: \<^verbatim>\<open>SequenceInfo.{h,cpp}\<close>.  Merging of ranges and keys; the scan
    for missing ranges ends and finds exactly the holes and exactly the missing parts.
  \<^item> \<open>Text_IO\<close>, \<open>Sequence_Text\<close>: the text primitives and the format of \<^verbatim>\<open>sn.txt\<close>, with the locale \<open>item_codec\<close> for lists of items;
    reading gives back what was written, except for keys with a separator.
  \<^item> \<open>MergeTree_SN\<close>, \<open>Part_Recovery\<close>: sequence numbers of the local table, their file, and what a crash, a restart and a background merge do
    to them.
  \<^item> \<open>Sequence_Tracker\<close>: the bookkeeping of batches in flight refines "the end of the longest finished prefix" (locale
    \<open>sn_tracker\<close>).
  \<^item> \<open>WAL_Record\<close>: operation codes, flags, the wire format of a record, the growing buffer.
  \<^item> \<open>Idempotent_Keys\<close>: the deque and the index of keys refine a window of the last accepted keys.
  \<^item> \<open>Commit_Pipeline\<close>, \<open>Commit_Blocks\<close>: consumption of a batch, merging of blocks, and the pool tasks as a step relation;
    in every reachable state what is committed was persisted or had nothing to write.
  \<^item> \<open>Recovery_Routing\<close>: the consumer callback; buffered records go to exactly the ranges that lost them.
  \<^item> \<open>Ingesting_Blocks\<close>: the status of asynchronous inserts; an invariant of all sequences of operations excludes
    undefined behaviour below 65536 blocks.
  \<^item> \<open>Block_Sharding\<close>: selectors and the split of a block; no row is lost, repeated or reordered.
  \<^item> \<open>Block_Output\<close>: the insert stream in its four modes; waiting of synchronous inserts, status of asynchronous ones, and
    the idempotent key met with deduplication.
  \<^item> \<open>Shard_Pruning\<close>, \<open>Query_Routing\<close>: the analysis of constant conditions, the shards and the stage of a query; every selected row
    is on a shard that is read.
  \<^item> \<open>Catalog\<close>, \<open>Catalog_Index\<close>: nodes, tables, the indices of the catalog and the merge of a broadcast; the indices refine "the last
    valid record of each node".
  \<^item> \<open>Placement\<close>: metrics of nodes and the choice of nodes for a table.
  \<^item> \<open>Task_Status\<close>: task records, the shared task objects (an explicit heap) and the background job.
  \<^item> \<open>Keeper_Table\<close>: the hash table over a linked list; a snapshot shows the table as it was when it was taken, whatever is
    written meanwhile (locale \<open>keyed_table\<close>).
  \<^item> \<open>Keeper_Sessions\<close>: the queue of session deadlines; a silent session expires within one interval after its deadline.
  \<^item> \<open>Keeper_Protocol\<close>, \<open>Keeper_Storage\<close>: requests, responses, and every operation of \<^verbatim>\<open>KeeperStorage\<close> with its undo action,
    watches, sessions and multi requests.
  \<^item> \<open>Keeper_Tree\<close>, \<open>Keeper_Requests\<close>: the flat table of paths stays a tree, a failed multi request changes nothing,
    an answer has the type of its request, and a closed session leaves no node, watch or timeout.
  \<^item> \<open>Binary_IO\<close>: binary integers, variable-length integers and strings, with the locales \<open>binary_codec\<close> and
    \<open>vector_codec\<close> for formats that are read back as they were written.
  \<^item> \<open>Keeper_Wire\<close>: requests on the wire and as log entries; the entry made of a request is parsed to that request.
  \<^item> \<open>Keeper_Snapshot\<close>, \<open>Keeper_Replicas\<close>, \<open>Keeper_Machine\<close>: the bytes of a snapshot, storages that cannot be told
    apart, and the state machine; a server that loads a snapshot and applies the entries after it ends where the others are.
  \<^item> \<open>Keeper_Defects\<close>: requests whose answers or notifications tell of something that did not happen.
  \<^item> \<open>Sip_Hash\<close>: SipHash 2-4; the loop over words computes what one byte at a time does, however the data is cut.
  \<^item> \<open>Changelog_Record\<close>: records of the log; of a file cut at any byte its whole records are read.
  \<^item> \<open>Changelog\<close>, \<open>Changelog_Restart\<close>: the files, the writer and all operations of the log; through appends, crashes and restarts
    memory and files refine a list of entries.
  \<^item> \<open>Changelog_Defects\<close>: compaction past the current file; the next entries are not on disk.

  \<^bold>\<open>Bounds.\<close>  No model uses fuel except the loop of \<^verbatim>\<open>flush\<close>, which takes the list of results that the log delivers and is shown to
  return when there is one for each record.  Bounds in hypotheses are those of the types of the code: fewer than
  \<open>2 ^ 32\<close> records for the 32-bit counters of a stream, fewer than 65536 blocks for the 16-bit total of a query, fewer
  than \<open>2 ^ 31\<close> shards, log indices below \<open>2 ^ 64\<close>.

  \<^bold>\<open>Outside the model.\<close>  The log itself, the clock, the shuffle, the native block format, compression, the SQL functions, the conversion of literals and
  the walking order of hash maps are arguments; what a theorem needs of them is a hypothesis.  So are the bytes of the
  metadata of NuRaft in a snapshot, and the size of its type of log values.  A crash cuts the file that is being written at any byte; files
  that were closed before are whole.

  \<^bold>\<open>Not modelled.\<close>  The Kafka client (calls of librdkafka and threads), the DDL service and the REST handlers (HTTP requests and
  SQL text), of Keeper the server threads, the dispatcher, the files and the compression of snapshots, responses on the wire and
  NuRaft, and the engine of ClickHouse (parsers, interpreters, columns, functions, MergeTree, pipelines, server), of
  which the models use blocks as lists of columns and queries as syntax trees.  Locks are not modelled: an operation is atomic,
  except that the pool tasks of the commit pipeline interleave with consumption.  Partial effects of a failed write of a part and a
  refusal of the pool to take a task are left out.
\<close>

end
